(* ===== verification/Prelude.thy ===== *)
theory Prelude
  imports Main "HOL-Library.Signed_Division" "HOL-Library.Word"
begin

text \<open>
  Shared vocabulary of the development.

  \<^item> \<open>outcome\<close>: what a Rust call can do: return \<open>Ok\<close>, return \<open>Err\<close>, or panic (an
    \<open>unwrap\<close>, an \<open>unreachable!\<close>, an \<open>expect\<close>, an out-of-range index).
    \<open>obind\<close> is the \<open>?\<close> operator, \<open>try_fold\<close> is \<open>Iterator::try_fold\<close>.
  \<^item> machine integers: \<open>u64\<close>, \<open>u128\<close> and the other unsigned types are \<open>nat\<close> with the bound
    written out, \<open>i128\<close> is \<open>int\<close>. Saturating and checked operations are defined as in the
    Rust standard library; an \<open>as\<close> cast is reduction modulo the width.
  \<^item> \<open>outcome_simps\<close> and \<open>sat_simps\<close> are the two simplification collections the component
    theories use.
\<close>

named_theorems outcome_simps
named_theorems sat_simps

section \<open>Results of fallible code\<close>

datatype ('e, 'a) outcome = Ok 'a | Err 'e | Panic

fun obind :: "('e, 'a) outcome \<Rightarrow> ('a \<Rightarrow> ('e, 'b) outcome) \<Rightarrow> ('e, 'b) outcome" where
  "obind (Ok x) f = f x"
| "obind (Err e) f = Err e"
| "obind Panic f = Panic"

fun omap_err :: "('e \<Rightarrow> 'g) \<Rightarrow> ('e, 'a) outcome \<Rightarrow> ('g, 'a) outcome" where
  "omap_err g (Ok x) = Ok x"
| "omap_err g (Err e) = Err (g e)"
| "omap_err g Panic = Panic"

fun ok_or :: "'a option \<Rightarrow> 'e \<Rightarrow> ('e, 'a) outcome" where
  "ok_or (Some x) e = Ok x"
| "ok_or None e = Err e"

fun try_fold :: "('s \<Rightarrow> 'x \<Rightarrow> ('e, 's) outcome) \<Rightarrow> 's \<Rightarrow> 'x list \<Rightarrow> ('e, 's) outcome" where
  "try_fold f s [] = Ok s"
| "try_fold f s (x # xs) = obind (f s x) (\<lambda>s'. try_fold f s' xs)"

definition ensure :: "bool \<Rightarrow> 'e \<Rightarrow> ('e, unit) outcome" where
  "ensure b e = (if b then Ok () else Err e)"

text \<open>\<open>collect::<Result<Vec<_>, _>>\<close>.\<close>

fun collect_results :: "('e, 'a) outcome list \<Rightarrow> ('e, 'a list) outcome" where
  "collect_results [] = Ok []"
| "collect_results (m # ms) = obind m (\<lambda>x. obind (collect_results ms) (\<lambda>xs. Ok (x # xs)))"

lemma obind_cong [fundef_cong]:
  "m = m' \<Longrightarrow> (\<And>x. m' = Ok x \<Longrightarrow> f x = f' x) \<Longrightarrow> obind m f = obind m' f'"
  by (cases m') auto

lemma obind_eq_Ok [outcome_simps]: "obind m f = Ok y \<longleftrightarrow> (\<exists>x. m = Ok x \<and> f x = Ok y)"
  by (cases m) auto

lemma obind_eq_Err [outcome_simps]:
  "obind m f = Err e \<longleftrightarrow> m = Err e \<or> (\<exists>x. m = Ok x \<and> f x = Err e)"
  by (cases m) auto

lemma obind_eq_Panic [outcome_simps]:
  "obind m f = Panic \<longleftrightarrow> m = Panic \<or> (\<exists>x. m = Ok x \<and> f x = Panic)"
  by (cases m) auto

lemma omap_err_eq_Ok [outcome_simps]: "omap_err g m = Ok y \<longleftrightarrow> m = Ok y"
  by (cases m) auto

lemma omap_err_eq_Err [outcome_simps]: "omap_err g m = Err e \<longleftrightarrow> (\<exists>e'. m = Err e' \<and> g e' = e)"
  by (cases m) auto

lemma omap_err_eq_Panic [outcome_simps]: "omap_err g m = Panic \<longleftrightarrow> m = Panic"
  by (cases m) auto

lemma ok_or_eq_Ok [outcome_simps]: "ok_or m e = Ok y \<longleftrightarrow> m = Some y"
  by (cases m) auto

lemma ok_or_eq_Err [outcome_simps]: "ok_or m e = Err e' \<longleftrightarrow> m = None \<and> e' = e"
  by (cases m) auto

lemma ok_or_not_Panic [outcome_simps]: "ok_or m e \<noteq> Panic"
  by (cases m) auto

lemma ensure_eq_Ok [outcome_simps]: "ensure b e = Ok u \<longleftrightarrow> b"
  by (simp add: ensure_def)

lemma ensure_eq_Err [outcome_simps]: "ensure b e = Err e' \<longleftrightarrow> \<not> b \<and> e' = e"
  by (auto simp: ensure_def)

lemma ensure_not_Panic [outcome_simps]: "ensure b e \<noteq> Panic"
  by (simp add: ensure_def)

lemma collect_results_Ok: "collect_results (map Ok xs) = Ok xs"
  by (induction xs) auto

lemma try_fold_append:
  "try_fold f s (xs @ ys) = obind (try_fold f s xs) (\<lambda>s'. try_fold f s' ys)"
proof (induction xs arbitrary: s)
  case (Cons x xs)
  then show ?case by (cases "f s x") auto
qed simp

text \<open>A fold keeps what each of its steps keeps.\<close>

lemma try_fold_invariant:
  assumes "try_fold f s xs = Ok s'" and "I s"
    and "\<And>s x s'. I s \<Longrightarrow> x \<in> set xs \<Longrightarrow> f s x = Ok s' \<Longrightarrow> I s'"
  shows "I s'"
  using assms
proof (induction xs arbitrary: s)
  case (Cons x xs)
  from Cons.prems(1) obtain s1 where s1: "f s x = Ok s1" and rest: "try_fold f s1 xs = Ok s'"
    by (auto simp: outcome_simps)
  have "I s1" using Cons.prems(2) s1 Cons.prems(3) by (meson list.set_intros(1))
  then show ?case
    using Cons.IH [OF rest] Cons.prems(3) by (meson list.set_intros(2))
qed simp

lemma try_fold_no_panic:
  assumes "I s" and "\<And>s x. I s \<Longrightarrow> x \<in> set xs \<Longrightarrow> f s x \<noteq> Panic"
    and "\<And>s x s'. I s \<Longrightarrow> x \<in> set xs \<Longrightarrow> f s x = Ok s' \<Longrightarrow> I s'"
  shows "try_fold f s xs \<noteq> Panic"
  using assms
proof (induction xs arbitrary: s)
  case (Cons x xs)
  have "f s x \<noteq> Panic" using Cons.prems by simp
  moreover have "try_fold f s1 xs \<noteq> Panic" if "f s x = Ok s1" for s1
    using Cons.IH [of s1] Cons.prems that by (meson list.set_intros)
  ultimately show ?case by (auto simp: outcome_simps)
qed simp

subsection \<open>Safety\<close>

text \<open>\<open>safe m P\<close>: the call does not panic, and what it returns satisfies \<open>P\<close>. The equations of
  \<open>safe_simps\<close> compute it along the structure of a program.\<close>

named_theorems safe_simps

definition safe :: "('e, 'a) outcome \<Rightarrow> ('a \<Rightarrow> bool) \<Rightarrow> bool" where
  "safe m P \<longleftrightarrow> (case m of Ok x \<Rightarrow> P x | Err _ \<Rightarrow> True | Panic \<Rightarrow> False)"

lemma safe_Ok [safe_simps]: "safe (Ok x) P \<longleftrightarrow> P x"
  and safe_Err [safe_simps]: "safe (Err e) P"
  and safe_Panic [safe_simps]: "\<not> safe Panic P"
  by (simp_all add: safe_def)

lemma safe_obind [safe_simps]: "safe (obind m f) P \<longleftrightarrow> safe m (\<lambda>x. safe (f x) P)"
  by (cases m) (simp_all add: safe_def)

lemma safe_omap_err [safe_simps]: "safe (omap_err g m) P \<longleftrightarrow> safe m P"
  by (cases m) (simp_all add: safe_def)

lemma safe_ok_or [safe_simps]: "safe (ok_or x e) P \<longleftrightarrow> (\<forall>y. x = Some y \<longrightarrow> P y)"
  by (cases x) (simp_all add: safe_def)

lemma safe_if [safe_simps]: "safe (if b then m else n) P \<longleftrightarrow> (b \<longrightarrow> safe m P) \<and> (\<not> b \<longrightarrow> safe n P)"
  by simp

lemma safe_iff: "safe m P \<longleftrightarrow> m \<noteq> Panic \<and> (\<forall>x. m = Ok x \<longrightarrow> P x)"
  by (cases m) (simp_all add: safe_def)

lemma safe_mono: "safe m P \<Longrightarrow> (\<And>x. m = Ok x \<Longrightarrow> P x \<Longrightarrow> Q x) \<Longrightarrow> safe m Q"
  by (cases m) (simp_all add: safe_def)

lemma safe_try_fold:
  assumes "I s" and "\<And>s x. I s \<Longrightarrow> x \<in> set xs \<Longrightarrow> safe (f s x) I"
  shows "safe (try_fold f s xs) I"
  using assms
proof (induction xs arbitrary: s)
  case (Cons x xs)
  have "safe (f s x) I" using Cons.prems by simp
  then show ?case unfolding try_fold.simps safe_obind
    by (rule safe_mono) (rule Cons.IH, use Cons.prems in auto)
qed (simp add: safe_Ok)

section \<open>Machine integers\<close>

definition u8_max :: nat where "u8_max = 2 ^ 8 - 1"
definition u16_max :: nat where "u16_max = 2 ^ 16 - 1"
definition u32_max :: nat where "u32_max = 2 ^ 32 - 1"
definition u64_max :: nat where "u64_max = 2 ^ 64 - 1"
definition u128_max :: nat where "u128_max = 2 ^ 128 - 1"
definition i128_max :: int where "i128_max = 2 ^ 127 - 1"
definition i128_min :: int where "i128_min = - (2 ^ 127)"

lemmas int_bounds_defs = u8_max_def u16_max_def u32_max_def u64_max_def u128_max_def
  i128_max_def i128_min_def

definition sat_add :: "nat \<Rightarrow> nat \<Rightarrow> nat \<Rightarrow> nat" where
  "sat_add mx a b = min (a + b) mx"

definition sat_mul :: "nat \<Rightarrow> nat \<Rightarrow> nat \<Rightarrow> nat" where
  "sat_mul mx a b = min (a * b) mx"

abbreviation sat_add64 :: "nat \<Rightarrow> nat \<Rightarrow> nat" where "sat_add64 \<equiv> sat_add u64_max"
abbreviation sat_mul64 :: "nat \<Rightarrow> nat \<Rightarrow> nat" where "sat_mul64 \<equiv> sat_mul u64_max"

text \<open>Unsigned saturating subtraction is subtraction on \<open>nat\<close>.\<close>

abbreviation (input) sat_sub :: "nat \<Rightarrow> nat \<Rightarrow> nat" where "sat_sub a b \<equiv> a - b"

definition checked_add :: "nat \<Rightarrow> nat \<Rightarrow> nat \<Rightarrow> nat option" where
  "checked_add mx a b = (if a + b \<le> mx then Some (a + b) else None)"

definition checked_sub :: "nat \<Rightarrow> nat \<Rightarrow> nat option" where
  "checked_sub a b = (if b \<le> a then Some (a - b) else None)"

definition clamp_i128 :: "int \<Rightarrow> int" where
  "clamp_i128 x = max i128_min (min i128_max x)"

definition wrap_i128 :: "int \<Rightarrow> int" where
  "wrap_i128 x = (x + 2 ^ 127) mod 2 ^ 128 - 2 ^ 127"

definition is_i128 :: "int \<Rightarrow> bool" where
  "is_i128 x \<longleftrightarrow> i128_min \<le> x \<and> x \<le> i128_max"

definition div_ceil :: "nat \<Rightarrow> nat \<Rightarrow> nat" where
  "div_ceil a b = a div b + (if a mod b = 0 then 0 else 1)"

lemma sat_add_le [sat_simps, intro]: "sat_add mx a b \<le> mx"
  by (simp add: sat_add_def)

lemma sat_mul_le [sat_simps, intro]: "sat_mul mx a b \<le> mx"
  by (simp add: sat_mul_def)

lemma sat_add_comm: "sat_add mx a b = sat_add mx b a"
  by (simp add: sat_add_def add.commute)

lemma sat_add_assoc: "sat_add mx (sat_add mx a b) c = sat_add mx a (sat_add mx b c)"
  by (simp add: sat_add_def)

lemma sat_add_0 [sat_simps]: "a \<le> mx \<Longrightarrow> sat_add mx a 0 = a" "a \<le> mx \<Longrightarrow> sat_add mx 0 a = a"
  by (simp_all add: sat_add_def)

lemma sat_add_mono: "a \<le> a' \<Longrightarrow> b \<le> b' \<Longrightarrow> sat_add mx a b \<le> sat_add mx a' b'"
  by (auto simp: sat_add_def)

lemma sat_add_increasing: "a \<le> mx \<Longrightarrow> a \<le> sat_add mx a b"
  by (simp add: sat_add_def)

lemma sat_mul_mono: "a \<le> a' \<Longrightarrow> b \<le> b' \<Longrightarrow> sat_mul mx a b \<le> sat_mul mx a' b'"
  by (simp add: sat_mul_def min.coboundedI1 mult_le_mono)

lemma checked_add_Some [sat_simps]: "checked_add mx a b = Some c \<longleftrightarrow> c = a + b \<and> a + b \<le> mx"
  by (auto simp: checked_add_def)

lemma checked_sub_Some [sat_simps]: "checked_sub a b = Some c \<longleftrightarrow> b \<le> a \<and> c = a - b"
  by (auto simp: checked_sub_def)

lemma clamp_i128_range [simp]: "is_i128 (clamp_i128 x)"
  by (auto simp: clamp_i128_def is_i128_def i128_min_def i128_max_def)

lemma clamp_i128_id: "is_i128 x \<Longrightarrow> clamp_i128 x = x"
  by (auto simp: clamp_i128_def is_i128_def)

lemma wrap_i128_range [simp]: "is_i128 (wrap_i128 x)"
  using pos_mod_bound [of "2 ^ 128 :: int" "x + 2 ^ 127"] pos_mod_sign [of "2 ^ 128 :: int" "x + 2 ^ 127"]
  by (simp add: wrap_i128_def is_i128_def i128_min_def i128_max_def)

lemma wrap_i128_id: "is_i128 x \<Longrightarrow> wrap_i128 x = x"
  by (simp add: wrap_i128_def is_i128_def i128_min_def i128_max_def)

lemma div_ceil_ge: "0 < b \<Longrightarrow> a \<le> div_ceil a b * b"
proof -
  assume "0 < b"
  then have "a mod b \<le> b" by (simp add: less_imp_le)
  moreover have "a = b * (a div b) + a mod b" by simp
  ultimately have "a \<le> b + b * (a div b)" by linarith
  then show ?thesis by (auto simp: div_ceil_def algebra_simps)
qed

lemma div_ceil_least: "0 < b \<Longrightarrow> a \<le> q * b \<Longrightarrow> div_ceil a b \<le> q"
proof -
  assume b: "0 < b" and q: "a \<le> q * b"
  have le: "a div b \<le> q"
    using div_le_mono [OF q, of b] b by simp
  show ?thesis
  proof (cases "a mod b = 0")
    case True
    then show ?thesis using le by (simp add: div_ceil_def)
  next
    case False
    have "a div b \<noteq> q"
    proof
      assume "a div b = q"
      then have "a = q * b + a mod b" by (metis div_mult_mod_eq)
      with q False show False by simp
    qed
    then show ?thesis using le False by (simp add: div_ceil_def)
  qed
qed

lemma div_ceil_le_iff: "0 < b \<Longrightarrow> div_ceil a b \<le> q \<longleftrightarrow> a \<le> q * b"
  by (meson div_ceil_ge div_ceil_least le_trans mult_le_mono1)

lemma sdiv_of_nat: "int a sdiv int b = int (a div b)"
  by (cases "a = 0"; cases "b = 0") (auto simp: signed_divide_int_def sgn_if zdiv_int)

lemma smod_of_nat: "int a smod int b = int (a mod b)"
  by (cases "a = 0") (auto simp: signed_modulo_int_def sgn_if zmod_int)

text \<open>\<open>ilog2\<close> of the standard library, on positive numbers.\<close>

fun ilog2 :: "nat \<Rightarrow> nat" where
  "ilog2 n = (if n < 2 then 0 else Suc (ilog2 (n div 2)))"

declare ilog2.simps [simp del]

lemma ilog2_bounds: "0 < n \<Longrightarrow> 2 ^ ilog2 n \<le> n \<and> n < 2 ^ Suc (ilog2 n)"
proof (induction n rule: ilog2.induct)
  case (1 n)
  show ?case
  proof (cases "n < 2")
    case True
    then show ?thesis using "1.prems" by (simp add: ilog2.simps)
  next
    case False
    then have "2 ^ ilog2 (n div 2) \<le> n div 2 \<and> n div 2 < 2 ^ Suc (ilog2 (n div 2))"
      using 1 by simp
    then have "2 * 2 ^ ilog2 (n div 2) \<le> n \<and> n < 2 * 2 ^ Suc (ilog2 (n div 2))" by linarith
    moreover have "ilog2 n = Suc (ilog2 (n div 2))" using False by (simp add: ilog2.simps [of n])
    ultimately show ?thesis by simp
  qed
qed

end
