(* ===== verification/Time_Arith.thy ===== *)
theory Time_Arith
  imports Prelude
begin

text \<open>
  \<open>base-crypto/src/time.rs\<close>: \<open>Timestamp\<close> (a \<open>u64\<close> of seconds, here \<open>nat\<close>) and \<open>Duration\<close>
  (an \<open>i128\<close> of seconds, here \<open>int\<close>). Adding a duration to a timestamp saturates at both ends.
  The cast \<open>rhs.0 as u64\<close> of the non-negative branch is reduction modulo \<open>2 ^ 64\<close>, as in Rust;
  the negative branch goes through \<open>checked_abs\<close> and \<open>u64::try_from\<close> instead.
\<close>

type_synonym timestamp = nat
type_synonym duration = int

definition abs_duration :: "duration \<Rightarrow> nat" where
  "abs_duration d =
     (if d = i128_min then u64_max
      else if nat \<bar>d\<bar> \<le> u64_max then nat \<bar>d\<bar> else u64_max)"

definition ts_diff :: "timestamp \<Rightarrow> timestamp \<Rightarrow> duration" where
  "ts_diff t u = int t - int u"

definition ts_add :: "timestamp \<Rightarrow> duration \<Rightarrow> timestamp" where
  "ts_add t d =
     (if 0 \<le> d then sat_add64 t (nat (d mod 2 ^ 64))
      else sat_sub t (abs_duration d))"

definition ts_sub :: "timestamp \<Rightarrow> duration \<Rightarrow> timestamp" where
  "ts_sub t d =
     (if 0 \<le> d then sat_sub t (nat (d mod 2 ^ 64))
      else sat_add64 t (abs_duration d))"

definition dur_from_secs :: "int \<Rightarrow> duration" where
  "dur_from_secs s = s"

definition dur_from_hours :: "int \<Rightarrow> duration" where
  "dur_from_hours h = dur_from_secs (clamp_i128 (h * 3600))"

definition dur_add :: "duration \<Rightarrow> duration \<Rightarrow> duration" where
  "dur_add a b = clamp_i128 (a + b)"

definition dur_sub :: "duration \<Rightarrow> duration \<Rightarrow> duration" where
  "dur_sub a b = clamp_i128 (a - b)"

text \<open>What the operations compute when the duration's magnitude is at most \<open>u64::MAX\<close>.\<close>

definition clamp_u64 :: "int \<Rightarrow> int" where
  "clamp_u64 x = max 0 (min (int u64_max) x)"

lemma abs_duration_small: "\<bar>d\<bar> \<le> int u64_max \<Longrightarrow> int (abs_duration d) = \<bar>d\<bar>"
  by (auto simp: abs_duration_def u64_max_def i128_min_def)

lemma nat_mod_u64: "0 \<le> d \<Longrightarrow> d \<le> int u64_max \<Longrightarrow> int (nat (d mod 2 ^ 64)) = d"
  by (simp add: u64_max_def)

lemma ts_add_small:
  assumes "t \<le> u64_max" and "\<bar>d\<bar> \<le> int u64_max"
  shows "int (ts_add t d) = clamp_u64 (int t + d)"
proof (cases "0 \<le> d")
  case True
  then have "int (nat (d mod 2 ^ 64)) = d" using assms nat_mod_u64 by simp
  then show ?thesis using True
    by (simp add: ts_add_def sat_add_def clamp_u64_def of_nat_min)
next
  case False
  then show ?thesis using assms abs_duration_small [OF assms(2)]
    by (simp add: ts_add_def clamp_u64_def)
qed

lemma ts_sub_small:
  assumes "t \<le> u64_max" and "\<bar>d\<bar> \<le> int u64_max"
  shows "int (ts_sub t d) = clamp_u64 (int t - d)"
proof (cases "0 \<le> d")
  case True
  then have "int (nat (d mod 2 ^ 64)) = d" using assms nat_mod_u64 by simp
  then show ?thesis using True assms
    by (simp add: ts_sub_def clamp_u64_def)
next
  case False
  then show ?thesis using assms abs_duration_small [OF assms(2)]
    by (simp add: ts_sub_def clamp_u64_def sat_add_def of_nat_min)
qed

lemma ts_add_le_max: "t \<le> u64_max \<Longrightarrow> ts_add t d \<le> u64_max"
  by (auto simp: ts_add_def sat_add_def)

lemma ts_sub_mono:
  assumes "t \<le> t'" shows "ts_sub t d \<le> ts_sub t' d"
  using assms by (auto simp: ts_sub_def sat_add_def)

lemma ts_sub_le: "0 \<le> d \<Longrightarrow> ts_sub t d \<le> t"
  by (simp add: ts_sub_def)

end
