(* ===== verification/Cost_Model.thy ===== *)
theory Cost_Model
  imports Prelude
begin

text \<open>
  \<open>base-crypto/src/cost_model.rs\<close>: costed time (\<open>CostDuration\<close>, a \<open>u64\<close> of picoseconds), the
  five-dimensional \<open>SyntheticCost\<close>, the running cost of a program, the fixed-point arithmetic
  \<open>FixedPoint\<close> (an \<open>i128\<close> \<open>x\<close> standing for \<open>x / 2 ^ 64\<close>), and the fee prices with their
  per-block adjustment. Sums saturate; an \<open>as i128\<close> cast of a wider value wraps, and the two
  sign multiplications of \<open>FixedPoint::div\<close> wrap as they do in a release build.
  The \<open>f64\<close> conversions and the \<open>f64\<close> scalings are not modelled.
\<close>

section \<open>Costed time\<close>

type_synonym cost_duration = nat

definition cd_add :: "cost_duration \<Rightarrow> cost_duration \<Rightarrow> cost_duration" where
  "cd_add a b = sat_add64 a b"

definition cd_sub :: "cost_duration \<Rightarrow> cost_duration \<Rightarrow> cost_duration" where
  "cd_sub a b = sat_sub a b"

definition cd_mul :: "cost_duration \<Rightarrow> nat \<Rightarrow> cost_duration" where
  "cd_mul a n = sat_mul64 a n"

definition cd_div_u64 :: "cost_duration \<Rightarrow> nat \<Rightarrow> cost_duration option" where
  "cd_div_u64 a n = (if n = 0 then None else Some (div_ceil a n))"

fun cd_sum :: "cost_duration list \<Rightarrow> cost_duration" where
  "cd_sum [] = 0"
| "cd_sum (x # xs) = foldl sat_add64 x xs"

section \<open>Fixed-point arithmetic\<close>

type_synonym fixed_point = int

definition fp_from_u64_div :: "nat \<Rightarrow> nat \<Rightarrow> fixed_point" where
  "fp_from_u64_div a b =
     (if b = 0 then i128_max else wrap_i128 (int (div_ceil (a * 2 ^ 64) b)))"

definition fp_zero :: fixed_point where "fp_zero = 0"

definition fp_one :: fixed_point where "fp_one = fp_from_u64_div 1 1"

definition fp_from_u128_div :: "nat \<Rightarrow> nat \<Rightarrow> fixed_point" where
  "fp_from_u128_div a b =
     (if b = 0 then i128_max
      else let c = (a * 2 ^ 64) div b + (if (a * 2 ^ 64) mod b = 0 then 0 else 1)
           in if c > u128_max then i128_max else wrap_i128 (int c))"

definition fp_add :: "fixed_point \<Rightarrow> fixed_point \<Rightarrow> fixed_point" where
  "fp_add a b = clamp_i128 (a + b)"

definition fp_sub :: "fixed_point \<Rightarrow> fixed_point \<Rightarrow> fixed_point" where
  "fp_sub a b = clamp_i128 (a - b)"

definition fp_neg :: "fixed_point \<Rightarrow> fixed_point" where
  "fp_neg a = clamp_i128 (- a)"

definition fp_mul :: "fixed_point \<Rightarrow> fixed_point \<Rightarrow> fixed_point" where
  "fp_mul a b = wrap_i128 (min i128_max ((a * b) div 2 ^ 64))"

definition fp_div :: "fixed_point \<Rightarrow> fixed_point \<Rightarrow> fixed_point" where
  "fp_div a b =
     (if b = 0 then i128_max
      else wrap_i128 (wrap_i128 (fp_from_u128_div (nat \<bar>a\<bar>) (nat \<bar>b\<bar>) * sgn a) * sgn b))"

definition fp_into_atomic_units :: "fixed_point \<Rightarrow> nat \<Rightarrow> nat" where
  "fp_into_atomic_units x base_unit =
     (let raw = x * int base_unit;
          res0 = raw sdiv 2 ^ 64;
          rem = raw smod 2 ^ 64;
          res = (if rem \<le> 0 then 0 else 1) + res0
      in if res < 0 then 0 else if res > int u128_max then u128_max else nat res)"

text \<open>The square-and-multiply loop of \<open>powi\<close> for a positive exponent.\<close>

fun fp_powi_loop :: "fixed_point \<Rightarrow> fixed_point \<Rightarrow> nat \<Rightarrow> fixed_point" where
  "fp_powi_loop acc cur e =
     (if 1 \<le> e
      then fp_powi_loop (if odd e then fp_mul acc cur else acc) (fp_mul cur cur) (e div 2)
      else acc)"

declare fp_powi_loop.simps [simp del]

text \<open>\<open>powi\<close> of \<open>i32::MIN\<close> never returns: the negation overflows.\<close>

definition fp_powi :: "fixed_point \<Rightarrow> int \<Rightarrow> fixed_point option" where
  "fp_powi x e =
     (if e = - (2 ^ 31) then None
      else if e < 0 then Some (fp_div fp_one (fp_powi_loop fp_one x (nat (- e))))
      else if e = 0 then Some fp_one
      else Some (fp_powi_loop fp_one x (nat e)))"

section \<open>Synthetic, normalized and running cost\<close>

record synthetic_cost =
  sc_read_time :: cost_duration
  sc_compute_time :: cost_duration
  sc_block_usage :: nat
  sc_bytes_written :: nat
  sc_bytes_churned :: nat

definition sc_zero :: synthetic_cost where
  "sc_zero = \<lparr>sc_read_time = 0, sc_compute_time = 0, sc_block_usage = 0,
     sc_bytes_written = 0, sc_bytes_churned = 0\<rparr>"

definition sc_add :: "synthetic_cost \<Rightarrow> synthetic_cost \<Rightarrow> synthetic_cost" where
  "sc_add a b =
     \<lparr>sc_read_time = cd_add (sc_read_time a) (sc_read_time b),
      sc_compute_time = cd_add (sc_compute_time a) (sc_compute_time b),
      sc_block_usage = sat_add64 (sc_block_usage a) (sc_block_usage b),
      sc_bytes_written = sat_add64 (sc_bytes_written a) (sc_bytes_written b),
      sc_bytes_churned = sat_add64 (sc_bytes_churned a) (sc_bytes_churned b)\<rparr>"

definition sc_max_time :: "synthetic_cost \<Rightarrow> cost_duration" where
  "sc_max_time c = max (sc_read_time c) (sc_compute_time c)"

record normalized_cost =
  nc_read_time :: fixed_point
  nc_compute_time :: fixed_point
  nc_block_usage :: fixed_point
  nc_bytes_written :: fixed_point
  nc_bytes_churned :: fixed_point

definition sc_normalize :: "synthetic_cost \<Rightarrow> synthetic_cost \<Rightarrow> normalized_cost option" where
  "sc_normalize c limits =
     (let res = \<lparr>nc_read_time = fp_from_u64_div (sc_read_time c) (sc_read_time limits),
                 nc_compute_time = fp_from_u64_div (sc_compute_time c) (sc_compute_time limits),
                 nc_block_usage = fp_from_u64_div (sc_block_usage c) (sc_block_usage limits),
                 nc_bytes_written = fp_from_u64_div (sc_bytes_written c) (sc_bytes_written limits),
                 nc_bytes_churned = fp_from_u64_div (sc_bytes_churned c) (sc_bytes_churned limits)\<rparr>;
          vals = [nc_read_time res, nc_compute_time res, nc_block_usage res,
                  nc_bytes_written res, nc_bytes_churned res]
      in if list_ex (\<lambda>v. v > fp_one) vals then None else Some res)"

record running_cost =
  rc_read_time :: cost_duration
  rc_compute_time :: cost_duration
  rc_bytes_written :: nat
  rc_bytes_deleted :: nat

definition rc_zero :: running_cost where
  "rc_zero = \<lparr>rc_read_time = 0, rc_compute_time = 0, rc_bytes_written = 0, rc_bytes_deleted = 0\<rparr>"

definition rc_compute :: "cost_duration \<Rightarrow> running_cost" where
  "rc_compute t = rc_zero\<lparr>rc_compute_time := t\<rparr>"

definition rc_max_time :: "running_cost \<Rightarrow> cost_duration" where
  "rc_max_time c = max (rc_read_time c) (rc_compute_time c)"

definition rc_add :: "running_cost \<Rightarrow> running_cost \<Rightarrow> running_cost" where
  "rc_add a b =
     \<lparr>rc_read_time = cd_add (rc_read_time a) (rc_read_time b),
      rc_compute_time = cd_add (rc_compute_time a) (rc_compute_time b),
      rc_bytes_written = sat_add64 (rc_bytes_written a) (rc_bytes_written b),
      rc_bytes_deleted = sat_add64 (rc_bytes_deleted a) (rc_bytes_deleted b)\<rparr>"

definition rc_mul :: "running_cost \<Rightarrow> nat \<Rightarrow> running_cost" where
  "rc_mul a n =
     \<lparr>rc_read_time = cd_mul (rc_read_time a) n,
      rc_compute_time = cd_mul (rc_compute_time a) n,
      rc_bytes_written = sat_mul64 (rc_bytes_written a) n,
      rc_bytes_deleted = sat_mul64 (rc_bytes_deleted a) n\<rparr>"

definition rc_sum :: "running_cost list \<Rightarrow> running_cost" where
  "rc_sum xs = foldl rc_add rc_zero xs"

definition synthetic_of_running :: "running_cost \<Rightarrow> synthetic_cost" where
  "synthetic_of_running v =
     (let bytes_written = sat_sub (rc_bytes_written v) (rc_bytes_deleted v)
      in \<lparr>sc_read_time = rc_read_time v, sc_compute_time = rc_compute_time v,
          sc_block_usage = 0, sc_bytes_written = bytes_written,
          sc_bytes_churned = rc_bytes_written v - bytes_written\<rparr>)"

definition running_of_synthetic :: "synthetic_cost \<Rightarrow> running_cost" where
  "running_of_synthetic v =
     \<lparr>rc_read_time = sc_read_time v, rc_compute_time = sc_compute_time v,
      rc_bytes_written = sc_bytes_written v, rc_bytes_deleted = 0\<rparr>"

section \<open>Fee prices\<close>

record fee_prices =
  fee_overall_price :: fixed_point
  fee_read_factor :: fixed_point
  fee_compute_factor :: fixed_point
  fee_block_usage_factor :: fixed_point
  fee_write_factor :: fixed_point

definition price_points :: "fixed_point list" where
  "price_points = [
   -84764999863455367168, -84764999863455367168, -71791413020114739200, -64122702906348363776,
   -58624745660900909056, -54315312289337933824, -50756867729459126272, -47715996328766365696,
   -45053350700638961664, -42679031418590216192, -40531639450585882624, -38567365939524018176,
   -36753849332779208704, -35066499762404089856, -33486189434148528128, -31997741738730885120,
   -30588908944945000448, -29249660330515177472, -27971674063185141760, -26747966611833823232,
   -25572617290405310464, -24440560042528645120, -23347423671542177792, -22289407577085239296,
   -21263183918842343424, -20265819725292941312, -19294714246602784768, -18347548093616457728,
   -17422241585731162112, -16516920363702972416, -15629886784764432384, -14759595957603760128,
   -13904635528415858688, -13063708520358164480, -12235618674138603520, -11419257849061355520,
   -10613595130224742400, -9817667354921738240, -9030570824192866304, -8251454007294845952,
   -7479511080090284032, -6713976164925600768, -5954118160879564800, -5199236070424976384,
   -4448654742390539264, -3701720962283612672, -2957799830037197824, -2216271372462491904,
   -1476527343420476672, -737968169202023424, 0, 737968169202024192, 1476527343420477440,
   2216271372462496512, 2957799830037204480, 3701720962283612672, 4448654742390539264,
   5199236070424971264, 5954118160879561728, 6713976164925597696, 7479511080090281984,
   8251454007294848000, 9030570824192860160, 9817667354921742336, 10613595130224742400,
   11419257849061359616, 12235618674138605568, 13063708520358168576, 13904635528415862784,
   14759595957603747840, 15629886784764430336, 16516920363702964224, 17422241585731166208,
   18347548093616463872, 19294714246602788864, 20265819725292945408, 21263183918842335232,
   22289407577085243392, 23347423671542181888, 24440560042528653312, 25572617290405310464,
   26747966611833827328, 27971674063185145856, 29249660330515173376, 30588908944945000448,
   31997741738730881024, 33486189434148524032, 35066499762404098048, 36753849332779192320,
   38567365939524001792, 40531639450585874432, 42679031418590240768, 45053350700638978048,
   47715996328766390272, 50756867729459134464, 54315312289337958400, 58624745660900876288,
   64122702906348298240, 71791413020114722816, 84764999863455252480, 84764999863455252480]"

definition price_point_len :: int where
  "price_point_len = fp_one sdiv (int (length price_points) - 1)"

definition price_adjustment_function :: "fixed_point \<Rightarrow> fixed_point \<Rightarrow> fixed_point" where
  "price_adjustment_function usage a =
     (let bucket = nat (max 0 (min (int (length price_points) - 2) (usage sdiv price_point_len)));
          b = price_points ! bucket;
          c = price_points ! (bucket + 1);
          frac = fp_from_u128_div (nat (max 0 (usage - int bucket * price_point_len)))
                   (nat price_point_len)
      in fp_div (fp_add (fp_mul b (fp_sub fp_one frac)) (fp_mul c frac)) a)"

definition fee_min_cost :: fixed_point where "fee_min_cost = 100"

definition update_from_fullness ::
  "fee_prices \<Rightarrow> normalized_cost \<Rightarrow> fixed_point \<Rightarrow> fixed_point \<Rightarrow> fixed_point \<Rightarrow> fee_prices" where
  "update_from_fullness p detailed overall min_ratio a =
     (let multiplier = (\<lambda>frac. fp_add (price_adjustment_function frac a) fp_one);
          overall0 = fp_mul (fee_overall_price p) (multiplier overall);
          read0 = fp_mul (fee_read_factor p) (multiplier (nc_read_time detailed));
          compute0 = fp_mul (fee_compute_factor p) (multiplier (nc_compute_time detailed));
          block0 = fp_mul (fee_block_usage_factor p) (multiplier (nc_block_usage detailed));
          write0 = fp_mul (fee_write_factor p)
                     (multiplier (max (nc_bytes_written detailed) (nc_bytes_churned detailed)));
          most_expensive = max (max (max read0 compute0) block0) write0;
          lift_dim = (\<lambda>d. max d (fp_mul most_expensive min_ratio));
          read1 = lift_dim read0; compute1 = lift_dim compute0;
          block1 = lift_dim block0; write1 = lift_dim write0;
          factor_mean = fp_div (foldl fp_add fp_zero [read1, compute1, block1, write1])
                          (fp_from_u64_div 4 1)
      in \<lparr>fee_overall_price = max overall0 fee_min_cost,
          fee_read_factor = fp_div read1 factor_mean,
          fee_compute_factor = fp_div compute1 factor_mean,
          fee_block_usage_factor = fp_div block1 factor_mean,
          fee_write_factor = fp_div write1 factor_mean\<rparr>)"

definition overall_cost :: "fee_prices \<Rightarrow> normalized_cost \<Rightarrow> fixed_point" where
  "overall_cost p tx =
     (let read_cost = fp_mul (fee_read_factor p) (nc_read_time tx);
          compute_cost = fp_mul (fee_compute_factor p) (nc_compute_time tx);
          block_usage_cost = fp_mul (fee_block_usage_factor p) (nc_block_usage tx);
          write_cost = fp_mul (fee_write_factor p) (nc_bytes_written tx);
          churn_cost = fp_mul (fee_write_factor p) (nc_bytes_churned tx);
          utilization_cost = max read_cost (max compute_cost block_usage_cost)
      in fp_mul (fee_overall_price p) (fp_add (fp_add utilization_cost write_cost) churn_cost))"

section \<open>Saturating costs form an ordered monoid\<close>

text \<open>
  What the users of a cost rely on (block accounting, the gas meter of the virtual machine):
  adding is associative and commutative, zero is neutral, and adding never lowers a cost.
  The interface is interpreted for costed time, synthetic cost and running cost.
\<close>

locale cost_monoid =
  fixes plus :: "'c \<Rightarrow> 'c \<Rightarrow> 'c"
    and zero :: 'c
    and leq :: "'c \<Rightarrow> 'c \<Rightarrow> bool"
    and valid :: "'c \<Rightarrow> bool"
  assumes plus_assoc: "plus (plus a b) c = plus a (plus b c)"
    and plus_comm: "plus a b = plus b a"
    and plus_zero: "valid a \<Longrightarrow> plus zero a = a"
    and leq_refl: "leq a a"
    and leq_trans: "leq a b \<Longrightarrow> leq b c \<Longrightarrow> leq a c"
    and leq_plus: "valid a \<Longrightarrow> leq a (plus a b)"
    and plus_mono: "leq a a' \<Longrightarrow> leq b b' \<Longrightarrow> leq (plus a b) (plus a' b')"
    and valid_zero: "valid zero"
    and valid_plus: "valid (plus a b)"
begin

lemma valid_total: "valid a \<Longrightarrow> valid (foldl plus a xs)"
  by (induction xs arbitrary: a) (auto simp: valid_plus)

lemma total_shift: "foldl plus (plus a b) xs = plus a (foldl plus b xs)"
  by (induction xs arbitrary: b) (simp_all add: plus_assoc)

lemma total_append: "foldl plus zero (xs @ ys) = plus (foldl plus zero xs) (foldl plus zero ys)"
proof -
  have "foldl plus zero (xs @ ys) = foldl plus (plus (foldl plus zero xs) zero) ys"
    using valid_total [OF valid_zero] by (simp add: plus_comm plus_zero)
  then show ?thesis by (simp add: total_shift)
qed

lemma total_increasing: "valid a \<Longrightarrow> leq a (foldl plus a xs)"
proof (induction xs arbitrary: a)
  case (Cons x xs)
  have "leq a (plus a x)" using Cons.prems by (rule leq_plus)
  moreover have "leq (plus a x) (foldl plus (plus a x) xs)"
    using Cons.IH valid_plus by blast
  ultimately show ?case using leq_trans by auto
qed (simp add: leq_refl)

lemma item_leq_total: "valid x \<Longrightarrow> x \<in> set xs \<Longrightarrow> leq x (foldl plus zero xs)"
proof -
  assume x: "valid x" and "x \<in> set xs"
  then obtain ys zs where xs: "xs = ys @ x # zs" by (meson split_list)
  have "foldl plus zero xs = foldl plus (plus x (foldl plus zero ys)) zs"
    by (simp add: xs plus_comm)
  moreover have "leq x (plus x (foldl plus zero ys))" using x by (rule leq_plus)
  ultimately show ?thesis using total_increasing [OF valid_plus] leq_trans by metis
qed

end

lemmas sat_monoid_rules = sat_add_assoc sat_add_comm sat_add_0 sat_add_increasing sat_add_mono

definition cd_valid :: "cost_duration \<Rightarrow> bool" where
  "cd_valid c \<longleftrightarrow> c \<le> u64_max"

interpretation cd: cost_monoid cd_add 0 "(\<le>)" cd_valid
  by unfold_locales
    (auto simp: cd_add_def cd_valid_def sat_add_assoc sat_add_increasing sat_add_mono sat_add_def)

definition sc_leq :: "synthetic_cost \<Rightarrow> synthetic_cost \<Rightarrow> bool" where
  "sc_leq a b \<longleftrightarrow> sc_read_time a \<le> sc_read_time b \<and> sc_compute_time a \<le> sc_compute_time b \<and>
     sc_block_usage a \<le> sc_block_usage b \<and> sc_bytes_written a \<le> sc_bytes_written b \<and>
     sc_bytes_churned a \<le> sc_bytes_churned b"

definition sc_valid :: "synthetic_cost \<Rightarrow> bool" where
  "sc_valid c \<longleftrightarrow> sc_read_time c \<le> u64_max \<and> sc_compute_time c \<le> u64_max \<and>
     sc_block_usage c \<le> u64_max \<and> sc_bytes_written c \<le> u64_max \<and> sc_bytes_churned c \<le> u64_max"

interpretation sc: cost_monoid sc_add sc_zero sc_leq sc_valid
proof (unfold_locales, goal_cases)
  case 1 show ?case by (simp add: sc_add_def cd_add_def sat_add_assoc)
next
  case 2 show ?case by (simp add: sc_add_def cd_add_def sat_add_comm)
next
  case 3 then show ?case by (simp add: sc_add_def sc_zero_def sc_valid_def cd_add_def sat_add_0)
next
  case 4 show ?case by (simp add: sc_leq_def)
next
  case 5 then show ?case by (auto simp: sc_leq_def)
next
  case 6 then show ?case
    by (simp add: sc_leq_def sc_add_def sc_valid_def cd_add_def sat_add_increasing)
next
  case 7 then show ?case by (simp add: sc_leq_def sc_add_def cd_add_def sat_add_mono)
next
  case 8 show ?case by (simp add: sc_valid_def sc_zero_def)
next
  case 9 show ?case by (simp add: sc_valid_def sc_add_def cd_add_def sat_add_le)
qed

definition rc_leq :: "running_cost \<Rightarrow> running_cost \<Rightarrow> bool" where
  "rc_leq a b \<longleftrightarrow> rc_read_time a \<le> rc_read_time b \<and> rc_compute_time a \<le> rc_compute_time b \<and>
     rc_bytes_written a \<le> rc_bytes_written b \<and> rc_bytes_deleted a \<le> rc_bytes_deleted b"

definition rc_valid :: "running_cost \<Rightarrow> bool" where
  "rc_valid c \<longleftrightarrow> rc_read_time c \<le> u64_max \<and> rc_compute_time c \<le> u64_max \<and>
     rc_bytes_written c \<le> u64_max \<and> rc_bytes_deleted c \<le> u64_max"

interpretation rc: cost_monoid rc_add rc_zero rc_leq rc_valid
proof (unfold_locales, goal_cases)
  case 1 show ?case by (simp add: rc_add_def cd_add_def sat_add_assoc)
next
  case 2 show ?case by (simp add: rc_add_def cd_add_def sat_add_comm)
next
  case 3 then show ?case by (simp add: rc_add_def rc_zero_def rc_valid_def cd_add_def sat_add_0)
next
  case 4 show ?case by (simp add: rc_leq_def)
next
  case 5 then show ?case by (auto simp: rc_leq_def)
next
  case 6 then show ?case
    by (simp add: rc_leq_def rc_add_def rc_valid_def cd_add_def sat_add_increasing)
next
  case 7 then show ?case by (simp add: rc_leq_def rc_add_def cd_add_def sat_add_mono)
next
  case 8 show ?case by (simp add: rc_valid_def rc_zero_def)
next
  case 9 show ?case by (simp add: rc_valid_def rc_add_def cd_add_def sat_add_le)
qed

section \<open>Fixed-point division and normalization\<close>

lemma fp_one_eq [simp]: "fp_one = 2 ^ 64"
  by (simp add: fp_one_def fp_from_u64_div_def div_ceil_def wrap_i128_def)

lemma div_ceil_bound:
  assumes "a \<le> u64_max" and "2 \<le> b"
  shows "div_ceil (a * 2 ^ 64) b < 2 ^ 127"
proof -
  have "a * 2 ^ 64 \<le> (2 ^ 64 - 1) * 2 ^ 64" using assms(1) by (simp add: u64_max_def)
  also have "\<dots> \<le> (2 ^ 127 - 1) * 2" by simp
  also have "\<dots> \<le> (2 ^ 127 - 1) * b" using assms(2) by simp
  finally have "div_ceil (a * 2 ^ 64) b \<le> 2 ^ 127 - 1"
    using assms(2) by (simp add: div_ceil_le_iff)
  then show ?thesis by simp
qed

lemma fp_from_u64_div_ceil:
  assumes "a \<le> u64_max" and "2 \<le> b"
  shows "fp_from_u64_div a b = int (div_ceil (a * 2 ^ 64) b)"
proof -
  have "int (div_ceil (a * 2 ^ 64) b) < 2 ^ 127"
    using div_ceil_bound [OF assms] by (simp only: of_nat_less_numeral_power_cancel_iff)
  then have "is_i128 (int (div_ceil (a * 2 ^ 64) b))"
    by (simp add: is_i128_def i128_min_def i128_max_def)
  then show ?thesis using assms(2) by (simp add: fp_from_u64_div_def wrap_i128_id)
qed

lemma fp_from_u64_div_le_one:
  assumes "a \<le> u64_max" and "2 \<le> b"
  shows "fp_from_u64_div a b \<le> fp_one \<longleftrightarrow> a \<le> b"
proof -
  have "fp_from_u64_div a b \<le> fp_one \<longleftrightarrow> div_ceil (a * 2 ^ 64) b \<le> 2 ^ 64"
    using fp_from_u64_div_ceil [OF assms] by simp
  also have "\<dots> \<longleftrightarrow> a * 2 ^ 64 \<le> 2 ^ 64 * b"
    using assms(2) by (simp add: div_ceil_le_iff)
  also have "\<dots> \<longleftrightarrow> a \<le> b" by simp
  finally show ?thesis .
qed

definition sc_limits_ok :: "synthetic_cost \<Rightarrow> bool" where
  "sc_limits_ok l \<longleftrightarrow> 2 \<le> sc_read_time l \<and> 2 \<le> sc_compute_time l \<and> 2 \<le> sc_block_usage l \<and>
     2 \<le> sc_bytes_written l \<and> 2 \<le> sc_bytes_churned l"

text \<open>
  Property C19. A transaction's (or block's) synthetic cost normalizes against limits of at least
  two units in each dimension exactly when it is within the limits in every dimension.
\<close>

theorem normalize_iff_within_limits:
  assumes "sc_valid c" and "sc_limits_ok limits"
  shows "sc_normalize c limits \<noteq> None \<longleftrightarrow> sc_leq c limits"
proof -
  have "sc_normalize c limits \<noteq> None \<longleftrightarrow>
      fp_from_u64_div (sc_read_time c) (sc_read_time limits) \<le> fp_one \<and>
      fp_from_u64_div (sc_compute_time c) (sc_compute_time limits) \<le> fp_one \<and>
      fp_from_u64_div (sc_block_usage c) (sc_block_usage limits) \<le> fp_one \<and>
      fp_from_u64_div (sc_bytes_written c) (sc_bytes_written limits) \<le> fp_one \<and>
      fp_from_u64_div (sc_bytes_churned c) (sc_bytes_churned limits) \<le> fp_one"
    by (auto simp: sc_normalize_def Let_def simp del: fp_one_eq)
  then show ?thesis
    using assms by (simp add: fp_from_u64_div_le_one sc_valid_def sc_limits_ok_def sc_leq_def
        del: fp_one_eq)
qed

definition example_limits :: synthetic_cost where
  "example_limits = \<lparr>sc_read_time = 10, sc_compute_time = 10, sc_block_usage = 200,
     sc_bytes_written = 50, sc_bytes_churned = 50\<rparr>"

theorem normalize_iff_within_limits_witness:
  "sc_valid (example_limits\<lparr>sc_block_usage := 7\<rparr>) \<and> sc_limits_ok example_limits \<and>
   sc_normalize (example_limits\<lparr>sc_block_usage := 7\<rparr>) example_limits \<noteq> None"
proof -
  have v: "sc_valid (example_limits\<lparr>sc_block_usage := 7\<rparr>)"
    by (simp add: sc_valid_def example_limits_def u64_max_def)
  have l: "sc_limits_ok example_limits" by (simp add: sc_limits_ok_def example_limits_def)
  have "sc_leq (example_limits\<lparr>sc_block_usage := 7\<rparr>) example_limits"
    by (simp add: sc_leq_def example_limits_def)
  then show ?thesis using v l normalize_iff_within_limits [OF v l] by simp
qed

text \<open>
  The bound on the limits is needed: with a limit of one unit, a cost of
  \<open>2 ^ 63\<close> units wraps to the most negative fixed-point number, and \<open>normalize\<close> accepts a cost
  that exceeds the limit.
\<close>

theorem normalize_accepts_over_limit:
  "sc_valid (sc_zero\<lparr>sc_bytes_written := 2 ^ 63\<rparr>) \<and>
   \<not> sc_leq (sc_zero\<lparr>sc_bytes_written := 2 ^ 63\<rparr>) (example_limits\<lparr>sc_bytes_written := 1\<rparr>) \<and>
   fp_from_u64_div (2 ^ 63) 1 = i128_min \<and>
   sc_normalize (sc_zero\<lparr>sc_bytes_written := 2 ^ 63\<rparr>) (example_limits\<lparr>sc_bytes_written := 1\<rparr>)
     \<noteq> None"
proof -
  have z: "fp_from_u64_div 0 n = (if n = 0 then i128_max else 0)" for n
    by (simp add: fp_from_u64_div_def div_ceil_def wrap_i128_def)
  have w: "fp_from_u64_div (2 ^ 63) 1 = i128_min"
    by (simp add: fp_from_u64_div_def div_ceil_def wrap_i128_def i128_min_def)
  show ?thesis
    using w by (auto simp: sc_valid_def sc_leq_def sc_zero_def example_limits_def sc_normalize_def
        Let_def z i128_min_def u64_max_def)
qed

section \<open>Fees\<close>

lemma fp_mul_nonneg_eq:
  assumes "0 \<le> a" and "0 \<le> b"
  shows "fp_mul a b = min i128_max ((a * b) div 2 ^ 64)"
proof -
  have "0 \<le> (a * b) div 2 ^ 64" using assms by (simp add: pos_imp_zdiv_nonneg_iff)
  then have "is_i128 (min i128_max ((a * b) div 2 ^ 64))"
    by (auto simp: is_i128_def i128_max_def i128_min_def)
  then show ?thesis by (simp add: fp_mul_def wrap_i128_id)
qed

lemma fp_mul_nonneg: "0 \<le> a \<Longrightarrow> 0 \<le> b \<Longrightarrow> 0 \<le> fp_mul a b"
  by (simp add: fp_mul_nonneg_eq i128_max_def pos_imp_zdiv_nonneg_iff)

lemma fp_mul_mono:
  assumes "0 \<le> a" "a \<le> a'" "0 \<le> b" "b \<le> b'"
  shows "fp_mul a b \<le> fp_mul a' b'"
proof -
  have "a * b \<le> a' * b'" using assms by (simp add: mult_mono)
  then have "(a * b) div 2 ^ 64 \<le> (a' * b') div 2 ^ 64" by (rule zdiv_mono1) simp
  then show ?thesis using assms by (simp add: fp_mul_nonneg_eq min.coboundedI2)
qed

lemma fp_add_mono: "a \<le> a' \<Longrightarrow> b \<le> b' \<Longrightarrow> fp_add a b \<le> fp_add a' b'"
  unfolding fp_add_def clamp_i128_def by linarith

lemma fp_add_nonneg: "0 \<le> a \<Longrightarrow> 0 \<le> b \<Longrightarrow> 0 \<le> fp_add a b"
  by (simp add: fp_add_def clamp_i128_def i128_max_def)

definition nc_nonneg :: "normalized_cost \<Rightarrow> bool" where
  "nc_nonneg c \<longleftrightarrow> 0 \<le> nc_read_time c \<and> 0 \<le> nc_compute_time c \<and> 0 \<le> nc_block_usage c \<and>
     0 \<le> nc_bytes_written c \<and> 0 \<le> nc_bytes_churned c"

definition nc_leq :: "normalized_cost \<Rightarrow> normalized_cost \<Rightarrow> bool" where
  "nc_leq a b \<longleftrightarrow> nc_read_time a \<le> nc_read_time b \<and> nc_compute_time a \<le> nc_compute_time b \<and>
     nc_block_usage a \<le> nc_block_usage b \<and> nc_bytes_written a \<le> nc_bytes_written b \<and>
     nc_bytes_churned a \<le> nc_bytes_churned b"

definition prices_nonneg :: "fee_prices \<Rightarrow> bool" where
  "prices_nonneg p \<longleftrightarrow> 0 \<le> fee_overall_price p \<and> 0 \<le> fee_read_factor p \<and>
     0 \<le> fee_compute_factor p \<and> 0 \<le> fee_block_usage_factor p \<and> 0 \<le> fee_write_factor p"

text \<open>
  Property C20. Fees are monotone in the resources a transaction uses: with non-negative prices,
  a transaction that uses at least as much in every dimension never pays less.
\<close>

theorem overall_cost_mono:
  assumes "prices_nonneg p" and "nc_nonneg tx" and "nc_leq tx tx'"
  shows "overall_cost p tx \<le> overall_cost p tx' \<and> 0 \<le> overall_cost p tx"
proof -
  define util where "util c = max (fp_mul (fee_read_factor p) (nc_read_time c))
      (max (fp_mul (fee_compute_factor p) (nc_compute_time c))
           (fp_mul (fee_block_usage_factor p) (nc_block_usage c)))" for c :: normalized_cost
  define total where "total c = fp_add (fp_add (util c)
      (fp_mul (fee_write_factor p) (nc_bytes_written c)))
      (fp_mul (fee_write_factor p) (nc_bytes_churned c))" for c :: normalized_cost
  have oc: "overall_cost p c = fp_mul (fee_overall_price p) (total c)" for c
    by (simp add: overall_cost_def Let_def total_def util_def)
  note mono = fp_mul_mono [OF _ order_refl]
  have "util tx \<le> util tx'"
    using assms unfolding util_def prices_nonneg_def nc_nonneg_def nc_leq_def
    by (intro max.mono mono) auto
  then have "total tx \<le> total tx'"
    using assms unfolding total_def prices_nonneg_def nc_nonneg_def nc_leq_def
    by (intro fp_add_mono mono) auto
  moreover have "0 \<le> total tx"
    using assms unfolding total_def util_def prices_nonneg_def nc_nonneg_def
    by (intro fp_add_nonneg) (auto simp: fp_mul_nonneg le_max_iff_disj)
  ultimately show ?thesis
    using assms unfolding oc prices_nonneg_def by (auto intro: mono fp_mul_nonneg)
qed

definition example_prices :: fee_prices where
  "example_prices = \<lparr>fee_overall_price = 2 ^ 64, fee_read_factor = 2 ^ 64,
     fee_compute_factor = 2 ^ 64, fee_block_usage_factor = 2 ^ 64, fee_write_factor = 2 ^ 64\<rparr>"

definition example_usage :: normalized_cost where
  "example_usage = \<lparr>nc_read_time = 2 ^ 62, nc_compute_time = 2 ^ 62, nc_block_usage = 2 ^ 62,
     nc_bytes_written = 2 ^ 62, nc_bytes_churned = 0\<rparr>"

theorem overall_cost_mono_witness:
  "overall_cost example_prices example_usage
     \<le> overall_cost example_prices (example_usage\<lparr>nc_bytes_churned := 5\<rparr>)"
proof -
  have "prices_nonneg example_prices" by (simp add: prices_nonneg_def example_prices_def)
  moreover have "nc_nonneg example_usage" by (simp add: nc_nonneg_def example_usage_def)
  moreover have "nc_leq example_usage (example_usage\<lparr>nc_bytes_churned := 5\<rparr>)"
    by (simp add: nc_leq_def example_usage_def)
  ultimately show ?thesis using overall_cost_mono by blast
qed

text \<open>
  Property C21. Converting a fixed-point amount to atomic units rounds up, saturates at
  \<open>u128::MAX\<close>, and gives zero for a negative amount.
\<close>

theorem into_atomic_units_rounds_up:
  "fp_into_atomic_units x base_unit =
     (if x < 0 then 0 else min u128_max (div_ceil (nat x * base_unit) (2 ^ 64)))"
proof (cases "x < 0")
  case True
  then have neg: "x * int base_unit \<le> 0" by (simp add: mult_nonpos_nonneg)
  then have "x * int base_unit sdiv 2 ^ 64 \<le> 0 \<and> x * int base_unit smod 2 ^ 64 \<le> 0"
    by (cases "x * int base_unit = 0")
       (auto simp: signed_divide_int_def signed_modulo_int_def sgn_if)
  then show ?thesis using True by (auto simp: fp_into_atomic_units_def Let_def)
next
  case False
  define r where "r = nat x * base_unit"
  have raw: "x * int base_unit = int r" using False by (simp add: r_def)
  have d: "int r sdiv 18446744073709551616 = int (r div 18446744073709551616)"
    using sdiv_of_nat [of r 18446744073709551616] by simp
  have m: "int r smod 18446744073709551616 = int (r mod 18446744073709551616)"
    using smod_of_nat [of r 18446744073709551616] by simp
  have res: "(if int r smod 2 ^ 64 \<le> 0 then 0 else 1) + int r sdiv 2 ^ 64 = int (div_ceil r (2 ^ 64))"
    by (simp add: d m div_ceil_def)
  show ?thesis
    using False by (simp only: fp_into_atomic_units_def Let_def raw res flip: r_def)
      (simp add: min_def)
qed

lemma fp_div_range: "is_i128 (fp_div a b)"
  by (simp add: fp_div_def) (simp add: is_i128_def i128_max_def i128_min_def)

lemma price_adjustment_range: "is_i128 (price_adjustment_function u a)"
  unfolding price_adjustment_function_def Let_def by (rule fp_div_range)

lemma overall_price_update:
  "fee_overall_price (update_from_fullness p d overall mr a) =
     max (fp_mul (fee_overall_price p) (fp_add (price_adjustment_function overall a) fp_one))
         fee_min_cost"
  by (simp only: update_from_fullness_def Let_def fee_prices.select_convs)

text \<open>
  The overall price never falls below the floor of 100, and from any price at or
  above the floor an upward adjustment of at least one percent strictly raises it (unless the
  price is already the maximum). At the floor itself, the price rises exactly when the
  adjustment is at least one percent: below that, rounding keeps it there. The specification (\<open>cost-model.md\<close>)
  bounds the dimensions by this floor and not the overall price.
\<close>

lemma multiplier_ge_one_percent:
  assumes "fp_one \<le> 100 * adj" and "is_i128 adj"
  shows "101 * 2 ^ 64 \<le> 100 * fp_add adj fp_one"
  using assms unfolding fp_add_def clamp_i128_def is_i128_def i128_max_def i128_min_def
  by (simp add: min_def max_def)

lemma price_rises:
  assumes "100 \<le> q" and "q < i128_max" and "101 * 2 ^ 64 \<le> 100 * m"
  shows "q < fp_mul q m"
proof -
  have "100 * ((q + 1) * 2 ^ 64) \<le> 101 * (q * 2 ^ 64)" using assms by simp
  also have "\<dots> = q * (101 * 2 ^ 64)" by simp
  also have "\<dots> \<le> q * (100 * m)" using assms by (intro mult_left_mono) auto
  finally have "(q + 1) * 2 ^ 64 \<le> q * m" by simp
  then have "q + 1 \<le> (q * m) div 2 ^ 64"
    using zdiv_mono1 [of "(q + 1) * 2 ^ 64" "q * m" "2 ^ 64"] by simp
  then show ?thesis using assms by (simp add: fp_mul_nonneg_eq)
qed

lemma price_floor_stuck:
  assumes "0 \<le> adj" and "100 * adj < fp_one"
  shows "fp_mul 100 (fp_add adj fp_one) \<le> 100"
proof -
  have m: "fp_add adj fp_one = adj + 2 ^ 64"
    using assms by (simp add: fp_add_def clamp_i128_def i128_max_def i128_min_def)
  have "100 * (adj + 2 ^ 64) < 101 * 2 ^ 64" using assms by simp
  then have "(100 * (adj + 2 ^ 64)) div 2 ^ 64 < 101" by (simp add: div_less_iff_less_mult)
  then show ?thesis using assms unfolding m by (simp add: fp_mul_nonneg_eq)
qed

theorem overall_price_floor:
  "fee_min_cost \<le> fee_overall_price (update_from_fullness p d overall mr a) \<and>
   (fee_min_cost \<le> fee_overall_price p \<and> fee_overall_price p < i128_max \<and>
      fp_one \<le> 100 * price_adjustment_function overall a \<longrightarrow>
    fee_overall_price p < fee_overall_price (update_from_fullness p d overall mr a)) \<and>
   (fee_overall_price p = fee_min_cost \<and> 0 \<le> price_adjustment_function overall a \<longrightarrow>
     (fee_min_cost < fee_overall_price (update_from_fullness p d overall mr a) \<longleftrightarrow>
      fp_one \<le> 100 * price_adjustment_function overall a))"
proof -
  define adj where "adj = price_adjustment_function overall a"
  have rise: "fp_one \<le> 100 * adj \<Longrightarrow> 100 \<le> q \<Longrightarrow> q < i128_max \<Longrightarrow>
      q < fp_mul q (fp_add adj fp_one)" for q
    using price_rises multiplier_ge_one_percent price_adjustment_range adj_def by blast
  have stuck: "0 \<le> adj \<Longrightarrow> \<not> fp_one \<le> 100 * adj \<Longrightarrow> fp_mul 100 (fp_add adj fp_one) \<le> 100"
    using price_floor_stuck by (simp del: fp_one_eq)
  have lt: "100 < i128_max" by (simp add: i128_max_def)
  have new: "fee_overall_price (update_from_fullness p d overall mr a) =
      max (fp_mul (fee_overall_price p) (fp_add adj fp_one)) 100"
    by (simp only: overall_price_update adj_def fee_min_cost_def)
  have part2: "fee_overall_price p < max (fp_mul (fee_overall_price p) (fp_add adj fp_one)) 100"
    if "100 \<le> fee_overall_price p" "fee_overall_price p < i128_max" "fp_one \<le> 100 * adj"
    using rise [OF that(3,1,2)] by linarith
  have part3: "(100 < max (fp_mul 100 (fp_add adj fp_one)) 100) = (fp_one \<le> 100 * adj)"
    if "0 \<le> adj"
    using stuck [OF that] rise [OF _ order_refl lt] by linarith
  show ?thesis
    unfolding new fee_min_cost_def adj_def [symmetric] using part2 part3 by simp
qed

text \<open>
  At the shipped parameter \<open>a = 100\<close> (\<open>price_adjustment_a_parameter\<close>), a block 73\% full does
  not lift the price off the floor: the adjustment is 0.99 percent.
\<close>

lemma adjustment_at_73_percent:
  "fp_from_u64_div 73 100 = 13466123173807972680 \<and> fp_from_u64_div 100 1 = 1844674407370955161600 \<and>
   price_adjustment_function 13466123173807972680 1844674407370955161600 = 183475480936164640"
proof -
  have l: "price_point_len = 184467440737095516" and ll: "length price_points = 101"
    by (simp_all add: price_point_len_def price_points_def signed_divide_int_def)
  have p: "price_points ! 73 = 18347548093616463872" "price_points ! 74 = 19294714246602788864"
    by (simp_all add: price_points_def)
  have b: "13466123173807972680 sdiv 184467440737095516 = (73::int)"
    by (simp add: signed_divide_int_def)
  have f: "fp_from_u128_div 12 184467440737095516 = 1201"
    by (simp add: fp_from_u128_div_def u128_max_def wrap_i128_def)
  have "price_adjustment_function 13466123173807972680 1844674407370955161600 = 183475480936164640"
    unfolding price_adjustment_function_def Let_def l ll b
    by (simp add: p f fp_mul_def fp_sub_def fp_add_def fp_div_def clamp_i128_def wrap_i128_def
        fp_from_u128_div_def i128_max_def i128_min_def u128_max_def)
  then show ?thesis by (simp add: fp_from_u64_div_def div_ceil_def wrap_i128_def)
qed

theorem overall_price_floor_witness:
  "fee_overall_price (update_from_fullness (example_prices\<lparr>fee_overall_price := 100\<rparr>) example_usage
     13466123173807972680 4611686018427387904 1844674407370955161600) = 100"
  using overall_price_floor [of "example_prices\<lparr>fee_overall_price := 100\<rparr>" example_usage
      13466123173807972680 4611686018427387904 1844674407370955161600]
    adjustment_at_73_percent
  by (simp add: fee_min_cost_def)

end
