(* ===== verification/Merkle_Tree.thy ===== *)
theory Merkle_Tree
  imports Prelude
begin

text \<open>
  \<open>transient-crypto/src/merkle_tree.rs\<close>: sparse Merkle trees of fixed height. A tree is a leaf, a
  stub (an empty subtree), a collapsed subtree (only its digest is kept), or a branching node
  whose digest is either cached or missing until the tree is rehashed.

  The hash functions and the scalar field are not part of the repository (Poseidon, SHA-256, BLS12-381):
  \<open>mcrypto\<close> carries \<open>transient_hash(&[l, r])\<close>, the bytes of a \<open>HashOutput\<close>, \<open>Fr::from_le_bytes\<close> and
  \<open>Fr::default()\<close> as parameters.
  Heights are \<open>u8\<close> in the code and \<open>nat\<close> here, and the shifts \<open>1 << height\<close> of \<open>u64\<close> values are powers of
  two. The model is that of the code for trees of height 63 and less (the ledger uses 32, contracts at most 32).
  \<open>u8\<close> underflows (\<open>height - 1\<close> of a stub of height 0) and \<open>unreachable!\<close> are \<open>Panic\<close>.
\<close>

section \<open>Data\<close>

record ('h, 'f) mcrypto =
  transient_hash :: "'f \<Rightarrow> 'f \<Rightarrow> 'f"
  hash_bytes :: "'h \<Rightarrow> nat list"
  fr_from_le_bytes :: "nat list \<Rightarrow> 'f"
  fr_default :: 'f

definition fr_bytes_stored :: nat where "fr_bytes_stored = 31"

text \<open>\<open>persistent.field_vec()[1]\<close>: the 32 bytes of a hash are represented by two field elements, the stray last byte first, then
  the 31 bytes before it. The last byte is lost.\<close>

definition degrade_to_transient :: "('h, 'f) mcrypto \<Rightarrow> 'h \<Rightarrow> 'f" where
  "degrade_to_transient C h = fr_from_le_bytes C (take fr_bytes_stored (hash_bytes C h))"

datatype ('h, 'f, 'a) mtree =
    Leaf 'h 'a
  | Collapsed 'f nat
  | Stub nat
  | Node "'f option" "('h, 'f, 'a) mtree" "('h, 'f, 'a) mtree" nat

datatype invalid_update =
    CollapsedIndex nat nat
  | StubUpdate nat nat
  | EndBeforeStart nat nat
  | EndOutOfTree nat
  | IndexOutOfTree nat
  | WrongNumberOfSegments nat nat
  | NotFullyRehashed
  | BadUpdatePath

datatype invalid_index = InvalidIndex nat

record 'f path_entry =
  pe_sibling :: 'f
  pe_goes_left :: bool

record 'f insertion_entry =
  ie_hash :: "'f option"
  ie_goes_left :: bool

section \<open>Node operations\<close>

fun mt_height :: "('h, 'f, 'a) mtree \<Rightarrow> nat" where
  "mt_height (Leaf _ _) = 0"
| "mt_height (Stub h) = h"
| "mt_height (Collapsed _ h) = h"
| "mt_height (Node _ _ _ h) = h"

fun mt_root :: "('h, 'f) mcrypto \<Rightarrow> ('h, 'f, 'a) mtree \<Rightarrow> 'f option" where
  "mt_root C (Leaf x _) = Some (degrade_to_transient C x)"
| "mt_root C (Stub _) = Some (fr_default C)"
| "mt_root C (Collapsed f _) = Some f"
| "mt_root C (Node hs _ _ _) = hs"

fun mt_is_collapsed :: "('h, 'f, 'a) mtree \<Rightarrow> bool" where
  "mt_is_collapsed (Collapsed _ _) = True"
| "mt_is_collapsed _ = False"

text \<open>The invariant checked on each node when a tree is read from storage.\<close>

fun mt_node_invariant :: "('h, 'f) mcrypto \<Rightarrow> ('h, 'f, 'a) mtree \<Rightarrow> bool" where
  "mt_node_invariant C (Node hs l r h) =
     (\<not> (h = 0 \<or> h - 1 \<noteq> mt_height l \<or> h - 1 \<noteq> mt_height r) \<and>
      \<not> (hs \<noteq> None \<and> (mt_root C l = None \<or> mt_root C r = None)))"
| "mt_node_invariant C _ = True"

definition mt_blank :: "nat \<Rightarrow> ('h, 'f, 'a) mtree" where
  "mt_blank h = Stub h"

fun mt_index :: "('h, 'f, 'a) mtree \<Rightarrow> nat \<Rightarrow> ('h \<times> 'a) option" where
  "mt_index (Leaf x a) i = Some (x, a)"
| "mt_index (Stub _) i = None"
| "mt_index (Collapsed _ _) i = None"
| "mt_index (Node _ l r h) i =
     (let cmp = 2 ^ (h - 1) in if i < cmp then mt_index l i else mt_index r (i - cmp))"

fun mt_rehash :: "('h, 'f) mcrypto \<Rightarrow> ('h, 'f, 'a) mtree \<Rightarrow> ('h, 'f, 'a) mtree" where
  "mt_rehash C (Node None l r h) =
     (let l' = mt_rehash C l; r' = mt_rehash C r
      in Node (Some (transient_hash C (the (mt_root C l')) (the (mt_root C r')))) l' r' h)"
| "mt_rehash C t = t"

text \<open>A measure for the recursions that expand a stub into a node of two stubs.\<close>

fun mt_measure :: "('h, 'f, 'a) mtree \<Rightarrow> nat" where
  "mt_measure (Leaf _ _) = 0"
| "mt_measure (Collapsed _ _) = 0"
| "mt_measure (Stub h) = h"
| "mt_measure (Node _ l r _) = Suc (mt_measure l + mt_measure r)"

function (sequential) mt_try_update_hash ::
  "('h, 'f, 'a) mtree \<Rightarrow> nat \<Rightarrow> 'h \<Rightarrow> 'a \<Rightarrow> (invalid_update, ('h, 'f, 'a) mtree) outcome" where
  "mt_try_update_hash (Leaf y b) i x a =
     (if i \<ge> 1 then Err (IndexOutOfTree i) else Ok (Leaf x a))"
| "mt_try_update_hash (Collapsed f h) i x a =
     (if i \<ge> 2 ^ h then Err (IndexOutOfTree i) else Err (CollapsedIndex i h))"
| "mt_try_update_hash (Stub h) i x a =
     (if i \<ge> 2 ^ h then Err (IndexOutOfTree i)
      else if h = 0 then Ok (Leaf x a)
      else let cmp = 2 ^ (h - 1) in
        if i < cmp
        then obind (mt_try_update_hash (Stub (h - 1)) i x a) (\<lambda>l. Ok (Node None l (Stub (h - 1)) h))
        else obind (mt_try_update_hash (Stub (h - 1)) (i - cmp) x a)
               (\<lambda>r. Ok (Node None (Stub (h - 1)) r h)))"
| "mt_try_update_hash (Node hs l r h) i x a =
     (if i \<ge> 2 ^ h then Err (IndexOutOfTree i)
      else if h = 0 then Ok (Leaf x a)
      else let cmp = 2 ^ (h - 1) in
        if i < cmp
        then obind (mt_try_update_hash l i x a) (\<lambda>l'. Ok (Node None l' r h))
        else obind (mt_try_update_hash r (i - cmp) x a) (\<lambda>r'. Ok (Node None l r' h)))"
  by pat_completeness auto
termination
  by (relation "measure (\<lambda>(t, i, x, a). mt_measure t)") auto

text \<open>The equation for a stub is used by cases on the height only: it calls itself on a stub.\<close>

declare mt_try_update_hash.simps(3) [simp del]

lemma mt_update_stub_0 [simp]:
  "mt_try_update_hash (Stub 0) i x a = (if i \<ge> 1 then Err (IndexOutOfTree i) else Ok (Leaf x a))"
  by (simp add: mt_try_update_hash.simps(3))

lemma mt_update_stub_Suc [simp]:
  "mt_try_update_hash (Stub (Suc n)) i x a =
     (if i \<ge> 2 ^ Suc n then Err (IndexOutOfTree i)
      else if i < 2 ^ n
        then obind (mt_try_update_hash (Stub n) i x a) (\<lambda>l. Ok (Node None l (Stub n) (Suc n)))
        else obind (mt_try_update_hash (Stub n) (i - 2 ^ n) x a)
               (\<lambda>r. Ok (Node None (Stub n) r (Suc n))))"
  by (subst mt_try_update_hash.simps(3)) (simp add: Let_def)

text \<open>
  \<open>collapse\<close>: a leaf collapses whatever the range; a stub is expanded into two stubs with the
  cached digest of an empty tree; two collapsed children collapse into one.
\<close>

fun mt_collapse_join :: "('h, 'f) mcrypto \<Rightarrow> ('h, 'f, 'a) mtree \<Rightarrow> 'f option \<Rightarrow> nat \<Rightarrow>
    ('h, 'f, 'a) mtree \<Rightarrow> ('h, 'f, 'a) mtree \<Rightarrow> ('h, 'f, 'a) mtree" where
  "mt_collapse_join C self hs h l r =
     (if mt_is_collapsed l \<and> mt_is_collapsed r
      then Collapsed (the (mt_root C (mt_rehash C self))) h
      else Node hs l r h)"

function (sequential) mt_collapse ::
  "('h, 'f) mcrypto \<Rightarrow> ('h, 'f, 'a) mtree \<Rightarrow> nat \<Rightarrow> nat \<Rightarrow> (invalid_update, ('h, 'f, 'a) mtree) outcome" where
  "mt_collapse C (Leaf x a) s e = Ok (Collapsed (degrade_to_transient C x) 0)"
| "mt_collapse C (Collapsed f h) s e = Ok (Collapsed f h)"
| "mt_collapse C (Stub h) s e =
     (if s = 0 \<and> e = 2 ^ h - 1 then Ok (Collapsed (fr_default C) h)
      else if h = 0 then Panic
      else let cmp = 2 ^ (h - 1) in
        obind (if s < cmp then mt_collapse C (Stub (h - 1)) s (min e (cmp - 1)) else Ok (Stub (h - 1)))
          (\<lambda>l. obind (if e \<ge> cmp then mt_collapse C (Stub (h - 1)) (s - cmp) (e - cmp)
                      else Ok (Stub (h - 1)))
            (\<lambda>r. Ok (mt_collapse_join C (Stub h) (Some (fr_default C)) h l r))))"
| "mt_collapse C (Node hs l r h) s e =
     (if s = 0 \<and> e = 2 ^ h - 1 then Ok (Collapsed (the (mt_root C (mt_rehash C (Node hs l r h)))) h)
      else if h = 0 then Panic
      else let cmp = 2 ^ (h - 1) in
        obind (if s < cmp then mt_collapse C l s (min e (cmp - 1)) else Ok l)
          (\<lambda>l'. obind (if e \<ge> cmp then mt_collapse C r (s - cmp) (e - cmp) else Ok r)
            (\<lambda>r'. Ok (mt_collapse_join C (Node hs l r h) hs h l' r'))))"
  by pat_completeness auto
termination
  by (relation "measure (\<lambda>(C, t, s, e). mt_measure t)") auto

declare mt_collapse.simps(3) [simp del]

lemma mt_collapse_stub_0 [simp]:
  "mt_collapse C (Stub 0) s e = (if s = 0 \<and> e = 0 then Ok (Collapsed (fr_default C) 0) else Panic)"
  by (simp add: mt_collapse.simps(3))

lemma mt_collapse_stub_Suc [simp]:
  "mt_collapse C (Stub (Suc n)) s e =
     (if s = 0 \<and> e = 2 ^ Suc n - 1 then Ok (Collapsed (fr_default C) (Suc n))
      else obind (if s < 2 ^ n then mt_collapse C (Stub n) s (min e (2 ^ n - 1)) else Ok (Stub n))
          (\<lambda>l. obind (if e \<ge> 2 ^ n then mt_collapse C (Stub n) (s - 2 ^ n) (e - 2 ^ n)
                      else Ok (Stub n))
            (\<lambda>r. Ok (mt_collapse_join C (Stub (Suc n)) (Some (fr_default C)) (Suc n) l r))))"
  by (subst mt_collapse.simps(3)) (simp add: Let_def)

text \<open>Replaying insertion evidence; the path runs from the leaf up, its last entry is this node.\<close>

function mt_update_from_evidence_internal ::
  "('h, 'f) mcrypto \<Rightarrow> ('h, 'f, 'a) mtree \<Rightarrow> 'h \<times> 'a \<Rightarrow> 'f insertion_entry list \<Rightarrow>
     (invalid_update, ('h, 'f, 'a) mtree) outcome" where
  "mt_update_from_evidence_internal C t lf path =
     (case t of
        Collapsed _ h \<Rightarrow>
          (if path = [] then Ok (Collapsed (degrade_to_transient C (fst lf)) h)
           else obind (ok_or (ie_hash (last path)) BadUpdatePath) (\<lambda>f. Ok (Collapsed f h)))
      | Node hs l r h \<Rightarrow>
          (if path = [] then Ok (Leaf (fst lf) (snd lf))
           else if ie_goes_left (last path)
           then obind (mt_update_from_evidence_internal C l lf (butlast path))
                  (\<lambda>l'. Ok (Node None l' r h))
           else obind (mt_update_from_evidence_internal C r lf (butlast path))
                  (\<lambda>r'. Ok (Node None l r' h)))
      | _ \<Rightarrow> (if path = [] then Ok (Leaf (fst lf) (snd lf)) else Err BadUpdatePath))"
  by pat_completeness auto
termination
  by (relation "measure (\<lambda>(C, t, lf, path). size t)") auto

declare mt_update_from_evidence_internal.simps [simp del]

section \<open>The view of a tree as an array of cells\<close>

datatype ('h, 'a) cell = Vacant | Filled 'h 'a | Hidden

fun mt_cell :: "('h, 'f, 'a) mtree \<Rightarrow> nat \<Rightarrow> ('h, 'a) cell" where
  "mt_cell (Leaf x a) i = Filled x a"
| "mt_cell (Stub _) i = Vacant"
| "mt_cell (Collapsed _ _) i = Hidden"
| "mt_cell (Node _ l r h) i =
     (if i < 2 ^ (h - 1) then mt_cell l i else mt_cell r (i - 2 ^ (h - 1)))"

fun cell_value :: "('h, 'a) cell \<Rightarrow> ('h \<times> 'a) option" where
  "cell_value (Filled x a) = Some (x, a)"
| "cell_value _ = None"

text \<open>Heights are consistent; this is the first half of the storage invariant.\<close>

fun mt_wf :: "('h, 'f, 'a) mtree \<Rightarrow> bool" where
  "mt_wf (Node hs l r h) \<longleftrightarrow>
     h \<noteq> 0 \<and> mt_height l = h - 1 \<and> mt_height r = h - 1 \<and> mt_wf l \<and> mt_wf r"
| "mt_wf _ \<longleftrightarrow> True"

fun mt_inv :: "('h, 'f) mcrypto \<Rightarrow> ('h, 'f, 'a) mtree \<Rightarrow> bool" where
  "mt_inv C (Node hs l r h) \<longleftrightarrow>
     mt_node_invariant C (Node hs l r h) \<and> mt_inv C l \<and> mt_inv C r"
| "mt_inv C t \<longleftrightarrow> mt_node_invariant C t"

text \<open>The digest a tree stands for: the cached one where there is one.\<close>

fun mt_digest :: "('h, 'f) mcrypto \<Rightarrow> ('h, 'f, 'a) mtree \<Rightarrow> 'f" where
  "mt_digest C (Leaf x _) = degrade_to_transient C x"
| "mt_digest C (Stub _) = fr_default C"
| "mt_digest C (Collapsed f _) = f"
| "mt_digest C (Node (Some f) _ _ _) = f"
| "mt_digest C (Node None l r _) = transient_hash C (mt_digest C l) (mt_digest C r)"

text \<open>A vacant tree holds no leaf and digests to the default; a cached digest is the hash of the
  children's digests, or the default over vacant children.\<close>

fun mt_vacant :: "('h, 'f) mcrypto \<Rightarrow> ('h, 'f, 'a) mtree \<Rightarrow> bool" where
  "mt_vacant C (Leaf _ _) \<longleftrightarrow> False"
| "mt_vacant C (Stub _) \<longleftrightarrow> True"
| "mt_vacant C (Collapsed f _) \<longleftrightarrow> f = fr_default C"
| "mt_vacant C (Node hs l r _) \<longleftrightarrow> hs = Some (fr_default C) \<and> mt_vacant C l \<and> mt_vacant C r"

fun mt_hash_ok :: "('h, 'f) mcrypto \<Rightarrow> ('h, 'f, 'a) mtree \<Rightarrow> bool" where
  "mt_hash_ok C (Node hs l r h) \<longleftrightarrow> mt_hash_ok C l \<and> mt_hash_ok C r \<and>
     (case hs of None \<Rightarrow> True
      | Some f \<Rightarrow> f = transient_hash C (mt_digest C l) (mt_digest C r) \<or>
                  (f = fr_default C \<and> mt_vacant C l \<and> mt_vacant C r))"
| "mt_hash_ok C _ \<longleftrightarrow> True"

lemma mt_index_cell: "mt_index t i = cell_value (mt_cell t i)"
  by (induction t i rule: mt_index.induct) (auto simp: Let_def)

lemma mt_inv_wf: "mt_inv C t \<Longrightarrow> mt_wf t"
  by (induction t) auto

lemma mt_digest_node: "mt_digest C (Node hs l r h) =
    (case hs of Some f \<Rightarrow> f | None \<Rightarrow> transient_hash C (mt_digest C l) (mt_digest C r))"
  by (cases hs) auto

lemma mt_root_digest: "mt_root C t = Some f \<Longrightarrow> mt_digest C t = f"
  by (cases t) auto

lemma mt_root_None_iff: "mt_root C t = None \<longleftrightarrow> (\<exists>l r h. t = Node None l r h)"
  by (cases t) auto

lemma pow_pred_double: "h \<noteq> 0 \<Longrightarrow> (2::nat) ^ h = 2 * 2 ^ (h - 1)"
  by (cases h) auto

subsection \<open>Rehashing\<close>

lemma mt_rehash_root [simp]: "mt_root C (mt_rehash C t) = Some (mt_digest C t)"
  by (induction C t rule: mt_rehash.induct) (auto simp: Let_def)

lemma mt_rehash_digest [simp]: "mt_digest C (mt_rehash C t) = mt_digest C t"
  by (rule mt_root_digest [OF mt_rehash_root])

lemma mt_rehash_height [simp]: "mt_height (mt_rehash C t) = mt_height t"
  by (induction C t rule: mt_rehash.induct) (auto simp: Let_def)

lemma mt_rehash_cell [simp]: "mt_cell (mt_rehash C t) i = mt_cell t i"
  by (induction C t arbitrary: i rule: mt_rehash.induct) (auto simp: Let_def)

lemma mt_rehash_inv: "mt_inv C t \<Longrightarrow> mt_inv C (mt_rehash C t)"
  by (induction C t rule: mt_rehash.induct) (auto simp: Let_def)

lemma mt_rehash_hash_ok: "mt_hash_ok C t \<Longrightarrow> mt_hash_ok C (mt_rehash C t)"
  by (induction C t rule: mt_rehash.induct) (auto simp: Let_def)

lemma mt_rehash_idem: "mt_rehash C (mt_rehash C t) = mt_rehash C t"
  by (induction C t rule: mt_rehash.induct) (auto simp: Let_def)

subsection \<open>Updating\<close>

lemma mt_update_height: "mt_try_update_hash t i x a = Ok t' \<Longrightarrow> mt_wf t \<Longrightarrow> mt_height t' = mt_height t"
proof (cases t)
  case (Stub h)
  assume "mt_try_update_hash t i x a = Ok t'"
  then show ?thesis using Stub by (cases h) (auto simp: outcome_simps split: if_splits)
qed (auto simp: Let_def outcome_simps split: if_splits)

lemma mt_update_height_stub: "mt_try_update_hash (Stub n) i x a = Ok t' \<Longrightarrow> mt_height t' = n"
  using mt_update_height [of "Stub n"] by simp

lemma mt_update_no_panic: "mt_try_update_hash t i x a \<noteq> Panic"
proof (induction t i x a rule: mt_try_update_hash.induct)
  case (3 h i x a)
  then show ?case by (cases h) (auto simp: outcome_simps)
qed (auto simp: Let_def outcome_simps)

lemma mt_update_inv: "mt_try_update_hash t i x a = Ok t' \<Longrightarrow> mt_inv C t \<Longrightarrow> mt_inv C t'"
proof (induction t i x a arbitrary: t' rule: mt_try_update_hash.induct)
  case (3 h i x a)
  then show ?case
    by (cases h) (auto simp: outcome_simps split: if_splits dest: mt_update_height_stub)
next
  case (4 hs l r h i x a)
  then have wf: "mt_wf l" "mt_wf r" "h \<noteq> 0" "\<not> 2 ^ h \<le> i" using mt_inv_wf by (auto split: if_splits)
  show ?case
  proof (cases "i < 2 ^ (h - 1)")
    case True
    with "4.prems" wf obtain l' where l': "mt_try_update_hash l i x a = Ok l'" "t' = Node None l' r h"
      by (auto simp: Let_def outcome_simps)
    then have "mt_inv C l'" using "4.IH"(1) [OF wf(4,3) refl True] "4.prems" by simp
    then show ?thesis using l' "4.prems" mt_update_height [OF l'(1) wf(1)] by simp
  next
    case False
    with "4.prems" wf obtain r' where r': "mt_try_update_hash r (i - 2 ^ (h - 1)) x a = Ok r'"
      "t' = Node None l r' h"
      by (auto simp: Let_def outcome_simps)
    then have "mt_inv C r'" using "4.IH"(2) [OF wf(4,3) refl False] "4.prems" by simp
    then show ?thesis using r' "4.prems" mt_update_height [OF r'(1) wf(2)] by simp
  qed
qed (auto split: if_splits)

lemma mt_update_hash_ok: "mt_try_update_hash t i x a = Ok t' \<Longrightarrow> mt_hash_ok C t \<Longrightarrow> mt_hash_ok C t'"
proof (induction t i x a arbitrary: t' rule: mt_try_update_hash.induct)
  case (3 h i x a)
  then show ?case by (cases h) (auto simp: outcome_simps split: if_splits)
qed (auto simp: Let_def outcome_simps split: if_splits)

lemma mt_update_ok_iff:
  "mt_wf t \<Longrightarrow> (\<exists>t'. mt_try_update_hash t i x a = Ok t') \<longleftrightarrow>
     i < 2 ^ mt_height t \<and> mt_cell t i \<noteq> Hidden"
proof (induction t i x a rule: mt_try_update_hash.induct)
  case (3 h i x a)
  then show ?case by (cases h) (auto simp: outcome_simps)
next
  case (4 hs l r h i x a)
  then show ?case by (cases h) (auto simp: Let_def outcome_simps)
qed auto

lemma mt_update_cell:
  "mt_try_update_hash t i x a = Ok t' \<Longrightarrow> mt_wf t \<Longrightarrow> j < 2 ^ mt_height t \<Longrightarrow>
     mt_cell t' j = (if j = i then Filled x a else mt_cell t j)"
proof (induction t i x a arbitrary: t' j rule: mt_try_update_hash.induct)
  case (3 h i x a)
  then show ?case by (cases h) (auto simp: outcome_simps split: if_splits)
next
  case (4 hs l r h i x a)
  then show ?case by (cases h) (auto simp: Let_def outcome_simps split: if_splits)
qed (auto split: if_splits)

subsection \<open>Collapsing\<close>

text \<open>
  A range is admissible for a tree of height \<open>h\<close> when both ends are inside the tree; an empty
  range \<open>collapse(i + 1, i)\<close>, which the ledger produces between consecutive retained leaves,
  is admissible too.
\<close>

definition admissible_range :: "nat \<Rightarrow> nat \<Rightarrow> nat \<Rightarrow> bool" where
  "admissible_range h s e \<longleftrightarrow> s < 2 ^ h \<and> e < 2 ^ h \<and> s \<le> Suc e"

lemma admissible_left:
  assumes "admissible_range (Suc n) s e" and "s < 2 ^ n"
  shows "admissible_range n s (min e (2 ^ n - 1))"
  using assms by (auto simp: admissible_range_def min_def)

lemma admissible_right:
  assumes "admissible_range (Suc n) s e" and "2 ^ n \<le> e"
  shows "admissible_range n (s - 2 ^ n) (e - 2 ^ n)"
  using assms by (auto simp: admissible_range_def)

text \<open>
  What collapsing the positions \<open>P\<close> of a tree is required to do; the induction below carries it
  through the children.
\<close>

definition collapse_post ::
  "('h, 'f) mcrypto \<Rightarrow> ('h, 'f, 'a) mtree \<Rightarrow> (nat \<Rightarrow> bool) \<Rightarrow> ('h, 'f, 'a) mtree \<Rightarrow> bool" where
  "collapse_post C t P t' \<longleftrightarrow>
     mt_wf t' \<and> mt_height t' = mt_height t \<and> mt_digest C t' = mt_digest C t \<and>
     (mt_hash_ok C t \<longrightarrow> mt_hash_ok C t') \<and> (mt_vacant C t \<longrightarrow> mt_vacant C t') \<and>
     (mt_inv C t \<longrightarrow> mt_inv C t') \<and> (mt_root C t \<noteq> None \<longrightarrow> mt_root C t' \<noteq> None) \<and>
     (\<forall>i < 2 ^ mt_height t. mt_cell t' i = (if P i then Hidden else mt_cell t i))"

lemma collapse_post_cong:
  assumes "collapse_post C t P t'" and "\<And>i. i < 2 ^ mt_height t \<Longrightarrow> P i = Q i"
  shows "collapse_post C t Q t'"
  using assms by (simp add: collapse_post_def)

lemma collapse_post_same: "mt_wf t \<Longrightarrow> collapse_post C t (\<lambda>_. False) t"
  by (simp add: collapse_post_def)

lemma mt_vacant_digest: "mt_vacant C t \<Longrightarrow> mt_digest C t = fr_default C"
  by (cases t) auto

lemma mt_is_collapsed_cell: "mt_is_collapsed t \<Longrightarrow> mt_cell t i = Hidden"
  by (cases t) auto

lemma collapse_full:
  "mt_wf t \<Longrightarrow> f = mt_digest C t \<Longrightarrow> h = mt_height t \<Longrightarrow> collapse_post C t (\<lambda>_. True) (Collapsed f h)"
  by (simp add: collapse_post_def mt_vacant_digest)

text \<open>Putting the two children back together.\<close>

lemma collapse_node_post:
  assumes t: "mt_wf (Node hs l r (Suc n))"
    and l: "collapse_post C l P l'" and r: "collapse_post C r (\<lambda>i. P (i + 2 ^ n)) r'"
  shows "collapse_post C (Node hs l r (Suc n)) P (Node hs l' r' (Suc n))"
proof -
  have h: "mt_height l = n" "mt_height r = n" using t by auto
  have cells: "mt_cell (Node hs l' r' (Suc n)) i = (if P i then Hidden else mt_cell (Node hs l r (Suc n)) i)"
    if i: "i < 2 ^ Suc n" for i
  proof (cases "i < 2 ^ n")
    case True
    then show ?thesis using l h by (simp add: collapse_post_def)
  next
    case False
    then have "i - 2 ^ n < 2 ^ n" "i - 2 ^ n + 2 ^ n = i" using i by auto
    then show ?thesis using False r h by (simp add: collapse_post_def)
  qed
  have dig: "mt_digest C l' = mt_digest C l" "mt_digest C r' = mt_digest C r"
    using l r by (auto simp: collapse_post_def)
  have hok: "mt_hash_ok C (Node hs l r (Suc n)) \<Longrightarrow> mt_hash_ok C (Node hs l' r' (Suc n))"
    using l r dig by (auto simp: collapse_post_def split: option.splits)
  have inv: "mt_inv C (Node hs l r (Suc n)) \<Longrightarrow> mt_inv C (Node hs l' r' (Suc n))"
    using l r h by (auto simp: collapse_post_def)
  have wf: "mt_wf (Node hs l' r' (Suc n))" using l r h by (simp add: collapse_post_def)
  have vac: "mt_vacant C (Node hs l r (Suc n)) \<Longrightarrow> mt_vacant C (Node hs l' r' (Suc n))"
    using l r by (simp add: collapse_post_def)
  have dig': "mt_digest C (Node hs l' r' (Suc n)) = mt_digest C (Node hs l r (Suc n))"
    using dig by (cases hs) simp_all
  show ?thesis
    unfolding collapse_post_def mt_height.simps mt_root.simps
    using cells hok inv wf vac dig' by blast
qed

lemma collapse_join_post:
  assumes t: "mt_wf (Node hs l r (Suc n))"
    and l: "collapse_post C l P l'" and r: "collapse_post C r (\<lambda>i. P (i + 2 ^ n)) r'"
    and self: "mt_digest C self = mt_digest C (Node hs l r (Suc n))"
  shows "collapse_post C (Node hs l r (Suc n)) P (mt_collapse_join C self hs (Suc n) l' r')"
proof (cases "mt_is_collapsed l' \<and> mt_is_collapsed r'")
  case True
  define t' where "t' = Node hs l' r' (Suc n)"
  have post: "collapse_post C (Node hs l r (Suc n)) P t'"
    unfolding t'_def using t l r by (rule collapse_node_post)
  have "mt_cell t' i = Hidden" for i
    using True mt_is_collapsed_cell by (auto simp: t'_def)
  then have "\<forall>i < 2 ^ Suc n. Hidden = (if P i then Hidden else mt_cell (Node hs l r (Suc n)) i)"
    using post unfolding collapse_post_def mt_height.simps by metis
  then show ?thesis
    using True self mt_vacant_digest [of C "Node hs l r (Suc n)"]
    by (simp add: collapse_post_def del: mt_vacant.simps(4) mt_cell.simps(4) mt_digest.simps(4,5))
next
  case False
  then show ?thesis using collapse_node_post [OF t l r] by auto
qed

text \<open>A stub collapses as the node of two stubs it is expanded into.\<close>

lemma collapse_post_stub:
  assumes "collapse_post C (Node (Some (fr_default C)) (Stub n) (Stub n) (Suc n)) P t'"
  shows "collapse_post C (Stub (Suc n)) P t'"
  using assms by (simp add: collapse_post_def)

lemma collapse_children:
  fixes coll :: "('h, 'f, 'a) mtree \<Rightarrow> nat \<Rightarrow> nat \<Rightarrow> ('e, ('h, 'f, 'a) mtree) outcome"
  assumes "mt_height l = n" and "mt_height r = n" and "mt_wf l" and "mt_wf r"
    and adm: "admissible_range (Suc n) s e"
    and IHl: "\<And>s e. admissible_range n s e \<Longrightarrow> \<exists>t'. coll l s e = Ok t' \<and>
      collapse_post C l (\<lambda>i. s \<le> i \<and> i \<le> e) t'"
    and IHr: "\<And>s e. admissible_range n s e \<Longrightarrow> \<exists>t'. coll r s e = Ok t' \<and>
      collapse_post C r (\<lambda>i. s \<le> i \<and> i \<le> e) t'"
  shows "\<exists>l' r'. (if s < 2 ^ n then coll l s (min e (2 ^ n - 1)) else Ok l) = Ok l' \<and>
    (if 2 ^ n \<le> e then coll r (s - 2 ^ n) (e - 2 ^ n) else Ok r) = Ok r' \<and>
    collapse_post C l (\<lambda>i. s \<le> i \<and> i \<le> e) l' \<and>
    collapse_post C r (\<lambda>i. s \<le> i + 2 ^ n \<and> i + 2 ^ n \<le> e) r'"
proof -
  have "\<exists>l'. (if s < 2 ^ n then coll l s (min e (2 ^ n - 1)) else Ok l) = Ok l' \<and>
      collapse_post C l (\<lambda>i. s \<le> i \<and> i \<le> e) l'"
  proof (cases "s < 2 ^ n")
    case True
    then obtain l' where "coll l s (min e (2 ^ n - 1)) = Ok l'"
      and post: "collapse_post C l (\<lambda>i. s \<le> i \<and> i \<le> min e (2 ^ n - 1)) l'"
      using IHl [OF admissible_left [OF adm True]] by blast
    moreover have "collapse_post C l (\<lambda>i. s \<le> i \<and> i \<le> e) l'"
      by (rule collapse_post_cong [OF post]) (use assms(1) in auto)
    ultimately show ?thesis using True by simp
  next
    case False
    have "collapse_post C l (\<lambda>i. s \<le> i \<and> i \<le> e) l"
      by (rule collapse_post_cong [OF collapse_post_same]) (use assms False in auto)
    then show ?thesis using False by simp
  qed
  moreover have "\<exists>r'. (if 2 ^ n \<le> e then coll r (s - 2 ^ n) (e - 2 ^ n) else Ok r) = Ok r' \<and>
      collapse_post C r (\<lambda>i. s \<le> i + 2 ^ n \<and> i + 2 ^ n \<le> e) r'"
  proof (cases "2 ^ n \<le> e")
    case True
    then obtain r' where "coll r (s - 2 ^ n) (e - 2 ^ n) = Ok r'"
      and post: "collapse_post C r (\<lambda>i. s - 2 ^ n \<le> i \<and> i \<le> e - 2 ^ n) r'"
      using IHr [OF admissible_right [OF adm True]] by blast
    moreover have "collapse_post C r (\<lambda>i. s \<le> i + 2 ^ n \<and> i + 2 ^ n \<le> e) r'"
      by (rule collapse_post_cong [OF post]) (use True in linarith)
    ultimately show ?thesis using True by simp
  next
    case False
    have "collapse_post C r (\<lambda>i. s \<le> i + 2 ^ n \<and> i + 2 ^ n \<le> e) r"
      by (rule collapse_post_cong [OF collapse_post_same]) (use assms False in auto)
    then show ?thesis using False by simp
  qed
  ultimately show ?thesis by blast
qed

lemma mt_collapse_stub_ok:
  fixes C :: "('h, 'f) mcrypto"
  shows "admissible_range h s e \<Longrightarrow> \<exists>t' :: ('h, 'f, 'a) mtree. mt_collapse C (Stub h) s e = Ok t' \<and>
    collapse_post C (Stub h) (\<lambda>i. s \<le> i \<and> i \<le> e) t'"
proof (induction h arbitrary: s e)
  case 0
  then show ?case by (auto simp: admissible_range_def collapse_post_def)
next
  case (Suc n)
  show ?case
  proof (cases "s = 0 \<and> e = 2 ^ Suc n - 1")
    case True
    have "collapse_post C (Stub (Suc n)) (\<lambda>_. True) (Collapsed (fr_default C) (Suc n))"
      by (rule collapse_full) auto
    then have "collapse_post C (Stub (Suc n)) (\<lambda>i. s \<le> i \<and> i \<le> e) (Collapsed (fr_default C) (Suc n))"
      by (rule collapse_post_cong) (use True in auto)
    then show ?thesis using True by simp
  next
    case False
    obtain l' r' :: "('h, 'f, 'a) mtree" where
      l: "(if s < 2 ^ n then mt_collapse C (Stub n) s (min e (2 ^ n - 1)) else Ok (Stub n)) = Ok l'"
      and r: "(if 2 ^ n \<le> e then mt_collapse C (Stub n) (s - 2 ^ n) (e - 2 ^ n) else Ok (Stub n)) = Ok r'"
      and pl: "collapse_post C (Stub n) (\<lambda>i. s \<le> i \<and> i \<le> e) l'"
      and pr: "collapse_post C (Stub n) (\<lambda>i. s \<le> i + 2 ^ n \<and> i + 2 ^ n \<le> e) r'"
      using collapse_children [where coll = "mt_collapse C" and l = "Stub n" and r = "Stub n",
          OF _ _ _ _ Suc.prems Suc.IH Suc.IH] by auto
    have "collapse_post C (Node (Some (fr_default C)) (Stub n) (Stub n) (Suc n)) (\<lambda>i. s \<le> i \<and> i \<le> e)
        (mt_collapse_join C (Stub (Suc n)) (Some (fr_default C)) (Suc n) l' r')"
      by (rule collapse_join_post [OF _ pl pr]) auto
    then show ?thesis using False l r collapse_post_stub by (simp add: Let_def del: mt_collapse_join.simps) blast
  qed
qed

lemma mt_collapse_ok:
  "mt_wf t \<Longrightarrow> admissible_range (mt_height t) s e \<Longrightarrow>
   \<exists>t'. mt_collapse C t s e = Ok t' \<and> collapse_post C t (\<lambda>i. s \<le> i \<and> i \<le> e) t'"
proof (induction t arbitrary: s e)
  case (Leaf x a)
  then show ?case by (auto simp: admissible_range_def collapse_post_def)
next
  case (Collapsed f h)
  then show ?case by (auto simp: collapse_post_def)
next
  case (Stub h)
  then show ?case using mt_collapse_stub_ok by simp
next
  case (Node hs l r h)
  then obtain n where h: "h = Suc n" by (cases h) auto
  have wf: "mt_height l = n" "mt_height r = n" "mt_wf l" "mt_wf r" using Node.prems h by auto
  have adm: "admissible_range (Suc n) s e" using Node.prems h by simp
  show ?case
  proof (cases "s = 0 \<and> e = 2 ^ h - 1")
    case True
    have "collapse_post C (Node hs l r h) (\<lambda>_. True) (Collapsed (mt_digest C (Node hs l r h)) h)"
      using Node.prems by (intro collapse_full) auto
    then have "collapse_post C (Node hs l r h) (\<lambda>i. s \<le> i \<and> i \<le> e)
        (Collapsed (mt_digest C (Node hs l r h)) h)"
      by (rule collapse_post_cong) (use True in auto)
    then show ?thesis using True by (simp del: mt_digest.simps)
  next
    case False
    obtain l' r' where
      l: "(if s < 2 ^ n then mt_collapse C l s (min e (2 ^ n - 1)) else Ok l) = Ok l'"
      and r: "(if 2 ^ n \<le> e then mt_collapse C r (s - 2 ^ n) (e - 2 ^ n) else Ok r) = Ok r'"
      and pl: "collapse_post C l (\<lambda>i. s \<le> i \<and> i \<le> e) l'"
      and pr: "collapse_post C r (\<lambda>i. s \<le> i + 2 ^ n \<and> i + 2 ^ n \<le> e) r'"
      using collapse_children [where coll = "mt_collapse C" and C = C, OF wf adm] Node.IH wf by auto
    have "collapse_post C (Node hs l r (Suc n)) (\<lambda>i. s \<le> i \<and> i \<le> e)
        (mt_collapse_join C (Node hs l r (Suc n)) hs (Suc n) l' r')"
      by (rule collapse_join_post [OF _ pl pr]) (use Node.prems h in auto)
    then show ?thesis using False l r h by (auto simp: Let_def simp del: mt_collapse_join.simps)
  qed
qed

end
