(* ===== verification/Merkle_Refinement.thy ===== *)
theory Merkle_Refinement
  imports Merkle_Tree
begin

text \<open>
  The Merkle tree against its abstract specification: an array of cells whose root is a function
  of the leaves alone.

  \<^item> \<open>cells_digest\<close> is the root of an array of leaves, defined without trees;
    \<open>mt_exact\<close> trees (those the ledger builds from a blank tree by updates and rehashes) have it
    as their digest, whatever the order of the updates.
  \<^item> \<open>mt_hides\<close> relates a partially collapsed tree to the full tree it came from; it is a
    simulation for updates, rehashes and further collapses, so collapsing never changes a later root.
  \<^item> The locale \<open>leaf_array\<close> is the contract the ledger states (commitment tree, dust trees)
    rely on: the insertion of consecutive leaves.
\<close>

section \<open>The root as a function of the leaves\<close>

fun cells_digest :: "('h, 'f) mcrypto \<Rightarrow> nat \<Rightarrow> (nat \<Rightarrow> ('h, 'a) cell) \<Rightarrow> 'f" where
  "cells_digest C 0 c = (case c 0 of Filled x a \<Rightarrow> degrade_to_transient C x | _ \<Rightarrow> fr_default C)"
| "cells_digest C (Suc n) c =
     (if \<forall>i < 2 ^ Suc n. c i = Vacant then fr_default C
      else transient_hash C (cells_digest C n c) (cells_digest C n (\<lambda>i. c (i + 2 ^ n))))"

definition cells_vacant :: "nat \<Rightarrow> (nat \<Rightarrow> ('h, 'a) cell) \<Rightarrow> bool" where
  "cells_vacant n c \<longleftrightarrow> (\<forall>i < n. c i = Vacant)"

fun mt_exact :: "('h, 'f) mcrypto \<Rightarrow> ('h, 'f, 'a) mtree \<Rightarrow> bool" where
  "mt_exact C (Leaf x a) \<longleftrightarrow> True"
| "mt_exact C (Stub h) \<longleftrightarrow> True"
| "mt_exact C (Collapsed f h) \<longleftrightarrow> False"
| "mt_exact C (Node hs l r h) \<longleftrightarrow>
     h \<noteq> 0 \<and> mt_height l = h - 1 \<and> mt_height r = h - 1 \<and> mt_exact C l \<and> mt_exact C r \<and>
     \<not> (cells_vacant (2 ^ (h - 1)) (mt_cell l) \<and> cells_vacant (2 ^ (h - 1)) (mt_cell r)) \<and>
     (hs = None \<or> hs = Some (transient_hash C (mt_digest C l) (mt_digest C r)))"

lemma mt_exact_wf: "mt_exact C t \<Longrightarrow> mt_wf t"
  by (induction t) auto

lemma mt_exact_not_hidden: "mt_exact C t \<Longrightarrow> mt_cell t i \<noteq> Hidden"
  by (induction t arbitrary: i) auto

lemma cells_digest_cong:
  "(\<And>i. i < 2 ^ n \<Longrightarrow> c i = d i) \<Longrightarrow> cells_digest C n c = cells_digest C n d"
proof (induction n arbitrary: c d)
  case (Suc n)
  have "cells_digest C n c = cells_digest C n d"
    by (rule Suc.IH) (use Suc.prems in simp)
  moreover have "cells_digest C n (\<lambda>i. c (i + 2 ^ n)) = cells_digest C n (\<lambda>i. d (i + 2 ^ n))"
    by (rule Suc.IH) (use Suc.prems in simp)
  moreover have "(\<forall>i < 2 ^ Suc n. c i = Vacant) = (\<forall>i < 2 ^ Suc n. d i = Vacant)"
    using Suc.prems by metis
  ultimately show ?case by (simp only: cells_digest.simps)
qed simp

lemma mt_exact_digest:
  "mt_exact C t \<Longrightarrow> mt_digest C t = cells_digest C (mt_height t) (mt_cell t)"
proof (induction t)
  case (Stub h)
  then show ?case by (cases h) auto
next
  case (Node hs l r h)
  then obtain n where h: "h = Suc n" "mt_height l = n" "mt_height r = n" by (cases h) auto
  have "\<not> (\<forall>i < 2 ^ Suc n. mt_cell (Node hs l r h) i = Vacant)"
  proof
    assume v: "\<forall>i < 2 ^ Suc n. mt_cell (Node hs l r h) i = Vacant"
    have "cells_vacant (2 ^ n) (mt_cell l)"
      unfolding cells_vacant_def
    proof (intro allI impI)
      fix i :: nat assume "i < 2 ^ n"
      then show "mt_cell l i = Vacant" using v [rule_format, of i] h by simp
    qed
    moreover have "cells_vacant (2 ^ n) (mt_cell r)"
      unfolding cells_vacant_def
    proof (intro allI impI)
      fix i :: nat assume "i < 2 ^ n"
      then show "mt_cell r i = Vacant" using v [rule_format, of "i + 2 ^ n"] h by simp
    qed
    ultimately show False using Node.prems h by simp
  qed
  moreover have "cells_digest C n (mt_cell (Node hs l r h)) = cells_digest C n (mt_cell l)"
    by (rule cells_digest_cong) (use h in simp)
  moreover have "cells_digest C n (\<lambda>i. mt_cell (Node hs l r h) (i + 2 ^ n)) = cells_digest C n (mt_cell r)"
    by (rule cells_digest_cong) (use h in simp)
  ultimately show ?case using Node h by (auto simp del: mt_cell.simps)
qed auto

lemma cells_vacant_updated: "i < n \<Longrightarrow> c i = Filled x a \<Longrightarrow> \<not> cells_vacant n c"
  by (auto simp: cells_vacant_def)

lemma mt_exact_node:
  assumes "mt_exact C l" and "mt_exact C r" and "mt_height l = n" and "mt_height r = n"
    and "i < 2 ^ n" and "mt_cell l i = Filled x a \<or> mt_cell r i = Filled x a"
  shows "mt_exact C (Node None l r (Suc n))"
  using assms cells_vacant_updated by fastforce

text \<open>An update of a node goes into the child that holds the position.\<close>

lemma mt_update_node_cases:
  assumes "mt_try_update_hash t i x a = Ok t'" and "mt_wf l" and "mt_wf r"
    and "mt_height l = n" and "mt_height r = n"
    and "t = Node hs l r (Suc n) \<or> t = Stub (Suc n) \<and> l = Stub n \<and> r = Stub n"
  obtains (left) l' where "i < 2 ^ n" "mt_try_update_hash l i x a = Ok l'" "mt_height l' = n"
      "mt_cell l' i = Filled x a" "t' = Node None l' r (Suc n)"
  | (right) r' j where "\<not> i < 2 ^ n" "j = i - 2 ^ n" "j < 2 ^ n" "mt_try_update_hash r j x a = Ok r'"
      "mt_height r' = n" "mt_cell r' j = Filled x a" "t' = Node None l r' (Suc n)"
proof (cases "i < 2 ^ n")
  case True
  then obtain l' where "mt_try_update_hash l i x a = Ok l'" "t' = Node None l' r (Suc n)"
    using assms by (auto simp: outcome_simps Let_def split: if_splits)
  then show ?thesis
    using left True mt_update_height [of l] mt_update_cell [of l] assms by simp
next
  case False
  then obtain r' where "mt_try_update_hash r (i - 2 ^ n) x a = Ok r'" "t' = Node None l r' (Suc n)"
    and "i - 2 ^ n < 2 ^ n"
    using assms by (auto simp: outcome_simps Let_def split: if_splits)
  then show ?thesis
    using right False mt_update_height [of r] mt_update_cell [of r] assms by simp
qed

lemma mt_update_exact_stub:
  "mt_try_update_hash (Stub h) i x a = Ok t' \<Longrightarrow> mt_exact C t'"
proof (induction h arbitrary: i t')
  case (Suc n)
  from Suc.prems show ?case
    by (rule mt_update_node_cases [where l = "Stub n" and r = "Stub n"])
      (auto simp del: mt_exact.simps(4) intro: mt_exact_node Suc.IH)
qed (auto split: if_splits)

lemma mt_update_exact:
  "mt_try_update_hash t i x a = Ok t' \<Longrightarrow> mt_exact C t \<Longrightarrow> mt_exact C t'"
proof (induction t arbitrary: i t')
  case (Stub h)
  from Stub.prems(1) show ?case by (rule mt_update_exact_stub)
next
  case (Node hs l r h)
  then obtain n where h: "h = Suc n" "mt_height l = n" "mt_height r = n" by (cases h) auto
  have ex: "mt_exact C l" "mt_exact C r" "mt_wf l" "mt_wf r"
    using Node.prems mt_exact_wf by auto
  from Node.prems(1) show ?case
    by (rule mt_update_node_cases [where l = l and r = r and n = n and hs = hs])
      (use h ex Node.IH in \<open>auto simp del: mt_exact.simps(4) intro!: mt_exact_node\<close>)
qed (auto split: if_splits)

lemma mt_rehash_exact: "mt_exact C t \<Longrightarrow> mt_exact C (mt_rehash C t)"
proof (induction t)
  case (Node hs l r h)
  then show ?case
    by (cases hs) (auto simp: Let_def cells_vacant_def)
qed auto

section \<open>Collapsed trees simulate full trees\<close>

fun mt_hides :: "('h, 'f) mcrypto \<Rightarrow> ('h, 'f, 'a) mtree \<Rightarrow> ('h, 'f, 'a) mtree \<Rightarrow> bool" where
  "mt_hides C (Collapsed f h) T \<longleftrightarrow> mt_height T = h \<and> mt_digest C T = f"
| "mt_hides C (Node hs l r h) (Node hs' l' r' h') \<longleftrightarrow>
     h = h' \<and> hs = hs' \<and> mt_hides C l l' \<and> mt_hides C r r'"
| "mt_hides C (Node hs l r (Suc n)) (Stub h) \<longleftrightarrow>
     h = Suc n \<and> hs = Some (fr_default C) \<and> mt_hides C l (Stub n) \<and> mt_hides C r (Stub n)"
| "mt_hides C t T \<longleftrightarrow> t = T"

lemma mt_hides_refl: "mt_hides C t t"
  by (induction t) auto

lemma mt_hides_height: "mt_hides C t T \<Longrightarrow> mt_height t = mt_height T"
  by (induction C t T rule: mt_hides.induct) auto

lemma mt_hides_digest: "mt_hides C t T \<Longrightarrow> mt_digest C t = mt_digest C T"
  by (induction C t T rule: mt_hides.induct) (auto simp: mt_digest_node split: option.splits)

lemma mt_hides_rehash: "mt_hides C t T \<Longrightarrow> mt_hides C (mt_rehash C t) (mt_rehash C T)"
proof (induction C t T rule: mt_hides.induct)
  case (2 C hs l r h hs' l' r' h')
  then show ?case by (cases hs) (auto simp: Let_def mt_hides_digest)
qed (auto simp: Let_def)

lemma mt_hides_update_stub:
  "mt_hides C t (Stub h) \<Longrightarrow> mt_wf t \<Longrightarrow> mt_try_update_hash t i x a = Ok t' \<Longrightarrow>
   \<exists>T'. mt_try_update_hash (Stub h) i x a = Ok T' \<and> mt_hides C t' T'"
proof (induction h arbitrary: t i t')
  case 0
  then show ?case by (cases t) (auto simp: mt_hides_refl dest: mt_hides_height split: if_splits)
next
  case (Suc n)
  show ?case
  proof (cases t)
    case (Node hs l r h)
    then have h: "h = Suc n" "mt_hides C l (Stub n)" "mt_hides C r (Stub n)" "mt_wf l" "mt_wf r"
      using Suc.prems by (cases h; auto)+
    have hl: "mt_height l = n" "mt_height r = n" using h mt_hides_height by fastforce+
    have t: "t = Node hs l r (Suc n) \<or> t = Stub (Suc n) \<and> l = Stub n \<and> r = Stub n"
      using Node h by simp
    from Suc.prems(3) h(4,5) hl t show ?thesis
    proof (cases rule: mt_update_node_cases)
      case (left l')
      then obtain L where "mt_try_update_hash (Stub n) i x a = Ok L" "mt_hides C l' L"
        using Suc.IH h by blast
      then show ?thesis using left h by simp
    next
      case (right r' j)
      then obtain R where "mt_try_update_hash (Stub n) j x a = Ok R" "mt_hides C r' R"
        using Suc.IH h by blast
      then show ?thesis using right h by auto
    qed
  qed (use Suc.prems mt_hides_refl in auto)
qed

lemma mt_hides_update:
  "mt_hides C t T \<Longrightarrow> mt_wf t \<Longrightarrow> mt_try_update_hash t i x a = Ok t' \<Longrightarrow>
   \<exists>T'. mt_try_update_hash T i x a = Ok T' \<and> mt_hides C t' T'"
proof (induction C t T arbitrary: i t' rule: mt_hides.induct)
  case (2 C hs l r h hs' l' r' h')
  then obtain n where n: "h = Suc n" "h' = Suc n" "mt_height l = n" "mt_height r = n" by (cases h) auto
  have sub: "mt_hides C l l'" "mt_hides C r r'" "mt_wf l" "mt_wf r" using "2.prems" by auto
  have t: "Node hs l r h = Node hs l r (Suc n) \<or> Node hs l r h = Stub (Suc n) \<and> l = Stub n \<and> r = Stub n"
    using n by simp
  from "2.prems"(3) sub(3,4) n(3,4) t show ?case
  proof (cases rule: mt_update_node_cases)
    case (left l1)
    then obtain L where "mt_try_update_hash l' i x a = Ok L" "mt_hides C l1 L"
      using "2.IH"(1) sub by blast
    then show ?thesis using left n sub by simp
  next
    case (right r1 j)
    then obtain R where "mt_try_update_hash r' j x a = Ok R" "mt_hides C r1 R"
      using "2.IH"(2) sub by blast
    then show ?thesis using right n sub by simp
  qed
next
  case (3 C hs l r n h)
  from "3.prems" show ?case by (rule mt_hides_update_stub)
qed (use mt_hides_refl in \<open>auto split: if_splits\<close>)

lemma mt_hides_collapse_stub:
  "mt_collapse C (Stub h) s e = Ok t' \<Longrightarrow> mt_hides C t' (Stub h)"
proof (induction h arbitrary: s e t')
  case 0
  then show ?case by (auto split: if_splits)
next
  case (Suc n)
  show ?case
  proof (cases "s = 0 \<and> e = 2 ^ Suc n - 1")
    case False
    then obtain l r where "t' = mt_collapse_join C (Stub (Suc n)) (Some (fr_default C)) (Suc n) l r"
      "mt_hides C l (Stub n)" "mt_hides C r (Stub n)"
      using Suc.prems Suc.IH
      by (auto simp: outcome_simps mt_hides_refl simp del: mt_collapse_join.simps split: if_splits)
    then show ?thesis by auto
  qed (use Suc.prems in auto)
qed

lemma mt_collapse_node_cases:
  assumes "mt_collapse C (Node hs l r h) s e = Ok t'" and "\<not> (s = 0 \<and> e = 2 ^ h - 1)"
  obtains l' r' where "t' = mt_collapse_join C (Node hs l r h) hs h l' r'"
    "l' = l \<or> (\<exists>s e. mt_collapse C l s e = Ok l')" "r' = r \<or> (\<exists>s e. mt_collapse C r s e = Ok r')"
  using assms by (auto simp: Let_def outcome_simps simp del: mt_collapse_join.simps split: if_splits)

lemma mt_hides_collapse:
  "mt_hides C t T \<Longrightarrow> mt_wf t \<Longrightarrow> mt_collapse C t s e = Ok t' \<Longrightarrow> mt_hides C t' T"
proof (induction C t T arbitrary: s e t' rule: mt_hides.induct)
  case (2 C hs l r h hs' l' r' h')
  show ?case
  proof (cases "s = 0 \<and> e = 2 ^ h - 1")
    case True
    then show ?thesis using "2.prems" mt_hides_digest [OF "2.prems"(1)] by (auto simp del: mt_digest.simps)
  next
    case False
    from "2.prems"(3) this obtain l1 r1 where join: "t' = mt_collapse_join C (Node hs l r h) hs h l1 r1"
      and l1: "l1 = l \<or> (\<exists>s e. mt_collapse C l s e = Ok l1)"
      and r1: "r1 = r \<or> (\<exists>s e. mt_collapse C r s e = Ok r1)"
      by (rule mt_collapse_node_cases)
    have "mt_hides C l1 l'" using l1 "2.prems" "2.IH"(1) by auto
    moreover have "mt_hides C r1 r'" using r1 "2.prems" "2.IH"(2) by auto
    ultimately show ?thesis using join using "2.prems" mt_hides_digest [OF "2.prems"(1)]
      by (auto simp del: mt_digest.simps)
  qed
next
  case (3 C hs l r n h)
  show ?case
  proof (cases "s = 0 \<and> e = 2 ^ Suc n - 1")
    case True
    then show ?thesis using "3.prems" by auto
  next
    case False
    from "3.prems"(3) this obtain l1 r1 where join: "t' = mt_collapse_join C (Node hs l r (Suc n)) hs (Suc n) l1 r1"
      and l1: "l1 = l \<or> (\<exists>s e. mt_collapse C l s e = Ok l1)"
      and r1: "r1 = r \<or> (\<exists>s e. mt_collapse C r s e = Ok r1)"
      by (rule mt_collapse_node_cases)
    have "mt_hides C l1 (Stub n)" using l1 "3.prems" "3.IH"(1) by auto
    moreover have "mt_hides C r1 (Stub n)" using r1 "3.prems" "3.IH"(2) by auto
    ultimately show ?thesis using join "3.prems" by auto
  qed
qed (use mt_hides_collapse_stub in \<open>auto simp: mt_hides_refl\<close>)

section \<open>Sequences of operations\<close>

datatype ('h, 'a) tree_op = Update nat 'h 'a | Collapse nat nat | Rehash

fun tree_step :: "('h, 'f) mcrypto \<Rightarrow> ('h, 'f, 'a) mtree \<Rightarrow> ('h, 'a) tree_op \<Rightarrow>
    (invalid_update, ('h, 'f, 'a) mtree) outcome" where
  "tree_step C t (Update i x a) = mt_try_update_hash t i x a"
| "tree_step C t (Collapse s e) = mt_collapse C t s e"
| "tree_step C t Rehash = Ok (mt_rehash C t)"

fun op_admissible :: "nat \<Rightarrow> ('h, 'a) tree_op \<Rightarrow> bool" where
  "op_admissible h (Collapse s e) \<longleftrightarrow> admissible_range h s e"
| "op_admissible h _ \<longleftrightarrow> True"

fun leaf_step :: "(nat \<Rightarrow> ('h, 'a) cell) \<Rightarrow> ('h, 'a) tree_op \<Rightarrow> nat \<Rightarrow> ('h, 'a) cell" where
  "leaf_step c (Update i x a) = c(i := Filled x a)"
| "leaf_step c _ = c"

text \<open>The tree is a collapsed image of a full tree that holds exactly the leaves written.\<close>

definition tree_rel ::
  "('h, 'f) mcrypto \<Rightarrow> nat \<Rightarrow> ('h, 'f, 'a) mtree \<Rightarrow> (nat \<Rightarrow> ('h, 'a) cell) \<Rightarrow> bool" where
  "tree_rel C h t c \<longleftrightarrow> mt_wf t \<and> (\<exists>T. mt_hides C t T \<and> mt_exact C T \<and> mt_height T = h \<and>
     (\<forall>i < 2 ^ h. mt_cell T i = c i))"

lemma tree_rel_blank: "tree_rel C h (mt_blank h) (\<lambda>_. Vacant)"
  unfolding tree_rel_def mt_blank_def by (auto intro!: exI [of _ "Stub h"])

lemma tree_rel_digest:
  "tree_rel C h t c \<Longrightarrow> mt_digest C t = cells_digest C h c"
  unfolding tree_rel_def using mt_hides_digest mt_exact_digest cells_digest_cong by metis

lemma mt_update_wf_stub: "mt_try_update_hash (Stub h) i x a = Ok t' \<Longrightarrow> mt_wf t'"
  by (induction h arbitrary: i t')
    (auto simp: outcome_simps dest: mt_update_height_stub split: if_splits)

lemma mt_update_wf: "mt_try_update_hash t i x a = Ok t' \<Longrightarrow> mt_wf t \<Longrightarrow> mt_wf t'"
proof (induction t arbitrary: i t')
  case (Stub h)
  from Stub.prems(1) show ?case by (rule mt_update_wf_stub)
next
  case (Node hs l r h)
  then have "h = Suc (h - 1)" by auto
  with Node.prems have "mt_wf l" "mt_wf r" "mt_height l = h - 1" "mt_height r = h - 1"
    "Node hs l r h = Node hs l r (Suc (h - 1)) \<or>
     Node hs l r h = Stub (Suc (h - 1)) \<and> l = Stub (h - 1) \<and> r = Stub (h - 1)" by auto
  with Node.prems(1) show ?case
    by (rule mt_update_node_cases) (use Node in auto)
qed (auto split: if_splits)

lemma mt_rehash_wf: "mt_wf t \<Longrightarrow> mt_wf (mt_rehash C t)"
  by (induction C t rule: mt_rehash.induct) (auto simp: Let_def)

lemma tree_rel_step:
  assumes rel: "tree_rel C h t c" and adm: "op_admissible h op" and step: "tree_step C t op = Ok t'"
  shows "tree_rel C h t' (leaf_step c op)"
proof -
  obtain T where T: "mt_hides C t T" "mt_exact C T" "mt_height T = h" "\<forall>i < 2 ^ h. mt_cell T i = c i"
    and wf: "mt_wf t" using rel by (auto simp: tree_rel_def)
  have h: "mt_height t = h" using mt_hides_height [OF T(1)] T(3) by simp
  have wfT: "mt_wf T" using T(2) by (rule mt_exact_wf)
  show ?thesis
  proof (cases op)
    case (Update i x a)
    then have u: "mt_try_update_hash t i x a = Ok t'" using step by simp
    obtain T' where T': "mt_try_update_hash T i x a = Ok T'" "mt_hides C t' T'"
      using mt_hides_update [OF T(1) wf u] by blast
    have "mt_wf t'" using u wf by (rule mt_update_wf)
    moreover have "mt_exact C T'" using T'(1) T(2) by (rule mt_update_exact)
    moreover have "mt_height T' = h" using mt_update_height [OF T'(1) wfT] T(3) by simp
    moreover have "\<forall>j < 2 ^ h. mt_cell T' j = leaf_step c op j"
      using mt_update_cell [OF T'(1) wfT] T(3,4) Update by simp
    ultimately show ?thesis unfolding tree_rel_def using T'(2) by blast
  next
    case (Collapse s e)
    then have "mt_hides C t' T" using mt_hides_collapse [OF T(1) wf] step by simp
    moreover have "mt_wf t'"
      using mt_collapse_ok [OF wf, of s e C] Collapse adm step h by (auto simp: collapse_post_def)
    ultimately show ?thesis unfolding tree_rel_def using T Collapse by auto
  next
    case Rehash
    then have "t' = mt_rehash C t" using step by simp
    then have "mt_wf t'" "mt_hides C t' (mt_rehash C T)"
      using mt_rehash_wf [OF wf] mt_hides_rehash [OF T(1)] by simp_all
    moreover have "mt_exact C (mt_rehash C T)" using T(2) by (rule mt_rehash_exact)
    ultimately show ?thesis unfolding tree_rel_def using T Rehash
      by (auto intro!: exI [of _ "mt_rehash C T"])
  qed
qed

lemma tree_rel_run:
  "tree_rel C h t c \<Longrightarrow> list_all (op_admissible h) ops \<Longrightarrow> try_fold (tree_step C) t ops = Ok t' \<Longrightarrow>
   tree_rel C h t' (foldl leaf_step c ops)"
proof (induction ops arbitrary: t c)
  case (Cons op ops)
  then obtain t1 where t1: "tree_step C t op = Ok t1" "try_fold (tree_step C) t1 ops = Ok t'"
    by (auto simp: outcome_simps)
  have "tree_rel C h t1 (leaf_step c op)" using Cons.prems t1(1) by (auto intro: tree_rel_step)
  then show ?case using Cons.IH t1(2) Cons.prems(2) by simp
qed simp

section \<open>Appending leaves\<close>

text \<open>
  The contract the ledger states rely on: a partial array whose writable positions can be
  overwritten, one position at a time.
\<close>

locale leaf_array =
  fixes upd :: "'t \<Rightarrow> nat \<Rightarrow> 'v \<Rightarrow> ('e, 't) outcome"
    and look :: "'t \<Rightarrow> nat \<Rightarrow> 'v option"
    and capacity :: "'t \<Rightarrow> nat"
    and writable :: "'t \<Rightarrow> nat \<Rightarrow> bool"
    and inv :: "'t \<Rightarrow> bool"
  assumes upd_total: "inv t \<Longrightarrow> i < capacity t \<Longrightarrow> writable t i \<Longrightarrow> \<exists>t'. upd t i v = Ok t'"
    and upd_inv: "inv t \<Longrightarrow> upd t i v = Ok t' \<Longrightarrow> inv t'"
    and upd_capacity: "inv t \<Longrightarrow> upd t i v = Ok t' \<Longrightarrow> capacity t' = capacity t"
    and upd_look: "inv t \<Longrightarrow> upd t i v = Ok t' \<Longrightarrow> j < capacity t \<Longrightarrow>
      look t' j = (if j = i then Some v else look t j)"
    and upd_writable: "inv t \<Longrightarrow> upd t i v = Ok t' \<Longrightarrow> j < capacity t \<Longrightarrow>
      writable t' j \<longleftrightarrow> j = i \<or> writable t j"
begin

lemma append_all:
  "inv t \<Longrightarrow> k + length vs \<le> capacity t \<Longrightarrow> (\<And>i. k \<le> i \<Longrightarrow> i < k + length vs \<Longrightarrow> writable t i) \<Longrightarrow>
   \<exists>t'. try_fold (\<lambda>t (i, v). upd t i v) t (enumerate k vs) = Ok t' \<and> inv t' \<and> capacity t' = capacity t \<and>
     (\<forall>j < capacity t. look t' j = (if k \<le> j \<and> j < k + length vs then Some (vs ! (j - k)) else look t j)) \<and>
     (\<forall>j < capacity t. writable t j \<longrightarrow> writable t' j)"
proof (induction vs arbitrary: t k)
  case (Cons v vs)
  obtain t1 where t1: "upd t k v = Ok t1" using upd_total [of t k v] Cons.prems by auto
  note step = upd_inv [OF Cons.prems(1) t1] upd_capacity [OF Cons.prems(1) t1]
  have "writable t1 i" if "Suc k \<le> i" "i < Suc k + length vs" for i
    using upd_writable [OF Cons.prems(1) t1, of i] Cons.prems(2,3) that by simp
  then obtain t' where t': "try_fold (\<lambda>t (i, v). upd t i v) t1 (enumerate (Suc k) vs) = Ok t'" "inv t'"
    "capacity t' = capacity t1"
    "\<forall>j < capacity t1. look t' j =
        (if Suc k \<le> j \<and> j < Suc k + length vs then Some (vs ! (j - Suc k)) else look t1 j)"
    "\<forall>j < capacity t1. writable t1 j \<longrightarrow> writable t' j"
    using Cons.IH [of t1 "Suc k"] step Cons.prems by auto
  have "look t' j = (if k \<le> j \<and> j < k + length (v # vs) then Some ((v # vs) ! (j - k)) else look t j)"
    if j: "j < capacity t" for j
  proof (cases "j = k")
    case False
    then show ?thesis
      using t'(4) step j upd_look [OF Cons.prems(1) t1 j] by (auto simp: nth_Cons')
  qed (use t'(4) step j upd_look [OF Cons.prems(1) t1 j] in auto)
  moreover have "\<forall>j < capacity t. writable t j \<longrightarrow> writable t' j"
    using t'(5) step upd_writable [OF Cons.prems(1) t1] by auto
  ultimately show ?case using t' t1 step by auto
qed auto

end

interpretation mt: leaf_array "\<lambda>t i v. mt_try_update_hash t i (fst v) (snd v)" mt_index
  "\<lambda>t. 2 ^ mt_height t" "\<lambda>t i. mt_cell t i \<noteq> Hidden" "mt_wf :: ('h, 'f, 'a) mtree \<Rightarrow> bool"
proof
  fix t t' :: "('h, 'f, 'a) mtree" and i j :: nat and v :: "'h \<times> 'a"
  show "mt_wf t \<Longrightarrow> i < 2 ^ mt_height t \<Longrightarrow> mt_cell t i \<noteq> Hidden \<Longrightarrow>
      \<exists>t' :: ('h, 'f, 'a) mtree. mt_try_update_hash t i (fst v) (snd v) = Ok t'"
    using mt_update_ok_iff [of t i "fst v" "snd v"] by simp
  assume wf: "mt_wf t" and u: "mt_try_update_hash t i (fst v) (snd v) = Ok t'"
  show "mt_wf t'" using u wf by (rule mt_update_wf)
  show "2 ^ mt_height t' = (2::nat) ^ mt_height t" using mt_update_height [OF u wf] by simp
  assume "j < 2 ^ mt_height t"
  then show "mt_index t' j = (if j = i then Some v else mt_index t j)"
    and "mt_cell t' j \<noteq> Hidden \<longleftrightarrow> j = i \<or> mt_cell t j \<noteq> Hidden"
    using mt_update_cell [OF u wf] by (auto simp: mt_index_cell)
qed

section \<open>Properties\<close>

text \<open>Property C9. The Merkle root is a function of the leaves alone. Whatever sequence of
  updates, collapses (of ranges inside the tree) and rehashes is run on a blank tree, the root
  after a rehash is the digest of the array of leaves written, computed without the tree.\<close>

theorem merkle_root_of_leaves:
  assumes "list_all (op_admissible h) ops"
    and "try_fold (tree_step C) (mt_blank h) ops = Ok t"
  shows "mt_root C (mt_rehash C t) = Some (cells_digest C h (foldl leaf_step (\<lambda>_. Vacant) ops))"
  using tree_rel_digest [OF tree_rel_run [OF tree_rel_blank assms]] by simp

definition toy_crypto :: "(nat, nat) mcrypto" where
  "toy_crypto = \<lparr>transient_hash = (\<lambda>l r. 3 * l + 5 * r + 1), hash_bytes = (\<lambda>x. [x]), fr_from_le_bytes = sum_list, fr_default = 0\<rparr>"

lemma toy_simps [simp]:
  "transient_hash toy_crypto l r = 3 * l + 5 * r + 1" "degrade_to_transient toy_crypto x = x" "fr_default toy_crypto = 0"
  by (simp_all add: toy_crypto_def degrade_to_transient_def fr_bytes_stored_def)

abbreviation toy_ops :: "(nat, unit) tree_op list" where
  "toy_ops \<equiv> [Update 0 3 (), Update (Suc 0) 3 (), Collapse 0 (Suc 0), Update 2 7 ()]"

abbreviation toy_tree :: "(nat, nat, unit) mtree" where
  "toy_tree \<equiv> Node None (Collapsed 25 (Suc 0)) (Node None (Leaf 7 ()) (Stub 0) (Suc 0)) (Suc (Suc 0))"

lemma toy_run: "try_fold (tree_step toy_crypto) (mt_blank (Suc (Suc 0))) toy_ops = Ok toy_tree"
  by (simp add: mt_blank_def toy_simps del: mt_rehash.simps)

theorem merkle_root_of_leaves_witness:
  "mt_root toy_crypto (mt_rehash toy_crypto toy_tree) =
     Some (cells_digest toy_crypto (Suc (Suc 0)) (foldl leaf_step (\<lambda>_. Vacant) toy_ops))"
  by (rule merkle_root_of_leaves [OF _ toy_run]) (simp add: admissible_range_def)

text \<open>Property C13. \<open>collapse\<close> of a range inside the tree returns (no panic), keeps the storage
  invariant, the height and the root, hides exactly the leaves of the range and leaves every other
  leaf as it was.\<close>

theorem merkle_collapse_correct:
  assumes "mt_inv C t" and "s < 2 ^ mt_height t" and "e < 2 ^ mt_height t" and "s \<le> Suc e"
  shows "\<exists>t'. mt_collapse C t s e = Ok t' \<and> mt_inv C t' \<and> mt_height t' = mt_height t \<and>
    mt_root C (mt_rehash C t') = mt_root C (mt_rehash C t) \<and>
    (\<forall>i < 2 ^ mt_height t. mt_index t' i = (if s \<le> i \<and> i \<le> e then None else mt_index t i)) \<and>
    (\<forall>i < 2 ^ mt_height t. \<forall>x a. (\<exists>t''. mt_try_update_hash t' i x a = Ok t'') \<longleftrightarrow>
       \<not> (s \<le> i \<and> i \<le> e) \<and> (\<exists>t''. mt_try_update_hash t i x a = Ok t''))"
proof -
  have wf: "mt_wf t" using assms(1) by (rule mt_inv_wf)
  then obtain t' where t': "mt_collapse C t s e = Ok t'" "collapse_post C t (\<lambda>i. s \<le> i \<and> i \<le> e) t'"
    using mt_collapse_ok [OF wf, of s e C] assms by (auto simp: admissible_range_def)
  moreover have "mt_wf t'" using t'(2) by (simp add: collapse_post_def)
  ultimately show ?thesis
    using assms(1) wf by (auto simp: collapse_post_def mt_index_cell mt_update_ok_iff)
qed

theorem merkle_collapse_correct_witness:
  "\<exists>t'. mt_collapse toy_crypto toy_tree 2 3 = Ok t' \<and>
     mt_root toy_crypto (mt_rehash toy_crypto t') = mt_root toy_crypto (mt_rehash toy_crypto toy_tree)"
  using merkle_collapse_correct [of toy_crypto toy_tree 2 3] by auto

text \<open>Property C14. \<open>try_update_hash\<close> succeeds exactly on the positions of the tree that are
  not collapsed; it keeps the storage invariant and the height, the position then reads the new
  leaf, and every other position reads as before.\<close>

theorem merkle_update_correct:
  assumes "mt_inv C t"
  shows "((\<exists>t'. mt_try_update_hash t i x a = Ok t') \<longleftrightarrow> i < 2 ^ mt_height t \<and> mt_cell t i \<noteq> Hidden) \<and>
    mt_try_update_hash t i x a \<noteq> Panic \<and>
    (\<forall>t'. mt_try_update_hash t i x a = Ok t' \<longrightarrow> mt_inv C t' \<and> mt_height t' = mt_height t \<and>
      (\<forall>j < 2 ^ mt_height t. mt_index t' j = (if j = i then Some (x, a) else mt_index t j)))"
proof (intro conjI allI impI)
  have wf: "mt_wf t" using assms by (rule mt_inv_wf)
  show "(\<exists>t'. mt_try_update_hash t i x a = Ok t') \<longleftrightarrow> i < 2 ^ mt_height t \<and> mt_cell t i \<noteq> Hidden"
    using wf by (rule mt_update_ok_iff)
  show "mt_try_update_hash t i x a \<noteq> Panic" by (rule mt_update_no_panic)
  fix t' assume u: "mt_try_update_hash t i x a = Ok t'"
  show "mt_inv C t'" using u assms by (rule mt_update_inv)
  show "mt_height t' = mt_height t" using u wf by (rule mt_update_height)
  show "mt_index t' j = (if j = i then Some (x, a) else mt_index t j)" if "j < 2 ^ mt_height t" for j
    using mt_update_cell [OF u wf that] by (simp add: mt_index_cell)
qed

theorem merkle_update_correct_witness:
  "mt_inv toy_crypto (Node None (Node None (Leaf 3 ()) (Stub 0) (Suc 0)) (Stub (Suc 0)) (Suc (Suc 0)))"
  using merkle_update_correct [of toy_crypto "Stub (Suc (Suc 0))" 0 3 "()"] by simp

text \<open>Appending: writing a list of leaves at consecutive free positions, which is
  how the ledger fills its commitment trees, succeeds as long as they fit, and afterwards the
  positions read exactly the list while all others are unchanged.\<close>

theorem merkle_append_leaves:
  assumes "mt_wf t" and "k + length vs \<le> 2 ^ mt_height t"
    and "\<And>i. k \<le> i \<Longrightarrow> i < k + length vs \<Longrightarrow> mt_cell t i \<noteq> Hidden"
  shows "\<exists>t'. try_fold (\<lambda>t (i, v). mt_try_update_hash t i (fst v) (snd v)) t (enumerate k vs) = Ok t' \<and>
    mt_wf t' \<and> mt_height t' = mt_height t \<and>
    (\<forall>j < 2 ^ mt_height t. mt_index t' j =
       (if k \<le> j \<and> j < k + length vs then Some (vs ! (j - k)) else mt_index t j))"
  using mt.append_all [of t k vs] assms by auto

theorem merkle_append_leaves_witness:
  "\<exists>t'. try_fold (\<lambda>t (i, v). mt_try_update_hash t i (fst v) (snd v)) (mt_blank 2)
      (enumerate 1 [(3::nat, ()), (7, ())]) = Ok t' \<and> mt_index t' 2 = Some (7, ())"
  using merkle_append_leaves [of "mt_blank 2" 1 "[(3::nat, ()), (7, ())]"]
  by (auto simp: mt_blank_def)

end
