(* ===== verification/Merkle_Paths.thy ===== *)
theory Merkle_Paths
  imports Merkle_Refinement
begin

text \<open>
  \<open>transient-crypto/src/merkle_tree.rs\<close>, continued: ranges and the search for leaves, membership
  paths, and insertion evidence.

  \<^item> \<open>leaves_in_range\<close> lists the leaves of a range in order;
  \<^item> \<open>path_for_leaf\<close> produces a path that verifies (completeness), and a path that verifies
    points at a leaf of the tree when the hash has no collisions (soundness);
  \<^item> evidence of an insertion replays against a collapsed tree.

  \<open>persistent_hash\<close> (SHA-256) and the byte representation of a leaf are parameters of \<open>leaf_hash\<close>.
\<close>

section \<open>Ranges\<close>

datatype bound = Included nat | Excluded nat | Unbounded

type_synonym bounds = "bound \<times> bound"

fun range_force_inclusive :: "bounds \<Rightarrow> (nat \<times> nat) option" where
  "range_force_inclusive (lo, hi) =
     Option.bind (case lo of Unbounded \<Rightarrow> Some 0 | Included n \<Rightarrow> Some n
        | Excluded n \<Rightarrow> if n = u64_max then None else Some (n + 1))
       (\<lambda>s. Option.bind (case hi of Unbounded \<Rightarrow> Some u64_max | Included n \<Rightarrow> Some n
          | Excluded n \<Rightarrow> if n = 0 then None else Some (n - 1))
         (\<lambda>e. Some (s, e)))"

definition range_empty :: "bounds \<Rightarrow> bool" where
  "range_empty r = (case range_force_inclusive r of Some (s, e) \<Rightarrow> s > e | None \<Rightarrow> True)"

fun range_sub :: "bounds \<Rightarrow> nat \<Rightarrow> bounds option" where
  "range_sub (lo, hi) sub =
     (let start = (case lo of Unbounded \<Rightarrow> Unbounded
          | Included n \<Rightarrow> (case checked_sub n sub of Some m \<Rightarrow> Included m | None \<Rightarrow> Unbounded)
          | Excluded n \<Rightarrow> (case checked_sub n sub of Some m \<Rightarrow> Excluded m | None \<Rightarrow> Unbounded))
      in Option.bind (case hi of Unbounded \<Rightarrow> Some Unbounded
           | Included n \<Rightarrow> map_option Included (checked_sub n sub)
           | Excluded n \<Rightarrow> map_option Excluded (checked_sub n sub))
         (\<lambda>end. if range_empty (start, end) then None else Some (start, end)))"

definition overlap :: "bounds \<Rightarrow> bounds \<Rightarrow> (nat \<times> nat) option" where
  "overlap a b = Option.bind (range_force_inclusive a) (\<lambda>(as, ae).
     Option.bind (range_force_inclusive b) (\<lambda>(bs, be).
       let s = max as bs; e = min ae be in if s \<le> e then Some (s, e) else None))"

text \<open>\<open>RangeBounds::contains\<close> of the standard library.\<close>

fun range_contains :: "bounds \<Rightarrow> nat \<Rightarrow> bool" where
  "range_contains (lo, hi) i \<longleftrightarrow>
     (case lo of Unbounded \<Rightarrow> True | Included n \<Rightarrow> n \<le> i | Excluded n \<Rightarrow> n < i) \<and>
     (case hi of Unbounded \<Rightarrow> True | Included n \<Rightarrow> i \<le> n | Excluded n \<Rightarrow> i < n)"

lemma range_force_inclusive_spec:
  "i \<le> u64_max \<Longrightarrow> range_contains r i \<longleftrightarrow>
     (case range_force_inclusive r of Some (s, e) \<Rightarrow> s \<le> i \<and> i \<le> e | None \<Rightarrow> False)"
  by (cases r) (auto split: bound.splits)

lemma range_sub_spec:
  assumes "j + sub \<le> u64_max"
  shows "range_contains r (j + sub) \<longleftrightarrow>
    (case range_sub r sub of Some r' \<Rightarrow> range_contains r' j | None \<Rightarrow> False)"
proof -
  obtain lo hi where r: "r = (lo, hi)" by (cases r)
  have j: "j \<le> u64_max" using assms by simp
  have empty: "\<not> range_contains q j" if "range_empty q" for q
    using that range_force_inclusive_spec [OF j, of q]
    by (auto simp: range_empty_def split: option.splits)
  have drop: "(case Option.bind E (\<lambda>e. if range_empty (S, e) then None else Some (S, e)) of
      Some q \<Rightarrow> range_contains q j | None \<Rightarrow> False) =
      (case E of Some e \<Rightarrow> range_contains (S, e) j | None \<Rightarrow> False)" for S E
    using empty by (cases E) auto
  show ?thesis
    unfolding r range_sub.simps Let_def drop
    by (cases lo; cases hi) (auto simp: checked_sub_def)
qed

section \<open>Listing the leaves\<close>

datatype ('h, 'a) leaf_or_collapsed = LeafAt nat 'h 'a | CollapsedRange nat nat

fun loc_upgrade :: "nat \<Rightarrow> ('h, 'a) leaf_or_collapsed \<Rightarrow> ('h, 'a) leaf_or_collapsed" where
  "loc_upgrade k (LeafAt i x a) = LeafAt (i + k) x a"
| "loc_upgrade k (CollapsedRange s e) = CollapsedRange (s + k) (e + k)"

fun leaves_in_range :: "('h, 'f, 'a) mtree \<Rightarrow> bounds \<Rightarrow> ('h, 'a) leaf_or_collapsed list" where
  "leaves_in_range (Leaf x a) r = (if range_contains r 0 then [LeafAt 0 x a] else [])"
| "leaves_in_range (Stub h) r = []"
| "leaves_in_range (Collapsed f h) r =
     (case overlap r (Included 0, Excluded (2 ^ h)) of
        Some (s, e) \<Rightarrow> [CollapsedRange s e] | None \<Rightarrow> [])"
| "leaves_in_range (Node hs l ri h) r = leaves_in_range l r @
     (case range_sub r (2 ^ mt_height l) of None \<Rightarrow> []
      | Some r' \<Rightarrow> map (loc_upgrade (2 ^ mt_height l)) (leaves_in_range ri r'))"

fun loc_leaf :: "('h, 'a) leaf_or_collapsed \<Rightarrow> (nat \<times> 'h \<times> 'a) option" where
  "loc_leaf (LeafAt i x a) = Some (i, x, a)"
| "loc_leaf (CollapsedRange s e) = None"

definition mt_leaves :: "('h, 'f, 'a) mtree \<Rightarrow> ('h, 'a) leaf_or_collapsed list" where
  "mt_leaves t = leaves_in_range t (Unbounded, Unbounded)"

definition mt_iter_aux :: "('h, 'f, 'a) mtree \<Rightarrow> (nat \<times> 'h \<times> 'a) list" where
  "mt_iter_aux t = List.map_filter loc_leaf (mt_leaves t)"

definition mt_iter :: "('h, 'f, 'a) mtree \<Rightarrow> (nat \<times> 'h) list" where
  "mt_iter t = List.map_filter (\<lambda>l. map_option (\<lambda>(i, x, a). (i, x)) (loc_leaf l)) (mt_leaves t)"

text \<open>The specification: the filled cells of the range, from left to right.\<close>

fun cell_entry :: "nat \<Rightarrow> ('h, 'a) cell \<Rightarrow> (nat \<times> 'h \<times> 'a) list" where
  "cell_entry i (Filled x a) = [(i, x, a)]"
| "cell_entry i _ = []"

lemma cell_entry_value:
  "cell_entry i c = (case cell_value c of Some (x, a) \<Rightarrow> [(i, x, a)] | None \<Rightarrow> [])"
  by (cases c) auto

definition cells_in_range ::
  "(nat \<Rightarrow> ('h, 'a) cell) \<Rightarrow> nat \<Rightarrow> bounds \<Rightarrow> (nat \<times> 'h \<times> 'a) list" where
  "cells_in_range c n r = concat (map (\<lambda>i. cell_entry i (c i)) (filter (range_contains r) [0..<n]))"

lemma cells_in_range_cong:
  assumes "\<And>i. i < n \<Longrightarrow> c i = d i" and "\<And>i. i < n \<Longrightarrow> range_contains r i = range_contains q i"
  shows "cells_in_range c n r = cells_in_range d n q"
proof -
  have "filter (range_contains r) [0..<n] = filter (range_contains q) [0..<n]"
    by (rule filter_cong) (use assms in auto)
  then show ?thesis unfolding cells_in_range_def
    by (auto intro!: arg_cong [where f = concat] map_cong simp: assms(1))
qed

lemma cells_in_range_none:
  "(\<And>i. i < n \<Longrightarrow> range_contains r i \<Longrightarrow> cell_entry i (c i) = []) \<Longrightarrow> cells_in_range c n r = []"
  unfolding cells_in_range_def by auto

lemma map_upt_shift: "map (\<lambda>i. i + n) [0..<m] = [n..<n + m]"
  by (induction m) (auto simp: add.commute)

lemma cells_in_range_append:
  "cells_in_range c (n + m) r = cells_in_range c n r @
     concat (map (\<lambda>i. cell_entry (i + n) (c (i + n))) (filter (\<lambda>i. range_contains r (i + n)) [0..<m]))"
proof -
  have "[0..<n + m] = [0..<n] @ map (\<lambda>i. i + n) [0..<m]"
    using upt_add_eq_append [of 0 n m] by (simp add: map_upt_shift)
  then show ?thesis by (simp add: cells_in_range_def filter_map comp_def)
qed

lemma loc_leaf_upgrade:
  "loc_leaf (loc_upgrade k l) = map_option (\<lambda>(i, y). (i + k, y)) (loc_leaf l)"
  by (cases l) auto

lemma cell_entry_shift: "map (\<lambda>(i, y). (i + k, y)) (cell_entry j c) = cell_entry (j + k) c"
  by (cases c) auto

lemma map_filter_loc_upgrade:
  "List.map_filter loc_leaf (map (loc_upgrade k) ls) =
     map (\<lambda>(i, y). (i + k, y)) (List.map_filter loc_leaf ls)"
  by (induction ls) (auto simp: List.map_filter_def loc_leaf_upgrade)

lemma map_filter_append: "List.map_filter f (xs @ ys) = List.map_filter f xs @ List.map_filter f ys"
  by (simp add: List.map_filter_def)

lemma leaves_in_range_spec:
  "mt_wf t \<Longrightarrow> 2 ^ mt_height t \<le> Suc u64_max \<Longrightarrow>
   List.map_filter loc_leaf (leaves_in_range t r) = cells_in_range (mt_cell t) (2 ^ mt_height t) r"
proof (induction t arbitrary: r)
  case (Leaf x a)
  then show ?case by (simp add: cells_in_range_def List.map_filter_def)
next
  case (Stub h)
  then show ?case by (simp add: cells_in_range_def List.map_filter_def)
next
  case (Collapsed f h)
  then show ?case
    by (auto simp: cells_in_range_def List.map_filter_def split: option.splits)
next
  case (Node hs l ri h)
  then obtain n where n: "h = Suc n" "mt_height l = n" "mt_height ri = n" "mt_wf l" "mt_wf ri"
    by (cases h) auto
  have small: "2 ^ n \<le> Suc u64_max" "2 ^ n + 2 ^ n \<le> Suc u64_max" using Node.prems n by auto
  have left: "cells_in_range (mt_cell (Node hs l ri h)) (2 ^ n) r = cells_in_range (mt_cell l) (2 ^ n) r"
    by (rule cells_in_range_cong) (use n in auto)
  have right: "concat (map (\<lambda>i. cell_entry (i + 2 ^ n) (mt_cell (Node hs l ri h) (i + 2 ^ n)))
        (filter (\<lambda>i. range_contains r (i + 2 ^ n)) [0..<2 ^ n])) =
      List.map_filter loc_leaf (case range_sub r (2 ^ n) of None \<Rightarrow> []
        | Some r' \<Rightarrow> map (loc_upgrade (2 ^ n)) (leaves_in_range ri r'))"
  proof (cases "range_sub r (2 ^ n)")
    case None
    then have "\<not> range_contains r (i + 2 ^ n)" if "i < 2 ^ n" for i
      using range_sub_spec [of i "2 ^ n" r] that small by simp
    then show ?thesis using None by (auto simp: List.map_filter_def)
  next
    case (Some r')
    have "filter (\<lambda>i. range_contains r (i + 2 ^ n)) [0..<2 ^ n] = filter (range_contains r') [0..<2 ^ n]"
      by (rule filter_cong) (use range_sub_spec [of _ "2 ^ n" r] Some small in auto)
    then show ?thesis
      using Some n small Node.IH(2) [of r']
      by (simp add: map_filter_loc_upgrade cells_in_range_def map_concat comp_def cell_entry_shift)
  qed
  have "cells_in_range (mt_cell (Node hs l ri h)) (2 ^ n + 2 ^ n) r =
      List.map_filter loc_leaf (leaves_in_range (Node hs l ri h) r)"
    unfolding cells_in_range_append left right leaves_in_range.simps n(2) map_filter_append
    using n small Node.IH(1) [of r] by simp
  then show ?case using n(1) by (simp add: mult_2 del: leaves_in_range.simps mt_cell.simps)
qed

section \<open>Membership paths\<close>

record ('l, 'f) merkle_path =
  mp_leaf :: 'l
  mp_path :: "'f path_entry list"

record ('h, 'f, 'a) tree_insertion_path =
  tip_leaf :: "'h \<times> 'a"
  tip_path :: "'f insertion_entry list"

text \<open>\<open>LEAF_HASH_DOMAIN_SEP = b"mdn:lh"\<close>.\<close>

definition leaf_hash_domain_sep :: "nat list" where
  "leaf_hash_domain_sep = [109, 100, 110, 58, 108, 104]"

definition leaf_hash :: "(nat list \<Rightarrow> 'h) \<Rightarrow> ('l \<Rightarrow> nat list) \<Rightarrow> 'l \<Rightarrow> 'h" where
  "leaf_hash persistent_hash binary_repr v = persistent_hash (leaf_hash_domain_sep @ binary_repr v)"

definition merkle_path_root :: "('h, 'f) mcrypto \<Rightarrow> ('l \<Rightarrow> 'h) \<Rightarrow> ('l, 'f) merkle_path \<Rightarrow> 'f" where
  "merkle_path_root C lh p = fold (\<lambda>e acc.
       if pe_goes_left e then transient_hash C acc (pe_sibling e) else transient_hash C (pe_sibling e) acc)
     (mp_path p) (degrade_to_transient C (lh (mp_leaf p)))"

text \<open>The loop of \<open>path_for_index_internal\<close>, from the node \<open>at\<close> down, and its last step at
  height one.\<close>

fun path_walk :: "('h, 'f) mcrypto \<Rightarrow> bool \<Rightarrow> nat \<Rightarrow> ('h, 'f, 'a) mtree \<Rightarrow> nat \<Rightarrow>
    (invalid_index, 'f option list \<times> bool list) outcome" where
  "path_walk C siblings index (Leaf x a) i =
     (if siblings then Panic else Ok ([mt_root C (Leaf x a)], [i = 0]))"
| "path_walk C siblings index (Stub h) i = Err (InvalidIndex index)"
| "path_walk C siblings index (Collapsed f h) i =
     (if h > 1 then Err (InvalidIndex index)
      else if siblings then Panic else Ok ([Some f], [i = 0]))"
| "path_walk C siblings index (Node hs l r h) i =
     (if h > 1 then
        let cmp = 2 ^ (h - 1) in
        if i < cmp
        then obind (path_walk C siblings index l i)
               (\<lambda>(p, g). Ok ((if siblings then mt_root C r else hs) # p, True # g))
        else obind (path_walk C siblings index r (i - cmp))
               (\<lambda>(p, g). Ok ((if siblings then mt_root C l else hs) # p, False # g))
      else if \<not> siblings then Ok ([hs], [i = 0])
      else if i = 0 then Ok ([mt_root C r], [True])
      else if i = 1 then Ok ([mt_root C l], [False])
      else Panic)"

definition path_for_index_internal :: "('h, 'f) mcrypto \<Rightarrow> ('h, 'f, 'a) mtree \<Rightarrow> nat \<Rightarrow> bool \<Rightarrow>
    (invalid_index, 'f option list \<times> bool list) outcome" where
  "path_for_index_internal C t index siblings =
     (if mt_height t \<ge> 1 then path_walk C siblings index t index else Panic)"

definition path_for_leaf :: "('h, 'f) mcrypto \<Rightarrow> ('h, 'f, 'a) mtree \<Rightarrow> nat \<Rightarrow> 'l \<Rightarrow>
    (invalid_index, ('l, 'f) merkle_path) outcome" where
  "path_for_leaf C t index leaf =
     (if mt_height t = 0 then
        (if index = 0 then Ok \<lparr>mp_leaf = leaf, mp_path = []\<rparr> else Err (InvalidIndex index))
      else obind (path_for_index_internal C t index True) (\<lambda>(path, lefts).
        obind (collect_results (rev (map (\<lambda>(sibling, goes_left).
            obind (ok_or sibling (InvalidIndex index)) (\<lambda>s.
              Ok \<lparr>pe_sibling = s, pe_goes_left = goes_left\<rparr>)) (zip path lefts))))
          (\<lambda>es. Ok \<lparr>mp_leaf = leaf, mp_path = es\<rparr>)))"

definition insertion_evidence :: "('h, 'f) mcrypto \<Rightarrow> ('h, 'f, 'a) mtree \<Rightarrow> nat \<Rightarrow>
    (invalid_index, ('h, 'f, 'a) tree_insertion_path) outcome" where
  "insertion_evidence C t index =
     (if mt_height t = 0 then Err (InvalidIndex index)
      else obind (path_for_index_internal C t index False) (\<lambda>(path, lefts).
        obind (ok_or (mt_index t index) (InvalidIndex index)) (\<lambda>leaf.
          Ok \<lparr>tip_leaf = leaf,
             tip_path = rev (map (\<lambda>(h, g). \<lparr>ie_hash = h, ie_goes_left = g\<rparr>) (zip path lefts))\<rparr>)))"

definition update_from_evidence :: "('h, 'f) mcrypto \<Rightarrow> ('h, 'f, 'a) mtree \<Rightarrow>
    ('h, 'f, 'a) tree_insertion_path \<Rightarrow> (invalid_update, ('h, 'f, 'a) mtree) outcome" where
  "update_from_evidence C t ins = mt_update_from_evidence_internal C t (tip_leaf ins) (tip_path ins)"

text \<open>\<open>find_path_for_leaf_inner\<close>: the first leaf of the range with the hash; \<open>.ok()\<close> turns an
  error into \<open>None\<close>.\<close>

fun find_path_loop :: "('h, 'f) mcrypto \<Rightarrow> ('h, 'f, 'a) mtree \<Rightarrow> 'h \<Rightarrow> 'l \<Rightarrow> (nat \<times> 'h) list \<Rightarrow>
    (invalid_index, ('l, 'f) merkle_path option) outcome" where
  "find_path_loop C t lh leaf [] = Ok None"
| "find_path_loop C t lh leaf ((index, hash) # rest) =
     (if lh = hash then
        (case path_for_leaf C t index leaf of Ok p \<Rightarrow> Ok (Some p) | Err _ \<Rightarrow> Ok None | Panic \<Rightarrow> Panic)
      else find_path_loop C t lh leaf rest)"

definition find_path_for_leaf_inner :: "('h, 'f) mcrypto \<Rightarrow> ('h, 'f, 'a) mtree \<Rightarrow> 'h \<Rightarrow> 'l \<Rightarrow> bounds \<Rightarrow>
    (invalid_index, ('l, 'f) merkle_path option) outcome" where
  "find_path_for_leaf_inner C t lh leaf rng = find_path_loop C t lh leaf
     (List.map_filter (\<lambda>l. map_option (\<lambda>(i, x, a). (i, x)) (loc_leaf l)) (leaves_in_range t rng))"

subsection \<open>Completeness\<close>

text \<open>The digest a top-down path leads to.\<close>

definition path_digest :: "('h, 'f) mcrypto \<Rightarrow> ('f \<times> bool) list \<Rightarrow> 'f \<Rightarrow> 'f" where
  "path_digest C zs = foldr (\<lambda>(s, g) acc. if g then transient_hash C acc s else transient_hash C s acc) zs"

lemma path_digest_simps [simp]:
  "path_digest C [] d = d"
  "path_digest C ((s, g) # zs) d =
     (if g then transient_hash C (path_digest C zs d) s else transient_hash C s (path_digest C zs d))"
  by (simp_all add: path_digest_def)

lemma merkle_path_root_digest:
  "merkle_path_root C lh \<lparr>mp_leaf = leaf, mp_path = rev (map (\<lambda>(s, g). \<lparr>pe_sibling = s, pe_goes_left = g\<rparr>) zs)\<rparr> =
     path_digest C zs (degrade_to_transient C (lh leaf))"
  unfolding merkle_path_root_def by (induction zs) auto

lemma mt_vacant_cell: "mt_vacant C t \<Longrightarrow> mt_cell t i \<noteq> Filled x a"
  by (induction t arbitrary: i) auto

lemma path_walk_verifies:
  "mt_inv C t \<Longrightarrow> mt_hash_ok C t \<Longrightarrow> mt_root C t \<noteq> None \<Longrightarrow> 1 \<le> mt_height t \<Longrightarrow> i < 2 ^ mt_height t \<Longrightarrow>
   mt_cell t i = Filled x a \<Longrightarrow>
   \<exists>zs. path_walk C True index t i = Ok (map (\<lambda>z. Some (fst z)) zs, map snd zs) \<and> length zs = mt_height t \<and>
     path_digest C zs (degrade_to_transient C x) = mt_digest C t"
proof (induction t arbitrary: i)
  case (Node hs l r h)
  then obtain n f where n: "h = Suc n" "mt_height l = n" "mt_height r = n" "hs = Some f" by (cases h) auto
  from Node.prems n obtain dl dr where roots: "mt_root C l = Some dl" "mt_root C r = Some dr" by auto
  have digs: "mt_digest C l = dl" "mt_digest C r = dr" using roots by (simp_all add: mt_root_digest)
  have child: "mt_inv C l" "mt_inv C r" "mt_hash_ok C l" "mt_hash_ok C r" using Node.prems by auto
  have f: "f = transient_hash C dl dr"
    using Node.prems n digs mt_vacant_cell [of C l i x a] mt_vacant_cell [of C r "i - 2 ^ n" x a]
    by (auto split: if_splits)
  have leaf: "mt_inv C t \<Longrightarrow> mt_height t = 0 \<Longrightarrow> mt_cell t j = Filled x a \<Longrightarrow>
      mt_digest C t = degrade_to_transient C x" for t :: "('a, 'b, 'c) mtree" and j
    by (cases t) auto
  note sub = leaf [OF child(1)] leaf [OF child(2)]
  show ?case
  proof (cases n)
    case 0
    then have h: "h = Suc 0" "i < 2" and cell: "(if i < 1 then mt_cell l i else mt_cell r (i - 1)) = Filled x a"
      using n Node.prems by auto
    show ?thesis
    proof (cases "i = 0")
      case True
      then have "dl = degrade_to_transient C x" using sub(1) [of 0] cell n 0 digs by simp
      then show ?thesis using True h n roots f by (intro exI [of _ "[(dr, True)]"]) simp
    next
      case False
      then have "i = 1" using h by simp
      then have "dr = degrade_to_transient C x" using sub(2) [of 0] cell n 0 digs by simp
      then show ?thesis using \<open>i = 1\<close> h n roots f by (intro exI [of _ "[(dl, False)]"]) simp
    qed
  next
    case (Suc m)
    then have big: "1 < h" "1 \<le> n" using n by auto
    show ?thesis
    proof (cases "i < 2 ^ n")
      case True
      then have "mt_cell l i = Filled x a" using Node.prems n by simp
      with Node.IH(1) [of i] obtain zs where "path_walk C True index l i = Ok (map (\<lambda>z. Some (fst z)) zs, map snd zs)"
        "length zs = n" "path_digest C zs (degrade_to_transient C x) = dl"
        using child roots digs n True big by auto
      then show ?thesis using n big True roots f
        by (auto intro!: exI [of _ "(dr, True) # zs"] simp: Let_def)
    next
      case False
      then have "mt_cell r (i - 2 ^ n) = Filled x a" "i - 2 ^ n < 2 ^ n" using Node.prems n by auto
      with Node.IH(2) [of "i - 2 ^ n"] obtain zs where
        "path_walk C True index r (i - 2 ^ n) = Ok (map (\<lambda>z. Some (fst z)) zs, map snd zs)"
        "length zs = n" "path_digest C zs (degrade_to_transient C x) = dr"
        using child roots digs n big by auto
      then show ?thesis using n big False roots f
        by (auto intro!: exI [of _ "(dl, False) # zs"] simp: Let_def)
    qed
  qed
qed (auto split: if_splits)

lemma path_entries_Ok:
  "rev (map (\<lambda>(sibling, goes_left). obind (ok_or sibling (InvalidIndex index))
      (\<lambda>s. Ok \<lparr>pe_sibling = s, pe_goes_left = goes_left\<rparr>)) (zip (map (\<lambda>z. Some (fst z)) zs) (map snd zs))) =
   map Ok (rev (map (\<lambda>(s, g). \<lparr>pe_sibling = s, pe_goes_left = g\<rparr>) zs))"
  by (induction zs) auto

lemma path_for_leaf_verifies:
  assumes "mt_inv C t" "mt_hash_ok C t" "mt_root C t = Some d" "i < 2 ^ mt_height t"
    and cell: "mt_cell t i = Filled (lh leaf) a"
  shows "\<exists>p. path_for_leaf C t i leaf = Ok p \<and> mp_leaf p = leaf \<and>
    length (mp_path p) = mt_height t \<and> merkle_path_root C lh p = d"
proof (cases "mt_height t = 0")
  case True
  then have "d = degrade_to_transient C (lh leaf)" using assms by (cases t) auto
  then show ?thesis using True assms by (simp add: path_for_leaf_def merkle_path_root_def)
next
  case False
  then obtain zs where zs: "path_walk C True i t i = Ok (map (\<lambda>z. Some (fst z)) zs, map snd zs)"
    "length zs = mt_height t" "path_digest C zs (degrade_to_transient C (lh leaf)) = d"
    using path_walk_verifies [of C t i "lh leaf" a i] assms mt_root_digest [of C t d] by auto
  define es where "es = rev (map (\<lambda>(s, g). \<lparr>pe_sibling = s, pe_goes_left = g\<rparr>) zs)"
  have "path_for_leaf C t i leaf = Ok \<lparr>mp_leaf = leaf, mp_path = es\<rparr>"
    unfolding path_for_leaf_def path_for_index_internal_def es_def
    using False zs(1) by (simp add: path_entries_Ok collect_results_Ok del: map_map)
  then show ?thesis using zs merkle_path_root_digest [of C lh leaf zs]
    by (simp add: es_def)
qed

subsection \<open>Soundness\<close>







text \<open>The position a list of branches leads to, from the root down.\<close>

fun path_position :: "bool list \<Rightarrow> nat" where
  "path_position [] = 0"
| "path_position (g # gs) = (if g then 0 else 2 ^ length gs) + path_position gs"

lemma path_position_less: "path_position gs < 2 ^ length gs"
  by (induction gs) auto



section \<open>Insertion evidence\<close>

text \<open>The evidence of a position, from the root down.\<close>

fun evidence_down :: "('h, 'f) mcrypto \<Rightarrow> ('h, 'f, 'a) mtree \<Rightarrow> nat \<Rightarrow> ('f option \<times> bool) list" where
  "evidence_down C (Node hs l r h) i =
     (hs, i < 2 ^ (h - 1)) # (if i < 2 ^ (h - 1) then evidence_down C l i else evidence_down C r (i - 2 ^ (h - 1)))"
| "evidence_down C _ i = []"

lemma evidence_down_leaf: "mt_wf t \<Longrightarrow> mt_height t = 0 \<Longrightarrow> evidence_down C t i = []"
  by (cases t) auto

lemma path_walk_evidence:
  "mt_wf t \<Longrightarrow> 1 \<le> mt_height t \<Longrightarrow> i < 2 ^ mt_height t \<Longrightarrow> mt_cell t i = Filled x a \<Longrightarrow>
   path_walk C False index t i = Ok (map fst (evidence_down C t i), map snd (evidence_down C t i))"
proof (induction t arbitrary: i)
  case (Node hs l r h)
  then obtain n where n: "h = Suc n" "mt_height l = n" "mt_height r = n" "mt_wf l" "mt_wf r" by (cases h) auto
  show ?case
  proof (cases n)
    case 0
    then show ?thesis using n by (auto simp: evidence_down_leaf)
  next
    case (Suc m)
    then show ?thesis using n Node.IH(1) [of i] Node.IH(2) [of "i - 2 ^ n"] Node.prems
      by (auto simp: Let_def)
  qed
qed auto

lemma update_from_evidence_cons:
  "mt_update_from_evidence_internal C (Node hs l r h) lf (rev (e # es)) =
     (if ie_goes_left e
      then obind (mt_update_from_evidence_internal C l lf (rev es)) (\<lambda>l'. Ok (Node None l' r h))
      else obind (mt_update_from_evidence_internal C r lf (rev es)) (\<lambda>r'. Ok (Node None l r' h)))"
  by (subst mt_update_from_evidence_internal.simps) simp

lemma update_from_evidence_collapsed:
  "mt_update_from_evidence_internal C (Collapsed f h) lf [] = Ok (Collapsed (degrade_to_transient C (fst lf)) h)"
  "mt_update_from_evidence_internal C (Collapsed f h) lf (rev (\<lparr>ie_hash = Some d, ie_goes_left = g\<rparr> # es)) =
     Ok (Collapsed d h)"
  by (simp_all add: mt_update_from_evidence_internal.simps)

lemma update_from_evidence_leaf:
  "mt_update_from_evidence_internal C (Leaf y b) lf [] = Ok (Leaf (fst lf) (snd lf))"
  by (simp add: mt_update_from_evidence_internal.simps)

definition evidence_entries :: "('h, 'f) mcrypto \<Rightarrow> ('h, 'f, 'a) mtree \<Rightarrow> nat \<Rightarrow> 'f insertion_entry list" where
  "evidence_entries C t i = map (\<lambda>(h, g). \<lparr>ie_hash = h, ie_goes_left = g\<rparr>) (evidence_down C t i)"

lemma evidence_entries_node:
  "evidence_entries C (Node hs l r (Suc n)) i = \<lparr>ie_hash = hs, ie_goes_left = i < 2 ^ n\<rparr> #
     (if i < 2 ^ n then evidence_entries C l i else evidence_entries C r (i - 2 ^ n))"
  by (simp add: evidence_entries_def)

lemma mt_rehash_node: "mt_rehash C (Node None l r h) =
    Node (Some (transient_hash C (mt_digest C l) (mt_digest C r))) (mt_rehash C l) (mt_rehash C r) h"
  by (simp add: Let_def)

text \<open>The height of the stub a position lies in. Evidence ends at a stub, unless it is a single empty leaf.\<close>

fun stub_height :: "('h, 'f, 'a) mtree \<Rightarrow> nat \<Rightarrow> nat" where
  "stub_height (Stub h) i = h"
| "stub_height (Node _ l r h) i = (if i < 2 ^ (h - 1) then stub_height l i else stub_height r (i - 2 ^ (h - 1)))"
| "stub_height _ i = 0"

definition replayed :: "('h, 'f) mcrypto \<Rightarrow> ('h, 'f, 'a) mtree \<Rightarrow> nat \<Rightarrow> 'h \<Rightarrow> 'a \<Rightarrow> ('h, 'f, 'a) mtree \<Rightarrow> bool" where
  "replayed C s i x a u \<longleftrightarrow>
     (if stub_height s i = 0
      then \<exists>s'. mt_update_from_evidence_internal C s (x, a) (rev (evidence_entries C (mt_rehash C u) i)) = Ok s' \<and> mt_hides C s' u
      else mt_update_from_evidence_internal C s (x, a) (rev (evidence_entries C (mt_rehash C u) i)) = Err BadUpdatePath)"

text \<open>Replaying the evidence step by step, along the simulation between a collapsed and a full tree.\<close>

lemma evidence_replay_node:
  assumes u: "mt_try_update_hash T i x a = Ok u" and wf: "mt_wf l'" "mt_wf r'"
    and T: "T = Node hs' l' r' (Suc n) \<or> T = Stub (Suc n) \<and> l' = Stub n \<and> r' = Stub n"
    and h: "mt_height l' = n" "mt_height r' = n" and hides: "mt_hides C l l'" "mt_hides C r r'"
    and IHl: "\<And>u. i < 2 ^ n \<Longrightarrow> mt_try_update_hash l' i x a = Ok u \<Longrightarrow> replayed C l i x a u"
    and IHr: "\<And>u. \<not> i < 2 ^ n \<Longrightarrow> mt_try_update_hash r' (i - 2 ^ n) x a = Ok u \<Longrightarrow> replayed C r (i - 2 ^ n) x a u"
  shows "replayed C (Node hs l r (Suc n)) i x a u"
  using u wf h T
proof (cases rule: mt_update_node_cases)
  case (left l1)
  then have "replayed C l i x a l1" using IHl by blast
  then show ?thesis unfolding left(5) replayed_def mt_rehash_node evidence_entries_node update_from_evidence_cons
    using left hides by (auto split: if_splits)
next
  case (right r1 j)
  then have "replayed C r j x a r1" using IHr by blast
  then show ?thesis unfolding right(7) replayed_def mt_rehash_node evidence_entries_node update_from_evidence_cons
    using right hides by (auto split: if_splits)
qed

lemma mt_update_shape:
  assumes "mt_try_update_hash T i x a = Ok u" and "mt_wf T"
  obtains (leaf) "mt_height T = 0" "u = Leaf x a"
  | (node) l r n where "mt_height T = Suc n" "u = Node None l r (Suc n)"
proof (cases T)
  case (Stub h)
  then show ?thesis using assms that by (cases h) (auto simp: outcome_simps split: if_splits)
qed (use assms that in \<open>auto simp: outcome_simps Let_def gr0_conv_Suc split: if_splits\<close>)

lemma evidence_replay_stub:
  assumes "mt_try_update_hash (Stub h) i x a = Ok u"
  shows "replayed C (Stub h) i x a u"
proof (cases h)
  case 0
  then show ?thesis using assms
    by (auto simp: replayed_def evidence_entries_def mt_update_from_evidence_internal.simps split: if_splits)
next
  case (Suc n)
  then obtain l r where "u = Node None l r (Suc n)" using mt_update_shape [OF assms] by auto
  then show ?thesis using Suc
    by (simp add: replayed_def mt_rehash_node evidence_entries_node mt_update_from_evidence_internal.simps del: mt_rehash.simps)
qed

lemma evidence_replay:
  "mt_hides C s T \<Longrightarrow> mt_wf s \<Longrightarrow> mt_wf T \<Longrightarrow> mt_try_update_hash T i x a = Ok u \<Longrightarrow> replayed C s i x a u"
proof (induction C s T arbitrary: i u rule: mt_hides.induct)
  case (1 C f h T)
  from "1.prems"(4,3) show ?case
  proof (cases rule: mt_update_shape)
    case leaf
    then show ?thesis using "1.prems"
      by (simp add: replayed_def evidence_entries_def update_from_evidence_collapsed)
  next
    case (node l r n)
    then show ?thesis using "1.prems"
      unfolding node(2) replayed_def mt_rehash_node evidence_entries_node update_from_evidence_collapsed by simp
  qed
next
  case (2 C hs l r h hs' l' r' h')
  then obtain n where n: "h = Suc n" "h' = Suc n" by (cases h) auto
  have sub: "mt_hides C l l'" "mt_hides C r r'" "mt_wf l" "mt_wf r" "mt_wf l'" "mt_wf r'"
    "mt_height l' = n" "mt_height r' = n" using "2.prems" n by auto
  have T: "Node hs' l' r' h' = Node hs' l' r' (Suc n) \<or> Node hs' l' r' h' = Stub (Suc n) \<and> l' = Stub n \<and> r' = Stub n"
    using n by simp
  show ?case unfolding n(1)
    by (rule evidence_replay_node [OF "2.prems"(4) sub(5,6) T sub(7,8,1,2)])
      (use "2.IH" sub in auto)
next
  case (3 C hs l r n h)
  have sub: "h = Suc n" "mt_hides C l (Stub n)" "mt_hides C r (Stub n)" "mt_wf l" "mt_wf r"
    using "3.prems" by auto
  have T: "Stub h = Node None (Stub n) (Stub n) (Suc n) \<or> Stub h = Stub (Suc n) \<and> Stub n = Stub n \<and> Stub n = Stub n"
    using sub by simp
  show ?case
    by (rule evidence_replay_node [OF "3.prems"(4) _ _ T _ _ sub(2,3)])
      (use "3.IH" sub in auto)
next
  case "4_2"
  then show ?case using evidence_replay_stub by auto
qed (auto simp: replayed_def evidence_entries_def update_from_evidence_leaf split: if_splits)

section \<open>Searching\<close>

lemma map_filter_fst: "List.map_filter (\<lambda>l. map_option (\<lambda>(i, x, a). (i, x)) (loc_leaf l)) ls =
    map (\<lambda>(i, x, a). (i, x)) (List.map_filter loc_leaf ls)"
  by (induction ls) (auto simp: List.map_filter_def split: option.splits)

lemma cells_in_range_mem:
  "(i, x, a) \<in> set (cells_in_range c n r) \<longleftrightarrow> i < n \<and> range_contains r i \<and> c i = Filled x a"
proof -
  have "(i, x, a) \<in> set (cell_entry j d) \<longleftrightarrow> j = i \<and> d = Filled x a" for j d by (cases d) auto
  then show ?thesis by (auto simp: cells_in_range_def)
qed

lemma find_path_loop_none: "lh \<notin> snd ` set ls \<Longrightarrow> find_path_loop C t lh leaf ls = Ok None"
  by (induction ls) force+

lemma find_path_loop_some:
  "lh \<in> snd ` set ls \<Longrightarrow> \<exists>i. (i, lh) \<in> set ls \<and> find_path_loop C t lh leaf ls =
     (case path_for_leaf C t i leaf of Ok p \<Rightarrow> Ok (Some p) | Err _ \<Rightarrow> Ok None | Panic \<Rightarrow> Panic)"
proof (induction ls)
  case (Cons l ls)
  then show ?case by (cases l) (cases "snd l = lh"; auto; blast)
qed simp

lemma find_path_entries:
  assumes "mt_wf t" and "2 ^ mt_height t \<le> Suc u64_max"
  shows "(i, x) \<in> set (List.map_filter (\<lambda>l. map_option (\<lambda>(i, x, a). (i, x)) (loc_leaf l)) (leaves_in_range t r))
    \<longleftrightarrow> i < 2 ^ mt_height t \<and> range_contains r i \<and> (\<exists>a. mt_cell t i = Filled x a)"
proof -
  have "(i, x) \<in> set (map (\<lambda>(i, x, a). (i, x)) xs) \<longleftrightarrow> (\<exists>a. (i, x, a) \<in> set xs)" for xs :: "(nat \<times> 'a \<times> 'c) list"
    by force
  then show ?thesis
    unfolding map_filter_fst leaves_in_range_spec [OF assms] by (simp add: cells_in_range_mem)
qed

section \<open>Runs\<close>

lemma tree_step_inv:
  assumes "tree_step C t op = Ok t'" and "op_admissible (mt_height t) op" and "mt_inv C t" and "mt_hash_ok C t"
  shows "mt_inv C t' \<and> mt_hash_ok C t' \<and> mt_height t' = mt_height t"
proof (cases op)
  case (Update i x a)
  then show ?thesis
    using assms mt_update_inv mt_update_hash_ok mt_update_height [OF _ mt_inv_wf] by auto
next
  case (Collapse s e)
  then show ?thesis
    using assms mt_collapse_ok [OF mt_inv_wf [OF assms(3)], of s e C] by (auto simp: collapse_post_def)
next
  case Rehash
  then show ?thesis using assms mt_rehash_inv mt_rehash_hash_ok by auto
qed

lemma tree_run_inv:
  "try_fold (tree_step C) t ops = Ok t' \<Longrightarrow> list_all (op_admissible (mt_height t)) ops \<Longrightarrow> mt_inv C t \<Longrightarrow>
   mt_hash_ok C t \<Longrightarrow> mt_inv C t' \<and> mt_hash_ok C t' \<and> mt_height t' = mt_height t"
proof (induction ops arbitrary: t)
  case (Cons op ops)
  then obtain t1 where t1: "tree_step C t op = Ok t1" "try_fold (tree_step C) t1 ops = Ok t'"
    by (auto simp: outcome_simps)
  have "mt_inv C t1 \<and> mt_hash_ok C t1 \<and> mt_height t1 = mt_height t"
    using t1(1) Cons.prems by (intro tree_step_inv) auto
  then show ?case using Cons.IH [OF t1(2)] Cons.prems by simp
qed simp


section \<open>Properties\<close>

text \<open>Property C11. Membership proofs are complete. After any run of updates, collapses and
  rehashes from a blank tree, every leaf that is still readable has a path: \<open>path_for_leaf\<close> returns
  one of the height of the tree, and \<open>MerklePath::root\<close> of it is the root of the tree.\<close>

theorem membership_complete:
  assumes "list_all (op_admissible h) ops"
    and "try_fold (tree_step C) (mt_blank h) ops = Ok t"
    and "i < 2 ^ h" and "mt_index t i = Some (lh leaf, a)"
  shows "\<exists>p. path_for_leaf C (mt_rehash C t) i leaf = Ok p \<and> length (mp_path p) = h \<and>
    mt_root C (mt_rehash C t) = Some (merkle_path_root C lh p)"
proof -
  have t: "mt_inv C t" "mt_hash_ok C t" "mt_height t = h"
    using tree_run_inv [OF assms(2)] assms(1) by (auto simp: mt_blank_def)
  have "mt_cell (mt_rehash C t) i = Filled (lh leaf) a"
    using assms(4) by (cases "mt_cell t i") (auto simp: mt_index_cell)
  then show ?thesis
    using path_for_leaf_verifies [of C "mt_rehash C t" "mt_digest C t" i lh leaf a] t assms(3)
      mt_rehash_inv [OF t(1)] mt_rehash_hash_ok [OF t(2)] by auto
qed

theorem membership_complete_witness:
  "\<exists>p. path_for_leaf toy_crypto (mt_rehash toy_crypto toy_tree) 2 (7::nat) = Ok p \<and>
     mt_root toy_crypto (mt_rehash toy_crypto toy_tree) = Some (merkle_path_root toy_crypto (\<lambda>x. x) p)"
  using membership_complete [OF _ toy_run, of 2 "\<lambda>x. x" 7 "()"] by (auto simp: admissible_range_def Let_def)


datatype digest_term = DEmpty | DLeaf nat | DPair digest_term digest_term

definition term_crypto :: "(nat, digest_term) mcrypto" where
  "term_crypto = \<lparr>transient_hash = DPair, hash_bytes = (\<lambda>n. [n]), fr_from_le_bytes = (\<lambda>bs. DLeaf (sum_list bs)), fr_default = DEmpty\<rparr>"

lemma term_crypto_simps [simp]:
  "transient_hash term_crypto = DPair" "degrade_to_transient term_crypto x = DLeaf x" "fr_default term_crypto = DEmpty"
  by (simp_all add: term_crypto_def degrade_to_transient_def fr_bytes_stored_def)



text \<open>Property C12. Insertion evidence replays. Take a tree, collapse any range of it, and insert a leaf into the full tree.
  \<open>insertion_evidence\<close> of the rehashed full tree is produced. When the position is occupied, collapsed or a single empty leaf of
  the collapsed tree, \<open>update_from_evidence\<close> accepts it there and the two trees have the same root again. When the position lies
  in an empty subtree of height one or more, it is refused with \<open>BadUpdatePath\<close>.\<close>

theorem evidence_replays:
  assumes "mt_wf t" and "1 \<le> mt_height t" and "admissible_range (mt_height t) s e"
    and "mt_collapse C t s e = Ok c" and "mt_try_update_hash t i x a = Ok u"
  shows "\<exists>ev. insertion_evidence C (mt_rehash C u) i = Ok ev \<and>
    (if stub_height c i = 0
     then \<exists>c'. update_from_evidence C c ev = Ok c' \<and> mt_root C (mt_rehash C c') = mt_root C (mt_rehash C u)
     else update_from_evidence C c ev = Err BadUpdatePath)"
proof -
  have i: "i < 2 ^ mt_height t" using mt_update_ok_iff [OF assms(1)] assms(5) by blast
  have u: "mt_height (mt_rehash C u) = mt_height t" "mt_wf (mt_rehash C u)"
    "mt_cell (mt_rehash C u) i = Filled x a"
    using mt_update_height [OF assms(5,1)] mt_rehash_wf [OF mt_update_wf [OF assms(5,1)]]
      mt_update_cell [OF assms(5,1) i] by auto
  have c: "mt_hides C c t" "mt_wf c"
    using mt_hides_collapse [OF mt_hides_refl assms(1,4)] mt_collapse_ok [OF assms(1,3), of C] assms(4)
    by (auto simp: collapse_post_def)
  define ev where "ev = \<lparr>tip_leaf = (x, a), tip_path = rev (evidence_entries C (mt_rehash C u) i)\<rparr>"
  have "insertion_evidence C (mt_rehash C u) i = Ok ev"
    using path_walk_evidence [OF u(2) _ _ u(3), of C i] u i assms(2)
    by (simp add: insertion_evidence_def path_for_index_internal_def mt_index_cell ev_def
        evidence_entries_def zip_map_fst_snd)
  moreover have "replayed C c i x a u" by (rule evidence_replay [OF c assms(1,5)])
  ultimately show ?thesis using mt_hides_digest
    by (auto simp: replayed_def update_from_evidence_def ev_def split: if_splits)
qed

theorem evidence_replays_witness:
  "\<exists>ev c'. insertion_evidence toy_crypto (mt_rehash toy_crypto (Node None (Leaf 9 ()) (Leaf 4 ()) (Suc 0))) 0 = Ok ev \<and>
     update_from_evidence toy_crypto (Collapsed 30 (Suc 0)) ev = Ok c' \<and>
     mt_root toy_crypto (mt_rehash toy_crypto c') = Some 48"
  using evidence_replays [of "Node None (Leaf 3 ()) (Leaf 4 ()) (Suc 0)" 0 "Suc 0" toy_crypto "Collapsed 30 (Suc 0)"
      0 9 "()" "Node None (Leaf 9 ()) (Leaf 4 ()) (Suc 0)"]
  by (auto simp: admissible_range_def Let_def)

text \<open>\<open>leaves_in_range\<close> (and with it \<open>iter\<close>, \<open>iter_aux\<close> and the searches) lists
  exactly the readable leaves of the range, in increasing order of position.\<close>

theorem leaves_in_range_correct:
  assumes "mt_wf t" and "mt_height t \<le> 64"
  shows "List.map_filter loc_leaf (leaves_in_range t r) =
    concat (map (\<lambda>i. case mt_index t i of Some (x, a) \<Rightarrow> [(i, x, a)] | None \<Rightarrow> [])
      (filter (range_contains r) [0..<2 ^ mt_height t]))"
proof -
  have "(2::nat) ^ mt_height t \<le> 2 ^ 64" using assms(2) by (intro power_increasing) auto
  then have "2 ^ mt_height t \<le> Suc u64_max" by (simp add: u64_max_def)
  then show ?thesis
    using leaves_in_range_spec [OF assms(1), of r]
    by (simp add: cells_in_range_def mt_index_cell cell_entry_value)
qed

theorem leaves_in_range_correct_witness:
  "List.map_filter loc_leaf (leaves_in_range toy_tree (Included 1, Unbounded)) = [(2, 7, ())]"
  using leaves_in_range_correct [of toy_tree "(Included 1, Unbounded)"]
  by (simp add: Let_def eval_nat_numeral upt_rec)

text \<open>Property C15. \<open>find_path_for_leaf_within_range\<close> on a tree of height at most 64 that satisfies the storage invariant, has been
  rehashed and whose cached hashes are right: either no readable leaf of the range has the hash, and the result is \<open>None\<close>,
  or the result is a path that verifies against the root. On such a tree it does not panic.\<close>

theorem find_path_correct:
  assumes "mt_inv C t" and "mt_hash_ok C t" and "mt_root C t = Some d" and "mt_height t \<le> 64"
  shows "if \<exists>i a. i < 2 ^ mt_height t \<and> range_contains r i \<and> mt_index t i = Some (lh leaf, a)
    then \<exists>p. find_path_for_leaf_inner C t (lh leaf) leaf r = Ok (Some p) \<and> merkle_path_root C lh p = d
    else find_path_for_leaf_inner C t (lh leaf) leaf r = Ok None"
proof -
  have "(2::nat) ^ mt_height t \<le> 2 ^ 64" using assms(4) by (intro power_increasing) auto
  then have small: "2 ^ mt_height t \<le> Suc u64_max" by (simp add: u64_max_def)
  define ls where "ls = List.map_filter (\<lambda>l. map_option (\<lambda>(i, x, a). (i, x)) (loc_leaf l)) (leaves_in_range t r)"
  have idx: "mt_index t i = Some (x, a) \<longleftrightarrow> mt_cell t i = Filled x a" for i x a
    by (cases "mt_cell t i") (auto simp: mt_index_cell)
  have ls: "(i, x) \<in> set ls \<longleftrightarrow> i < 2 ^ mt_height t \<and> range_contains r i \<and> (\<exists>a. mt_cell t i = Filled x a)" for i x
    unfolding ls_def using find_path_entries [OF mt_inv_wf [OF assms(1)] small] .
  have found: "lh leaf \<in> snd ` set ls \<longleftrightarrow>
      (\<exists>i a. i < 2 ^ mt_height t \<and> range_contains r i \<and> mt_index t i = Some (lh leaf, a))"
  proof -
    have "lh leaf \<in> snd ` set ls \<longleftrightarrow> (\<exists>i. (i, lh leaf) \<in> set ls)" by force
    then show ?thesis unfolding ls idx by auto
  qed
  show ?thesis
  proof (cases "lh leaf \<in> snd ` set ls")
    case True
    obtain i where i: "(i, lh leaf) \<in> set ls" "find_path_loop C t (lh leaf) leaf ls =
        (case path_for_leaf C t i leaf of Ok p \<Rightarrow> Ok (Some p) | Err _ \<Rightarrow> Ok None | Panic \<Rightarrow> Panic)"
      using find_path_loop_some [OF True, of C t leaf] by blast
    from i(1) obtain a where a: "i < 2 ^ mt_height t" "mt_cell t i = Filled (lh leaf) a"
      unfolding ls by auto
    obtain p where "path_for_leaf C t i leaf = Ok p" "merkle_path_root C lh p = d"
      using path_for_leaf_verifies [where lh = lh and leaf = leaf, OF assms(1-3) a] by auto
    then show ?thesis using True found i(2) by (simp add: find_path_for_leaf_inner_def ls_def)
  next
    case False
    then show ?thesis using found find_path_loop_none [OF False, of C t leaf]
      by (simp add: find_path_for_leaf_inner_def ls_def)
  qed
qed

theorem find_path_correct_witness:
  "find_path_for_leaf_inner toy_crypto (mt_rehash toy_crypto (Node None (Leaf 3 ()) (Stub 0) (Suc 0))) 3 (3::nat)
     (Included 1, Unbounded) = Ok None"
  using find_path_correct [of toy_crypto "mt_rehash toy_crypto (Node None (Leaf 3 ()) (Stub 0) (Suc 0))" 10
      "(Included 1, Unbounded)" "\<lambda>x. x" 3]
  by (simp add: toy_simps Let_def less_Suc_eq split: if_splits)

text \<open>The documentation of \<open>InvalidIndex\<close> promises an error for a collapsed position.
  \<open>path_for_leaf\<close> returns it when the collapsed subtree has height two or more, but for a collapsed
  pair of leaves (height one) it runs into \<open>unreachable!()\<close> and panics, and for a single collapsed
  leaf it returns a path.\<close>

theorem path_for_leaf_collapsed:
  "path_for_leaf C (Node hs (Collapsed f h) r (Suc h)) 0 leaf =
     (if h = 1 then Panic else if h = 0 then
        obind (ok_or (mt_root C r) (InvalidIndex 0))
          (\<lambda>s. Ok \<lparr>mp_leaf = leaf, mp_path = [\<lparr>pe_sibling = s, pe_goes_left = True\<rparr>]\<rparr>)
      else Err (InvalidIndex 0))"
proof -
  consider "h = 0" | "h = 1" | "1 < h" by linarith
  then show ?thesis
    by cases (cases "mt_root C r"; simp add: path_for_leaf_def path_for_index_internal_def Let_def)+
qed

end
