(* ===== verification/Merkle_Update.thy ===== *)
theory Merkle_Update
  imports Merkle_Paths
begin

text \<open>
  \<open>transient-crypto/src/merkle_tree.rs\<close>: collapsed updates. A range of a tree is sent as the digests of the largest aligned
  subtrees it is made of, and another tree takes these digests over without seeing the leaves.

  \<^item> \<open>step_sizes\<close> is shown to cover the range by aligned subtrees, in order.
  \<^item> \<open>partial_insert\<close> descends along the bits of a position and rebuilds the path it came down.
  \<^item> Together: applying the update of a tree makes the other tree hold the same leaves in the range, collapsed.
\<close>

unbundle bit_operations_syntax

section \<open>Writing values\<close>

definition mt_update_hash :: "('h, 'f, 'a) mtree \<Rightarrow> nat \<Rightarrow> 'h \<Rightarrow> 'a \<Rightarrow> ('e, ('h, 'f, 'a) mtree) outcome" where
  "mt_update_hash t i x a = (case mt_try_update_hash t i x a of Ok t' \<Rightarrow> Ok t' | _ \<Rightarrow> Panic)"

definition mt_update :: "(nat list \<Rightarrow> 'h) \<Rightarrow> ('l \<Rightarrow> nat list) \<Rightarrow> ('h, 'f, 'a) mtree \<Rightarrow> nat \<Rightarrow> 'l \<Rightarrow> 'a \<Rightarrow> ('e, ('h, 'f, 'a) mtree) outcome" where
  "mt_update persistent_hash binary_repr t i v a = mt_update_hash t i (leaf_hash persistent_hash binary_repr v) a"

definition mt_try_update :: "(nat list \<Rightarrow> 'h) \<Rightarrow> ('l \<Rightarrow> nat list) \<Rightarrow> ('h, 'f, 'a) mtree \<Rightarrow> nat \<Rightarrow> 'l \<Rightarrow> 'a \<Rightarrow> (invalid_update, ('h, 'f, 'a) mtree) outcome" where
  "mt_try_update persistent_hash binary_repr t i v a = mt_try_update_hash t i (leaf_hash persistent_hash binary_repr v) a"

text \<open>The deprecated versions panic exactly outside the tree and on collapsed positions; elsewhere both versions write the same.\<close>

lemma mt_update_panics_iff:
  assumes "mt_wf t"
  shows "mt_update H R t i v a = Panic \<longleftrightarrow> 2 ^ mt_height t \<le> i \<or> mt_cell t i = Hidden"
    and "mt_update H R t i v a = Ok t' \<longleftrightarrow> mt_try_update H R t i v a = Ok t'"
  using mt_update_ok_iff [OF assms, of i "leaf_hash H R v" a]
  by (auto simp: mt_update_def mt_try_update_def mt_update_hash_def split: outcome.splits)

section \<open>Collapsed updates\<close>

record 'f collapsed_update =
  cu_start :: nat
  cu_end :: nat
  cu_hashes :: "'f list"

text \<open>\<open>step_sizes\<close> panics where \<open>ilog2\<close> is applied to zero. Additions of \<open>u64\<close> wrap around. A subtree higher
  than the tree it is looked up in or inserted into is an underflow of the \<open>u8\<close> difference of the heights, and a panic.\<close>

definition step_sizes :: "nat \<Rightarrow> nat \<Rightarrow> ('e, nat list) outcome" where
  "step_sizes a b =
     (if b XOR a = 0 then Panic
      else let msb_diff = ilog2 (b XOR a);
             (a, res) = foldl (\<lambda>(a, res) k. if odd (a div 2 ^ k) then ((a + 2 ^ k) mod 2 ^ 64, res @ [k]) else (a, res)) (a, []) [0..<msb_diff];
             res = (if even (a div 2 ^ msb_diff) then res @ [msb_diff] else res);
             res = foldl (\<lambda>res k. if odd (b div 2 ^ k) then res @ [k] else res) res (rev [0..<msb_diff]) in
        Ok res)"

definition partial_index_step :: "nat \<Rightarrow> nat \<Rightarrow> nat \<Rightarrow> ('h, 'f, 'a) mtree \<Rightarrow> nat \<Rightarrow> (invalid_update, ('h, 'f, 'a) mtree) outcome" where
  "partial_index_step idx height theight nd i =
     (let go_left = even (idx div 2 ^ (theight - i - 1)) in
      case nd of
        Leaf _ _ \<Rightarrow> Panic
      | Node _ l r _ \<Rightarrow> Ok (if go_left then l else r)
      | Collapsed _ _ \<Rightarrow> Err (CollapsedIndex idx height)
      | Stub _ \<Rightarrow> Err (StubUpdate idx height))"

definition partial_index :: "('h, 'f) mcrypto \<Rightarrow> ('h, 'f, 'a) mtree \<Rightarrow> nat \<Rightarrow> nat \<Rightarrow> (invalid_update, 'f) outcome" where
  "partial_index C tree idx height =
     (if mt_height tree < height then Panic
      else obind (try_fold (partial_index_step idx height (mt_height tree)) tree [0..<mt_height tree - height]) (\<lambda>nd.
        ok_or (mt_root C nd) NotFullyRehashed))"

definition collapsed_update_new :: "('h, 'f) mcrypto \<Rightarrow> ('h, 'f, 'a) mtree \<Rightarrow> nat \<Rightarrow> nat \<Rightarrow> (invalid_update, 'f collapsed_update) outcome" where
  "collapsed_update_new C tree s e =
     (if e < s then Err (EndBeforeStart s e)
      else if e \<ge> 2 ^ mt_height tree then Err (EndOutOfTree e)
      else obind (step_sizes s ((e + 1) mod 2 ^ 64)) (\<lambda>steps.
        obind (try_fold (\<lambda>(hashes, nd) k. obind (partial_index C tree nd k) (\<lambda>d. Ok (hashes @ [d], nd + 2 ^ k))) ([], s) steps)
          (\<lambda>(hashes, _). Ok \<lparr>cu_start = s, cu_end = e, cu_hashes = hashes\<rparr>)))"

text \<open>The stack holds, from the root down, the sibling of every node passed and whether the way went left.\<close>

definition partial_insert_step :: "nat \<Rightarrow> nat \<Rightarrow> nat \<Rightarrow> ('h, 'f, 'a) mtree \<times> (('h, 'f, 'a) mtree \<times> bool) list \<Rightarrow> nat \<Rightarrow>
    (invalid_update, ('h, 'f, 'a) mtree \<times> (('h, 'f, 'a) mtree \<times> bool) list) outcome" where
  "partial_insert_step idx height theight = (\<lambda>(nd, stack) i.
     let go_left = even (idx div 2 ^ (theight - i - 1)) in
     case nd of
       Leaf _ _ \<Rightarrow> Panic
     | Node _ l r _ \<Rightarrow> Ok (if go_left then l else r, stack @ [(if go_left then r else l, go_left)])
     | Stub h \<Rightarrow> if h = 0 then Panic else Ok (Stub (h - 1), stack @ [(Stub (h - 1), go_left)])
     | Collapsed _ _ \<Rightarrow> Err (CollapsedIndex idx height))"

definition rebuild :: "nat \<Rightarrow> ('h, 'f, 'a) mtree \<Rightarrow> (('h, 'f, 'a) mtree \<times> bool) list \<Rightarrow> ('h, 'f, 'a) mtree" where
  "rebuild height bottom stack = foldl (\<lambda>acc (i, sibling, goes_left).
       Node None (if goes_left then acc else sibling) (if goes_left then sibling else acc) (height + 1 + i))
     bottom (enumerate 0 (rev stack))"

definition partial_insert :: "('h, 'f, 'a) mtree \<Rightarrow> nat \<Rightarrow> nat \<Rightarrow> 'f \<Rightarrow> (invalid_update, ('h, 'f, 'a) mtree) outcome" where
  "partial_insert tree idx height digest =
     (if mt_height tree < height then Panic
      else obind (try_fold (partial_insert_step idx height (mt_height tree)) (tree, []) [0..<mt_height tree - height]) (\<lambda>(_, stack).
        Ok (rebuild height (Collapsed digest height) stack)))"

definition apply_collapsed_update :: "('h, 'f, 'a) mtree \<Rightarrow> 'f collapsed_update \<Rightarrow> (invalid_update, ('h, 'f, 'a) mtree) outcome" where
  "apply_collapsed_update tree update =
     obind (step_sizes (cu_start update) ((cu_end update + 1) mod 2 ^ 64)) (\<lambda>segments.
     if length segments \<noteq> length (cu_hashes update) then Err (WrongNumberOfSegments (length segments) (length (cu_hashes update)))
     else obind (try_fold (\<lambda>(nd, idx) (k, d). obind (partial_insert nd idx k d) (\<lambda>nd. Ok (nd, idx + 2 ^ k)))
         (tree, cu_start update) (zip segments (cu_hashes update))) (\<lambda>(nd, _). Ok nd))"

section \<open>Covering a range\<close>

text \<open>Steps from a position on, each over a subtree that starts there.\<close>

fun aligned_steps :: "nat \<Rightarrow> nat list \<Rightarrow> bool" where
  "aligned_steps p [] \<longleftrightarrow> True"
| "aligned_steps p (k # ks) \<longleftrightarrow> 2 ^ k dvd p \<and> aligned_steps (p + 2 ^ k) ks"

definition steps_end :: "nat \<Rightarrow> nat list \<Rightarrow> nat" where
  "steps_end p ks = p + (\<Sum>k\<leftarrow>ks. 2 ^ k)"

lemma steps_end_simps [simp]: "steps_end p [] = p" "steps_end p (k # ks) = steps_end (p + 2 ^ k) ks"
  "steps_end p (ks @ ls) = steps_end (steps_end p ks) ls"
  by (simp_all add: steps_end_def)

lemma aligned_steps_append: "aligned_steps p (ks @ ls) \<longleftrightarrow> aligned_steps p ks \<and> aligned_steps (steps_end p ks) ls"
  by (induction ks arbitrary: p) auto

lemma split_at_bit: "n = n div 2 ^ Suc m * 2 ^ Suc m + (if bit n m then 2 ^ m else 0) + n mod 2 ^ m" for n :: nat
proof -
  define q where "q = n div 2 ^ m"
  have n: "n = q * 2 ^ m + n mod 2 ^ m" unfolding q_def by (rule div_mult_mod_eq [symmetric])
  have "q = q div 2 * 2 + q mod 2" by (rule div_mult_mod_eq [symmetric])
  then have "q * 2 ^ m = (q div 2 * 2 + q mod 2) * 2 ^ m" by simp
  also have "\<dots> = q div 2 * 2 ^ Suc m + q mod 2 * 2 ^ m" by (simp only: add_mult_distrib mult.assoc power_Suc)
  finally have "q * 2 ^ m = q div 2 * 2 ^ Suc m + q mod 2 * 2 ^ m" .
  moreover have "q div 2 = n div 2 ^ Suc m" unfolding q_def by (simp only: power_Suc2 div_mult2_eq)
  moreover have "q mod 2 = (if bit n m then 1 else 0)" unfolding q_def by (simp add: bit_iff_odd odd_iff_mod_2_eq_one)
  ultimately show ?thesis using n by (auto split: if_splits)
qed

lemma highest_difference:
  assumes "a < (b :: nat)"
  shows "\<exists>base la lb. a = base * 2 ^ Suc (ilog2 (b XOR a)) + la \<and> b = base * 2 ^ Suc (ilog2 (b XOR a)) + 2 ^ ilog2 (b XOR a) + lb \<and>
    la < 2 ^ ilog2 (b XOR a) \<and> lb < 2 ^ ilog2 (b XOR a)"
proof -
  let ?x = "b XOR a" and ?m = "ilog2 (b XOR a)"
  have "?x \<noteq> 0"
  proof
    assume "?x = 0"
    then have "\<not> bit ?x k" for k by simp
    then have "b = a" by (intro bit_eqI) (auto simp: bit_xor_iff)
    then show False using assms by simp
  qed
  then have m: "2 ^ ?m \<le> ?x" "?x < 2 ^ Suc ?m" using ilog2_bounds [of ?x] by auto
  have high: "bit a k = bit b k" if "Suc ?m \<le> k" for k
  proof -
    have "?x < 2 ^ k" using m(2) that by (meson order_less_le_trans one_le_numeral power_increasing)
    then have "\<not> bit ?x k" by (simp add: bit_iff_odd)
    then show ?thesis by (simp add: bit_xor_iff)
  qed
  have "?x div 2 ^ ?m = 1" using m by (intro div_nat_eqI) auto
  then have "bit ?x ?m" by (simp add: bit_iff_odd)
  then have low: "bit a ?m \<noteq> bit b ?m" by (auto simp: bit_xor_iff)
  define base where "base = a div 2 ^ Suc ?m"
  have base: "b div 2 ^ Suc ?m = base"
  proof -
    have "drop_bit (Suc ?m) b = drop_bit (Suc ?m) a" using high by (intro bit_eqI) (simp add: bit_drop_bit_eq)
    then show ?thesis by (simp only: drop_bit_eq_div base_def)
  qed
  note split = split_at_bit [of _ ?m]
  have "\<not> bit a ?m"
  proof
    assume "bit a ?m"
    then have "a = base * 2 ^ Suc ?m + 2 ^ ?m + a mod 2 ^ ?m" "b = base * 2 ^ Suc ?m + b mod 2 ^ ?m"
      using split [of a] split [of b] low base base_def by auto
    moreover have "b mod 2 ^ ?m < 2 ^ ?m" by simp
    ultimately show False using assms by linarith
  qed
  then have "a = base * 2 ^ Suc ?m + a mod 2 ^ ?m" "b = base * 2 ^ Suc ?m + 2 ^ ?m + b mod 2 ^ ?m"
    using split [of a] split [of b] low base base_def by auto
  moreover have "a mod 2 ^ ?m < 2 ^ ?m" "b mod 2 ^ ?m < 2 ^ ?m" by simp_all
  ultimately show ?thesis by blast
qed

text \<open>The first stage rounds the start up to a multiple of \<open>2 ^ n\<close>.\<close>

definition round_step :: "nat \<times> nat list \<Rightarrow> nat \<Rightarrow> nat \<times> nat list" where
  "round_step = (\<lambda>(a, res) k. if odd (a div 2 ^ k) then ((a + 2 ^ k) mod 2 ^ 64, res @ [k]) else (a, res))"

lemma multiples_close:
  fixes p q d :: nat
  assumes "d dvd p" "d dvd q" "p < q + d" "0 < d"
  shows "p \<le> q"
proof -
  obtain i j where "p = d * i" "q = d * j" using assms(1,2) by (auto elim!: dvdE)
  then have "d * i < d * (j + 1)" using assms(3) by simp
  then have "i < j + 1" by (simp only: mult_less_cancel1)
  then have "i \<le> j" by simp
  then show ?thesis using \<open>p = d * i\<close> \<open>q = d * j\<close> by simp
qed

lemma rounds_up:
  assumes "2 ^ m dvd peak" "a \<le> peak" "peak < 2 ^ 64" "n \<le> m"
  shows "\<exists>p res. foldl round_step (a, []) [0..<n] = (p, res) \<and> 2 ^ n dvd p \<and> a \<le> p \<and> p < a + 2 ^ n \<and> p \<le> peak \<and>
    aligned_steps a res \<and> steps_end a res = p"
  using assms(4)
proof (induction n)
  case 0
  then show ?case using assms(2) by simp
next
  case (Suc n)
  then obtain p res where p: "foldl round_step (a, []) [0..<n] = (p, res)" "2 ^ n dvd p" "a \<le> p" "p < a + 2 ^ n" "p \<le> peak"
    "aligned_steps a res" "steps_end a res = p" by auto
  obtain q where q: "p = 2 ^ n * q" using p(2) by (auto elim: dvdE)
  have peak: "2 ^ Suc n dvd peak" using assms(1) Suc.prems by (meson dvd_trans le_imp_power_dvd)
  show ?case
  proof (cases "odd q")
    case True
    then have dvd: "2 ^ Suc n dvd p + 2 ^ n" using q by (auto elim!: oddE simp: algebra_simps)
    have "p + 2 ^ n \<le> peak" using multiples_close [OF dvd peak] p(4,5) assms(2) by simp
    then have "round_step (p, res) n = (p + 2 ^ n, res @ [n])" using True q assms(3) by (simp add: round_step_def)
    then show ?thesis using p dvd \<open>p + 2 ^ n \<le> peak\<close> by (auto simp: aligned_steps_append)
  next
    case False
    then have "round_step (p, res) n = (p, res)" "2 ^ Suc n dvd p" using q by (auto simp: round_step_def)
    then show ?thesis using p by auto
  qed
qed

text \<open>The last stage adds the bits of the end, from the highest down.\<close>

lemma bits_down:
  "2 ^ n dvd p \<Longrightarrow> aligned_steps p (filter (\<lambda>k. odd (b div 2 ^ k)) (rev [0..<n])) \<and>
     steps_end p (filter (\<lambda>k. odd (b div 2 ^ k)) (rev [0..<n])) = p + b mod 2 ^ n" for b :: nat
proof (induction n arbitrary: p)
  case (Suc n)
  have "2 ^ n dvd p" "2 ^ n dvd p + 2 ^ n" using Suc.prems by (auto intro: dvd_trans [OF le_imp_power_dvd])
  moreover have "b mod 2 ^ Suc n = (if odd (b div 2 ^ n) then 2 ^ n else 0) + b mod 2 ^ n"
    using mod_mult2_eq [of b "2 ^ n" 2] by (auto simp: odd_iff_mod_2_eq_one mult.commute)
  ultimately show ?case using Suc.IH [of p] Suc.IH [of "p + 2 ^ n"] by auto
qed auto

lemma foldl_filter: "foldl (\<lambda>res k. if P k then res @ [k] else res) r ks = r @ filter P ks"
  by (induction ks arbitrary: r) auto

lemma step_sizes_cover:
  assumes "a < b" "b < 2 ^ 64"
  shows "\<exists>ks. step_sizes a b = Ok ks \<and> aligned_steps a ks \<and> steps_end a ks = b"
proof -
  let ?m = "ilog2 (b XOR a)"
  obtain base la lb where eq: "a = base * 2 ^ Suc ?m + la" "b = base * 2 ^ Suc ?m + 2 ^ ?m + lb" "la < 2 ^ ?m" "lb < 2 ^ ?m"
    using highest_difference [OF assms(1)] by blast
  define m where "m = ?m"
  define peak where "peak = base * 2 ^ Suc m + 2 ^ m"
  have ab: "a = base * 2 ^ Suc m + la" "b = peak + lb" "la < 2 ^ m" "lb < 2 ^ m" using eq by (simp_all add: m_def peak_def)
  have "b XOR a \<noteq> 0"
  proof
    assume "b XOR a = 0"
    then have "\<not> bit (b XOR a) k" for k by simp
    then have "b = a" by (intro bit_eqI) (auto simp: bit_xor_iff)
    then show False using assms(1) by simp
  qed
  moreover have peak: "2 ^ m dvd peak" "a \<le> peak" "peak < 2 ^ 64" using ab assms(2) by (auto simp: peak_def)
  obtain p res where p: "foldl round_step (a, []) [0..<m] = (p, res)" "2 ^ m dvd p" "a \<le> p" "p \<le> peak" "aligned_steps a res" "steps_end a res = p"
    using rounds_up [OF peak, of m] by auto
  obtain q where q: "p = 2 ^ m * q" using p(2) by (auto elim: dvdE)
  have "2 * base \<le> q" "q \<le> 2 * base + 1"
  proof -
    have "2 ^ m * q \<le> 2 ^ m * (2 * base + 1)" using p(4) q by (simp add: peak_def algebra_simps)
    then show "q \<le> 2 * base + 1" by (simp only: mult_le_cancel1) simp
    have "2 ^ m * (2 * base) = base * 2 ^ Suc m" by simp
    then have "2 ^ m * (2 * base) \<le> 2 ^ m * q" using p(3) q ab(1) by linarith
    then show "2 * base \<le> q" by (simp only: mult_le_cancel1) simp
  qed
  then consider "q = 2 * base" | "q = 2 * base + 1" by linarith
  then have mid: "aligned_steps a (if even (p div 2 ^ m) then res @ [m] else res) \<and>
      steps_end a (if even (p div 2 ^ m) then res @ [m] else res) = peak"
    using p(2,5,6) q by cases (auto simp: aligned_steps_append peak_def algebra_simps)
  have "b mod 2 ^ m = lb" using ab(2,4) peak(1) by (metis add.commute dvd_imp_mod_0 mod_add_right_eq mod_less add_0_right)
  then have "aligned_steps peak (filter (\<lambda>k. odd (b div 2 ^ k)) (rev [0..<m])) \<and> steps_end peak (filter (\<lambda>k. odd (b div 2 ^ k)) (rev [0..<m])) = b"
    using bits_down [OF peak(1), of b] ab(2) by simp
  ultimately show ?thesis using mid p(1)
    by (simp add: step_sizes_def Let_def m_def [symmetric] round_step_def [symmetric] foldl_filter aligned_steps_append)
qed

section \<open>Descending along the bits of a position\<close>

lemma try_fold_map: "try_fold f s (map g xs) = try_fold (\<lambda>s x. f s (g x)) s xs"
  by (induction xs arbitrary: s) (auto intro!: arg_cong2 [of _ _ _ _ obind])

lemma bits_of_steps: "k \<le> h \<Longrightarrow> map (\<lambda>i. h - i - 1) [0..<h - k] = rev [k..<h]"
  by (rule nth_equalityI) (auto simp: rev_nth)

definition index_down :: "nat \<Rightarrow> nat \<Rightarrow> ('h, 'f, 'a) mtree \<Rightarrow> nat \<Rightarrow> (invalid_update, ('h, 'f, 'a) mtree) outcome" where
  "index_down idx k nd b = (case nd of
       Leaf _ _ \<Rightarrow> Panic
     | Node _ l r _ \<Rightarrow> Ok (if even (idx div 2 ^ b) then l else r)
     | Collapsed _ _ \<Rightarrow> Err (CollapsedIndex idx k)
     | Stub _ \<Rightarrow> Err (StubUpdate idx k))"

lemma partial_index_down:
  assumes "k \<le> mt_height t"
  shows "partial_index C t idx k = obind (try_fold (index_down idx k) t (rev [k..<mt_height t])) (\<lambda>nd. ok_or (mt_root C nd) NotFullyRehashed)"
  unfolding partial_index_def bits_of_steps [OF assms, symmetric] try_fold_map
  using assms by (simp add: partial_index_step_def [abs_def] index_down_def)

fun insert_down :: "nat \<Rightarrow> nat \<Rightarrow> 'f \<Rightarrow> nat list \<Rightarrow> ('h, 'f, 'a) mtree \<Rightarrow> (invalid_update, ('h, 'f, 'a) mtree) outcome" where
  "insert_down idx k d [] nd = Ok (Collapsed d k)"
| "insert_down idx k d (b # bs) nd = (case nd of
       Leaf _ _ \<Rightarrow> Panic
     | Collapsed _ _ \<Rightarrow> Err (CollapsedIndex idx k)
     | Stub h \<Rightarrow> if h = 0 then Panic else obind (insert_down idx k d bs (Stub (h - 1))) (\<lambda>c.
         Ok (if even (idx div 2 ^ b) then Node None c (Stub (h - 1)) (k + length (b # bs)) else Node None (Stub (h - 1)) c (k + length (b # bs))))
     | Node _ l r _ \<Rightarrow> if even (idx div 2 ^ b)
         then obind (insert_down idx k d bs l) (\<lambda>c. Ok (Node None c r (k + length (b # bs))))
         else obind (insert_down idx k d bs r) (\<lambda>c. Ok (Node None l c (k + length (b # bs)))))"

lemma rebuild_push:
  "rebuild h c (stack @ [(sib, g)]) = rebuild (Suc h) (Node None (if g then c else sib) (if g then sib else c) (Suc h)) stack"
proof -
  have "foldl (\<lambda>acc (i, sibling, goes_left). Node None (if goes_left then acc else sibling) (if goes_left then sibling else acc) (h + 1 + i))
      t (enumerate (Suc n) xs) =
    foldl (\<lambda>acc (i, sibling, goes_left). Node None (if goes_left then acc else sibling) (if goes_left then sibling else acc) (Suc h + 1 + i))
      t (enumerate n xs)" for t :: "('a, 'b, 'c) mtree" and n xs
    by (induction xs arbitrary: t n) auto
  from this [of _ 0] show ?thesis by (simp add: rebuild_def)
qed

lemma insert_down_stack:
  fixes t :: "('h, 'f, 'a) mtree"
  shows "obind (try_fold (\<lambda>(nd, stack) b. partial_insert_step idx k (b + 1) (nd, stack) 0) (t, stack) bs) (\<lambda>(_, stack).
      Ok (rebuild k (Collapsed d k) stack)) =
   obind (insert_down idx k d bs t) (\<lambda>c. Ok (rebuild (k + length bs) c stack))"
proof (induction bs arbitrary: t stack)
  case (Cons b bs)
  show ?case
  proof (cases t)
    case (Stub h)
    then show ?thesis using Cons.IH [of "Stub (h - 1)" "stack @ [(Stub (h - 1), even (idx div 2 ^ b))]"]
      by (cases "insert_down idx k d bs (Stub (h - Suc 0) :: ('h, 'f, 'a) mtree)") (auto simp: partial_insert_step_def rebuild_push)
  next
    case (Node hs l r h)
    let ?g = "even (idx div 2 ^ b)"
    show ?thesis using Node Cons.IH [of "if ?g then l else r" "stack @ [(if ?g then r else l, ?g)]"]
      by (cases ?g; cases "insert_down idx k d bs (if ?g then l else r)") (auto simp: partial_insert_step_def rebuild_push)
  qed (auto simp: partial_insert_step_def)
qed simp

lemma partial_insert_down:
  assumes "k \<le> mt_height t"
  shows "partial_insert t idx k d = insert_down idx k d (rev [k..<mt_height t]) t"
proof -
  have step: "partial_insert_step idx k h s i = partial_insert_step idx k (h - i - 1 + 1) s 0" for h s i
    by (cases s) (simp add: partial_insert_step_def)
  have "try_fold (partial_insert_step idx k (mt_height t)) (t, []) [0..<mt_height t - k] =
      try_fold (\<lambda>(nd, stack) b. partial_insert_step idx k (b + 1) (nd, stack) 0) (t, []) (rev [k..<mt_height t])"
    unfolding bits_of_steps [OF assms, symmetric] try_fold_map
    by (subst step [abs_def]) (simp add: case_prod_beta)
  then show ?thesis using assms insert_down_stack [of idx k t "[]" "rev [k..<mt_height t]" d]
    by (cases "insert_down idx k d (rev [k..<mt_height t]) t") (auto simp: partial_insert_def rebuild_def)
qed

section \<open>Taking over one subtree\<close>

lemma mod_at_bit: "idx mod 2 ^ Suc n = (if even (idx div 2 ^ n) then 0 else 2 ^ n) + idx mod 2 ^ n" for idx :: nat
  using mod_mult2_eq [of idx "2 ^ n" 2] by (auto simp: odd_iff_mod_2_eq_one mult.commute)

lemma block_fits:
  fixes idx :: nat
  assumes "2 ^ k dvd idx" "k \<le> n"
  shows "idx mod 2 ^ n + 2 ^ k \<le> 2 ^ n"
proof -
  have kn: "(2::nat) ^ k dvd 2 ^ n" using assms(2) by (rule le_imp_power_dvd)
  then have "2 ^ k dvd idx mod 2 ^ n" using assms(1) by (simp add: dvd_mod)
  then show ?thesis using kn multiples_close [of "2 ^ k" "idx mod 2 ^ n + 2 ^ k" "2 ^ n"] by simp
qed

lemma source_segment:
  "mt_hides C S TS \<Longrightarrow> mt_exact C TS \<Longrightarrow> mt_inv C S \<Longrightarrow> mt_root C S \<noteq> None \<Longrightarrow> k \<le> mt_height S \<Longrightarrow> 2 ^ k dvd idx \<Longrightarrow>
   mt_cell S (idx mod 2 ^ mt_height S) \<noteq> Hidden \<Longrightarrow> mt_cell TS (idx mod 2 ^ mt_height S) \<noteq> Vacant \<Longrightarrow>
   \<exists>X nd. try_fold (index_down idx k) S (rev [k..<mt_height S]) = Ok nd \<and> mt_root C nd = Some (mt_digest C X) \<and>
     mt_exact C X \<and> mt_height X = k \<and> (\<forall>i < 2 ^ k. mt_cell X i = mt_cell TS (idx mod 2 ^ mt_height S + i))"
proof (induction C S TS rule: mt_hides.induct)
  case (2 C hs l r h hs' l' r' h')
  then obtain n where n: "h = Suc n" "h' = Suc n" "mt_height l = n" "mt_height r = n" "hs' = hs" by (cases h) auto
  show ?case
  proof (cases "k = Suc n")
    case True
    then have "idx mod 2 ^ Suc n = 0" using "2.prems" by (simp add: dvd_imp_mod_0)
    moreover have "mt_root C (Node hs l r h) = Some (mt_digest C (Node hs' l' r' h'))"
      using "2.prems"(1,4) mt_hides_digest by (cases hs) auto
    ultimately show ?thesis using True n "2.prems" by (intro exI [of _ "Node hs' l' r' h'"] exI [of _ "Node hs l r h"]) auto
  next
    case False
    then have k: "k \<le> n" using "2.prems" n by simp
    note fits = block_fits [OF "2.prems"(6) k] and pos = mod_at_bit [of idx n]
    have below: "idx mod 2 ^ n < 2 ^ n" by simp
    have walk: "try_fold (index_down idx k) (Node hs l r h) (rev [k..<Suc n]) =
        try_fold (index_down idx k) (if even (idx div 2 ^ n) then l else r) (rev [k..<n])"
      using k by (simp add: index_down_def)
    have sub: "mt_inv C l" "mt_inv C r" "mt_root C l \<noteq> None" "mt_root C r \<noteq> None" "mt_exact C l'" "mt_exact C r'" "mt_hides C l l'" "mt_hides C r r'"
      using "2.prems" n by auto
    show ?thesis
    proof (cases "even (idx div 2 ^ n)")
      case True
      then show ?thesis using "2.IH"(1) sub k n "2.prems"(6-8) pos below fits walk by auto
    next
      case False
      then show ?thesis using "2.IH"(2) sub k n "2.prems"(6-8) pos below fits walk by (auto simp: add.assoc)
    qed
  qed
next
  case "4_1"
  then show ?case by (auto intro!: exI)
qed auto

lemma insert_segment:
  assumes X: "mt_exact C X" "mt_height X = k" "mt_cell X i0 \<noteq> Vacant" "i0 < 2 ^ k" and k: "2 ^ k dvd idx"
  shows "k \<le> h \<Longrightarrow> mt_hides C t T \<Longrightarrow> mt_wf t \<Longrightarrow> mt_exact C T \<Longrightarrow> mt_height T = h \<Longrightarrow>
    mt_cell t (idx mod 2 ^ h) \<noteq> Hidden \<Longrightarrow>
    \<exists>t' T'. insert_down idx k (mt_digest C X) (rev [k..<h]) t = Ok t' \<and> mt_hides C t' T' \<and> mt_wf t' \<and> mt_height t' = h \<and>
      mt_exact C T' \<and> mt_height T' = h \<and>
      (\<forall>i < 2 ^ h. mt_cell T' i = (if idx mod 2 ^ h \<le> i \<and> i < idx mod 2 ^ h + 2 ^ k then mt_cell X (i - idx mod 2 ^ h) else mt_cell T i)) \<and>
      (\<forall>i < 2 ^ h. mt_cell t' i = (if idx mod 2 ^ h \<le> i \<and> i < idx mod 2 ^ h + 2 ^ k then Hidden else mt_cell t i))"
proof (induction h arbitrary: t T)
  case 0
  then show ?case using X k by (intro exI [of _ "Collapsed (mt_digest C X) k"] exI [of _ X]) auto
next
  case (Suc n)
  show ?case
  proof (cases "k = Suc n")
    case True
    then have "idx mod 2 ^ Suc n = 0" using k by (simp add: dvd_imp_mod_0)
    then show ?thesis using X True by (intro exI [of _ "Collapsed (mt_digest C X) k"] exI [of _ X]) auto
  next
    case False
    then have kn: "k \<le> n" using Suc.prems(1) by simp
    note fits = block_fits [OF k kn] and pos = mod_at_bit [of idx n]
    obtain hs l r L R where t: "t = Node hs l r (Suc n) \<or> t = Stub (Suc n) \<and> l = Stub n \<and> r = Stub n"
      and lr: "mt_hides C l L" "mt_hides C r R" "mt_wf l" "mt_wf r" "mt_exact C L" "mt_exact C R" "mt_height L = n" "mt_height R = n"
        "\<And>i. mt_cell T i = (if i < 2 ^ n then mt_cell L i else mt_cell R (i - 2 ^ n))"
        "\<And>i. mt_cell t i = (if i < 2 ^ n then mt_cell l i else mt_cell r (i - 2 ^ n))"
    proof (cases t)
      case (Node hs l r h)
      then have h: "h = Suc n" using Suc.prems mt_hides_height by fastforce
      show ?thesis
      proof (cases T)
        case T: (Node hs' l' r' h')
        then show ?thesis using that [of hs l r l' r'] Node h Suc.prems by auto
      next
        case (Stub h')
        then show ?thesis using that [of hs l r "Stub n" "Stub n"] Node h Suc.prems by auto
      qed (use Node h Suc.prems in auto)
    next
      case (Stub h)
      then have "T = Stub h" "h = Suc n" using Suc.prems by auto
      then show ?thesis using that [of None "Stub n" "Stub n" "Stub n" "Stub n"] Stub by auto
    qed (use Suc.prems in auto)
    have step: "insert_down idx k d (rev [k..<Suc n]) t = (if even (idx div 2 ^ n)
        then obind (insert_down idx k d (rev [k..<n]) l) (\<lambda>c. Ok (Node None c r (Suc n)))
        else obind (insert_down idx k d (rev [k..<n]) r) (\<lambda>c. Ok (Node None l c (Suc n))))" for d
      using t kn by auto
    have heights: "mt_height l = n" "mt_height r = n" using mt_hides_height [OF lr(1)] mt_hides_height [OF lr(2)] lr(7,8) by simp_all
    show ?thesis
    proof (cases "even (idx div 2 ^ n)")
      case True
      then have j: "idx mod 2 ^ Suc n = idx mod 2 ^ n" using pos by simp
      obtain l1 L1 where l1: "insert_down idx k (mt_digest C X) (rev [k..<n]) l = Ok l1" "mt_hides C l1 L1" "mt_wf l1" "mt_height l1 = n" "mt_exact C L1" "mt_height L1 = n"
        "\<forall>i < 2 ^ n. mt_cell L1 i = (if idx mod 2 ^ n \<le> i \<and> i < idx mod 2 ^ n + 2 ^ k then mt_cell X (i - idx mod 2 ^ n) else mt_cell L i)"
        "\<forall>i < 2 ^ n. mt_cell l1 i = (if idx mod 2 ^ n \<le> i \<and> i < idx mod 2 ^ n + 2 ^ k then Hidden else mt_cell l i)"
        using Suc.IH [OF kn lr(1,3,5,7)] Suc.prems(6) j lr(10) by auto
      have "\<not> cells_vacant (2 ^ n) (mt_cell L1)" using l1(7) fits X(3,4)
        by (auto simp: cells_vacant_def intro!: exI [of _ "idx mod 2 ^ n + i0"])
      then have "mt_exact C (Node None L1 R (Suc n))" using l1 lr by simp
      moreover have "mt_cell (Node None L1 R (Suc n)) i = (if idx mod 2 ^ n \<le> i \<and> i < idx mod 2 ^ n + 2 ^ k then mt_cell X (i - idx mod 2 ^ n) else mt_cell T i)"
        "mt_cell (Node None l1 r (Suc n)) i = (if idx mod 2 ^ n \<le> i \<and> i < idx mod 2 ^ n + 2 ^ k then Hidden else mt_cell t i)" for i
        using l1(7,8) lr(9,10) fits by (simp_all only: mt_cell.simps diff_Suc_1) auto
      moreover have "mt_hides C (Node None l1 r (Suc n)) (Node None L1 R (Suc n))" "mt_wf (Node None l1 r (Suc n))" using l1 lr heights by simp_all
      moreover have "insert_down idx k (mt_digest C X) (rev [k..<Suc n]) t = Ok (Node None l1 r (Suc n))" using True step l1(1) by simp
      ultimately show ?thesis unfolding j
        by (intro exI [of _ "Node None l1 r (Suc n)"] exI [of _ "Node None L1 R (Suc n)"]) (simp only: mt_height.simps simp_thms)
    next
      case False
      then have j: "idx mod 2 ^ Suc n = 2 ^ n + idx mod 2 ^ n" using pos by simp
      obtain r1 R1 where r1: "insert_down idx k (mt_digest C X) (rev [k..<n]) r = Ok r1" "mt_hides C r1 R1" "mt_wf r1" "mt_height r1 = n" "mt_exact C R1" "mt_height R1 = n"
        "\<forall>i < 2 ^ n. mt_cell R1 i = (if idx mod 2 ^ n \<le> i \<and> i < idx mod 2 ^ n + 2 ^ k then mt_cell X (i - idx mod 2 ^ n) else mt_cell R i)"
        "\<forall>i < 2 ^ n. mt_cell r1 i = (if idx mod 2 ^ n \<le> i \<and> i < idx mod 2 ^ n + 2 ^ k then Hidden else mt_cell r i)"
        using Suc.IH [OF kn lr(2,4,6,8)] Suc.prems(6) j lr(10) by auto
      have "\<not> cells_vacant (2 ^ n) (mt_cell R1)" using r1(7) fits X(3,4)
        by (auto simp: cells_vacant_def intro!: exI [of _ "idx mod 2 ^ n + i0"])
      then have "mt_exact C (Node None L R1 (Suc n))" using r1 lr by simp
      moreover have sub: "i - 2 ^ n < 2 ^ n" "i - 2 ^ n - idx mod 2 ^ n = i - (2 ^ n + idx mod 2 ^ n)" if "i < 2 ^ Suc n" for i
        using that by auto
      moreover have "\<forall>i < 2 ^ Suc n. mt_cell (Node None L R1 (Suc n)) i =
          (if 2 ^ n + idx mod 2 ^ n \<le> i \<and> i < 2 ^ n + idx mod 2 ^ n + 2 ^ k then mt_cell X (i - (2 ^ n + idx mod 2 ^ n)) else mt_cell T i)"
        "\<forall>i < 2 ^ Suc n. mt_cell (Node None l r1 (Suc n)) i =
          (if 2 ^ n + idx mod 2 ^ n \<le> i \<and> i < 2 ^ n + idx mod 2 ^ n + 2 ^ k then Hidden else mt_cell t i)"
        using r1(7,8) lr(9,10) sub by (simp_all only: mt_cell.simps diff_Suc_1) auto
      moreover have "mt_hides C (Node None l r1 (Suc n)) (Node None L R1 (Suc n))" "mt_wf (Node None l r1 (Suc n))" using r1 lr heights by simp_all
      moreover have "insert_down idx k (mt_digest C X) (rev [k..<Suc n]) t = Ok (Node None l r1 (Suc n))" using False step r1(1) by simp
      ultimately show ?thesis unfolding j
        by (intro exI [of _ "Node None l r1 (Suc n)"] exI [of _ "Node None L R1 (Suc n)"]) (simp only: mt_height.simps simp_thms)
    qed
  qed
qed

section \<open>Taking over a range\<close>

lemma steps_end_ge: "p \<le> steps_end p ks"
  by (simp add: steps_end_def)

lemma take_over:
  assumes S: "mt_hides C S TS" "mt_exact C TS" "mt_inv C S" "mt_root C S \<noteq> None" "mt_height S = h"
  shows "aligned_steps p ks \<Longrightarrow> steps_end p ks \<le> 2 ^ h \<Longrightarrow>
    (\<And>i. p \<le> i \<Longrightarrow> i < steps_end p ks \<Longrightarrow> mt_cell S i \<noteq> Hidden \<and> mt_cell TS i \<noteq> Vacant \<and> mt_cell t i \<noteq> Hidden) \<Longrightarrow>
    mt_hides C t T \<Longrightarrow> mt_wf t \<Longrightarrow> mt_exact C T \<Longrightarrow> mt_height T = h \<Longrightarrow>
    \<exists>ds t' T'. try_fold (\<lambda>(hashes, nd) k. obind (partial_index C S nd k) (\<lambda>d. Ok (hashes @ [d], nd + 2 ^ k))) (hs, p) ks =
        Ok (hs @ ds, steps_end p ks) \<and> length ds = length ks \<and>
      try_fold (\<lambda>(nd, idx) (k, d). obind (partial_insert nd idx k d) (\<lambda>nd. Ok (nd, idx + 2 ^ k))) (t, p) (zip ks ds) = Ok (t', steps_end p ks) \<and>
      mt_hides C t' T' \<and> mt_wf t' \<and> mt_exact C T' \<and> mt_height T' = h \<and>
      (\<forall>i < 2 ^ h. mt_cell T' i = (if p \<le> i \<and> i < steps_end p ks then mt_cell TS i else mt_cell T i)) \<and>
      (\<forall>i < 2 ^ h. mt_cell t' i = (if p \<le> i \<and> i < steps_end p ks then Hidden else mt_cell t i))"
proof (induction ks arbitrary: p t T hs)
  case Nil
  then show ?case by auto
next
  case (Cons k ks)
  note low = steps_end_ge [of "p + 2 ^ k" ks]
  have "p + 2 ^ k \<le> 2 ^ h" using low Cons.prems(2) unfolding steps_end_simps by (rule order_trans)
  then have "2 ^ k \<le> (2::nat) ^ h" by (rule add_leD2)
  then have kh: "k \<le> h" by (rule power_le_imp_le_exp [rotated]) simp
  have p: "p mod 2 ^ h = p" "p < steps_end (p + 2 ^ k) ks"
  proof -
    show p: "p < steps_end (p + 2 ^ k) ks" using low by (rule less_le_trans [rotated]) simp
    then show "p mod 2 ^ h = p" using Cons.prems(2) by simp
  qed
  have at_p: "mt_cell S p \<noteq> Hidden" "mt_cell TS p \<noteq> Vacant" "mt_cell t p \<noteq> Hidden" using Cons.prems(3) [of p] p(2) by auto
  have dvd: "2 ^ k dvd p" "aligned_steps (p + 2 ^ k) ks" using Cons.prems(1) by auto
  obtain X nd where X: "try_fold (index_down p k) S (rev [k..<h]) = Ok nd" "mt_root C nd = Some (mt_digest C X)"
      "mt_exact C X" "mt_height X = k" "\<forall>i < 2 ^ k. mt_cell X i = mt_cell TS (p + i)"
    using source_segment [OF S(1-4), of k p] S(5) kh dvd(1) at_p p(1) by auto
  have read: "partial_index C S p k = Ok (mt_digest C X)" using X S(5) kh by (simp add: partial_index_down)
  have th: "mt_height t = h" using mt_hides_height [OF Cons.prems(4)] Cons.prems(7) by simp
  have "mt_cell X 0 \<noteq> Vacant" using X(5) at_p by auto
  then obtain t1 T1 where t1: "partial_insert t p k (mt_digest C X) = Ok t1" "mt_hides C t1 T1" "mt_wf t1" "mt_exact C T1" "mt_height T1 = h"
      "\<forall>i < 2 ^ h. mt_cell T1 i = (if p \<le> i \<and> i < p + 2 ^ k then mt_cell X (i - p) else mt_cell T i)"
      "\<forall>i < 2 ^ h. mt_cell t1 i = (if p \<le> i \<and> i < p + 2 ^ k then Hidden else mt_cell t i)"
    using insert_segment [OF X(3,4) _ _ dvd(1) kh Cons.prems(4-7), of 0] at_p p(1) kh th by (auto simp: partial_insert_down)
  obtain ds t' T' where rest: "try_fold (\<lambda>(hashes, nd) k. obind (partial_index C S nd k) (\<lambda>d. Ok (hashes @ [d], nd + 2 ^ k))) (hs @ [mt_digest C X], p + 2 ^ k) ks =
        Ok ((hs @ [mt_digest C X]) @ ds, steps_end (p + 2 ^ k) ks)" "length ds = length ks"
      "try_fold (\<lambda>(nd, idx) (k, d). obind (partial_insert nd idx k d) (\<lambda>nd. Ok (nd, idx + 2 ^ k))) (t1, p + 2 ^ k) (zip ks ds) = Ok (t', steps_end (p + 2 ^ k) ks)"
      "mt_hides C t' T'" "mt_wf t'" "mt_exact C T'" "mt_height T' = h"
      "\<forall>i < 2 ^ h. mt_cell T' i = (if p + 2 ^ k \<le> i \<and> i < steps_end (p + 2 ^ k) ks then mt_cell TS i else mt_cell T1 i)"
      "\<forall>i < 2 ^ h. mt_cell t' i = (if p + 2 ^ k \<le> i \<and> i < steps_end (p + 2 ^ k) ks then Hidden else mt_cell t1 i)"
    using Cons.IH [OF dvd(2) _ _ t1(2-5), of "hs @ [mt_digest C X]"] Cons.prems(2,3) t1(7) by force
  have "mt_cell X (i - p) = mt_cell TS i" if "p \<le> i" "i < p + 2 ^ k" for i using X(5) that by auto
  then have "\<forall>i < 2 ^ h. mt_cell T' i = (if p \<le> i \<and> i < steps_end p (k # ks) then mt_cell TS i else mt_cell T i)"
    using rest(8) t1(6) low by auto
  moreover have "\<forall>i < 2 ^ h. mt_cell t' i = (if p \<le> i \<and> i < steps_end p (k # ks) then Hidden else mt_cell t i)"
    using rest(9) t1(7) low by auto
  ultimately show ?case using read t1(1) rest(1-7)
    by (intro exI [of _ "mt_digest C X # ds"] exI [of _ t'] exI [of _ T'] conjI) simp_all
qed

lemma mt_hides_filled: "mt_hides C t T \<Longrightarrow> mt_cell t i = Filled x a \<Longrightarrow> mt_cell T i = Filled x a"
  by (induction C t T arbitrary: i rule: mt_hides.induct) (auto split: if_splits)

lemma collapsed_update_relates:
  assumes S: "tree_rel C h S cS" "mt_inv C S" "mt_root C S \<noteq> None" and t: "tree_rel C h t ct"
    and range: "s \<le> e" "e < 2 ^ h" "h \<le> 63"
    and open_range: "\<And>i. s \<le> i \<Longrightarrow> i \<le> e \<Longrightarrow> mt_index S i \<noteq> None \<and> mt_cell t i \<noteq> Hidden"
  shows "\<exists>u t'. collapsed_update_new C S s e = Ok u \<and> apply_collapsed_update t u = Ok t' \<and>
    tree_rel C h t' (\<lambda>i. if s \<le> i \<and> i \<le> e then cS i else ct i) \<and>
    (\<forall>i < 2 ^ h. mt_cell t' i = (if s \<le> i \<and> i \<le> e then Hidden else mt_cell t i))"
proof -
  obtain TS where TS: "mt_hides C S TS" "mt_exact C TS" "mt_height TS = h" "\<forall>i < 2 ^ h. mt_cell TS i = cS i"
    using S(1) by (auto simp: tree_rel_def)
  obtain T where T: "mt_hides C t T" "mt_wf t" "mt_exact C T" "mt_height T = h" "\<forall>i < 2 ^ h. mt_cell T i = ct i"
    using t by (auto simp: tree_rel_def)
  have "(2::nat) ^ h \<le> 2 ^ 63" using range(3) by (intro power_increasing) auto
  then have e: "(e + 1) mod 2 ^ 64 = e + 1" "e + 1 < 2 ^ 64" "s < e + 1" using range by auto
  obtain ks where ks: "step_sizes s (e + 1) = (Ok ks :: (invalid_update, nat list) outcome)" "aligned_steps s ks" "steps_end s ks = e + 1"
    using step_sizes_cover [OF e(3,2)] by auto
  have Sh: "mt_height S = h" using mt_hides_height [OF TS(1)] TS(3) by simp
  have "mt_cell S i \<noteq> Hidden \<and> mt_cell TS i \<noteq> Vacant \<and> mt_cell t i \<noteq> Hidden" if "s \<le> i" "i < steps_end s ks" for i
    using open_range [of i] that ks(3) mt_hides_filled [OF TS(1), of i] by (cases "mt_cell S i") (auto simp: mt_index_cell)
  then obtain ds t' T' where *: "try_fold (\<lambda>(hashes, nd) k. obind (partial_index C S nd k) (\<lambda>d. Ok (hashes @ [d], nd + 2 ^ k))) ([], s) ks = Ok (ds, e + 1)"
      "length ds = length ks"
      "try_fold (\<lambda>(nd, idx) (k, d). obind (partial_insert nd idx k d) (\<lambda>nd. Ok (nd, idx + 2 ^ k))) (t, s) (zip ks ds) = Ok (t', e + 1)"
      "mt_hides C t' T'" "mt_wf t'" "mt_exact C T'" "mt_height T' = h"
      "\<forall>i < 2 ^ h. mt_cell T' i = (if s \<le> i \<and> i < e + 1 then mt_cell TS i else mt_cell T i)"
      "\<forall>i < 2 ^ h. mt_cell t' i = (if s \<le> i \<and> i < e + 1 then Hidden else mt_cell t i)"
    using take_over [OF TS(1,2) S(2,3) Sh ks(2) _ _ T(1-4), of "[]"] ks(3) range(2) by auto
  have "collapsed_update_new C S s e = Ok \<lparr>cu_start = s, cu_end = e, cu_hashes = ds\<rparr>"
    using range Sh e(1) ks(1) *(1) by (simp add: collapsed_update_new_def)
  moreover have "apply_collapsed_update t \<lparr>cu_start = s, cu_end = e, cu_hashes = ds\<rparr> = Ok t'"
    using e(1) ks(1) *(2,3) by (simp add: apply_collapsed_update_def)
  moreover have "tree_rel C h t' (\<lambda>i. if s \<le> i \<and> i \<le> e then cS i else ct i)"
    using *(4-8) TS(4) T(5) by (auto simp: tree_rel_def intro!: exI [of _ T'])
  ultimately show ?thesis using *(9) by auto
qed

section \<open>The property\<close>

text \<open>Property C16. Collapsed updates carry a range from one tree to another. Take two trees of the same height (at most 63), each
  made by updates, collapses and rehashes from a blank tree, and a range every position of which is a readable leaf of the
  first and is not collapsed in the second. Then \<open>MerkleTreeCollapsedUpdate::new\<close> on the rehashed first tree and
  \<open>apply_collapsed_update\<close> on the second both succeed. The root of the result is the digest of the leaves of the second tree
  with those of the first in the range, although the update holds digests only: the range is collapsed in the result, and
  every other position reads as before.\<close>

theorem collapsed_update_correct:
  assumes "list_all (op_admissible h) ops0" and "try_fold (tree_step C) (mt_blank h) ops0 = Ok S"
    and "list_all (op_admissible h) ops" and "try_fold (tree_step C) (mt_blank h) ops = Ok t"
    and "s \<le> e" and "e < 2 ^ h" and "h \<le> 63"
    and "\<forall>i. s \<le> i \<and> i \<le> e \<longrightarrow> mt_index S i \<noteq> None \<and> mt_cell t i \<noteq> Hidden"
  shows "\<exists>u t'. collapsed_update_new C (mt_rehash C S) s e = Ok u \<and> apply_collapsed_update t u = Ok t' \<and>
    mt_root C (mt_rehash C t') = Some (cells_digest C h (\<lambda>i. if s \<le> i \<and> i \<le> e
      then foldl leaf_step (\<lambda>_. Vacant) ops0 i else foldl leaf_step (\<lambda>_. Vacant) ops i)) \<and>
    (\<forall>i < 2 ^ h. mt_cell t' i = (if s \<le> i \<and> i \<le> e then Hidden else mt_cell t i))"
proof -
  have ops0: "list_all (op_admissible h) (ops0 @ [Rehash])" "try_fold (tree_step C) (mt_blank h) (ops0 @ [Rehash]) = Ok (mt_rehash C S)"
    using assms(1,2) by (simp_all add: try_fold_append)
  have inv: "mt_inv C (mt_rehash C S)" using tree_run_inv [OF ops0(2)] ops0(1) by (simp add: mt_blank_def)
  have rel: "tree_rel C h (mt_rehash C S) (foldl leaf_step (\<lambda>_. Vacant) ops0)"
    using tree_rel_step [OF tree_rel_run [OF tree_rel_blank assms(1,2)], of Rehash] by (simp add: leaf_step.simps [abs_def])
  obtain u t' where "collapsed_update_new C (mt_rehash C S) s e = Ok u" "apply_collapsed_update t u = Ok t'"
      "tree_rel C h t' (\<lambda>i. if s \<le> i \<and> i \<le> e then foldl leaf_step (\<lambda>_. Vacant) ops0 i else foldl leaf_step (\<lambda>_. Vacant) ops i)"
      "\<forall>i < 2 ^ h. mt_cell t' i = (if s \<le> i \<and> i \<le> e then Hidden else mt_cell t i)"
    using collapsed_update_relates [OF rel inv _ tree_rel_run [OF tree_rel_blank assms(3,4)] assms(5-7)]
      assms(8) by (auto simp: mt_index_cell)
  then show ?thesis using tree_rel_digest by auto
qed

text \<open>A range of three leaves that does not start at an even position, taken over by a tree that has other leaves.\<close>

abbreviation sender_ops :: "(nat, unit) tree_op list" where
  "sender_ops \<equiv> [Update 0 3 (), Update (Suc 0) 4 (), Update 2 7 (), Update 3 9 ()]"

abbreviation sender_tree :: "(nat, nat, unit) mtree" where
  "sender_tree \<equiv> Node None (Node None (Leaf 3 ()) (Leaf 4 ()) (Suc 0)) (Node None (Leaf 7 ()) (Leaf 9 ()) (Suc 0)) (Suc (Suc 0))"

abbreviation receiver_tree :: "(nat, nat, unit) mtree" where
  "receiver_tree \<equiv> Node None (Node None (Leaf 5 ()) (Stub 0) (Suc 0)) (Stub (Suc 0)) (Suc (Suc 0))"

lemma mixed_digest:
  "cells_digest toy_crypto (Suc (Suc 0)) (\<lambda>i. if 1 \<le> i \<and> i \<le> 3 then foldl leaf_step (\<lambda>_. Vacant) sender_ops i
     else foldl leaf_step (\<lambda>_. Vacant) [Update 0 5 ()] i) = 444"
proof -
  have full: "(\<exists>i :: nat. i < 4)" "(\<exists>i :: nat. i < 2)"
    by (auto intro: exI [of _ 0])
  have "cells_digest toy_crypto (Suc (Suc 0)) (\<lambda>i. Filled ([5, 4, 7, 9] ! i) ()) = 444" by (simp add: full)
  moreover have "(if 1 \<le> i \<and> i \<le> 3 then foldl leaf_step (\<lambda>_. Vacant) sender_ops i else foldl leaf_step (\<lambda>_. Vacant) [Update 0 5 ()] i) =
      Filled ([5, 4, 7, 9] ! i) ()" if "i < 2 ^ Suc (Suc 0)" for i
  proof -
    have "i = 0 \<or> i = 1 \<or> i = 2 \<or> i = 3" using that by auto
    then show ?thesis by (elim disjE) simp_all
  qed
  ultimately show ?thesis by (subst cells_digest_cong [where d = "\<lambda>i. Filled ([5, 4, 7, 9] ! i) ()"]) blast+
qed

theorem collapsed_update_correct_witness:
  "\<exists>u t'. collapsed_update_new toy_crypto (mt_rehash toy_crypto sender_tree) 1 3 = Ok u \<and> apply_collapsed_update receiver_tree u = Ok t' \<and>
     mt_root toy_crypto (mt_rehash toy_crypto t') = Some 444 \<and> mt_index t' 0 = Some (5, ())"
proof -
  have runs: "try_fold (tree_step toy_crypto) (mt_blank (Suc (Suc 0))) sender_ops = Ok sender_tree"
    "try_fold (tree_step toy_crypto) (mt_blank (Suc (Suc 0))) [Update 0 5 ()] = Ok receiver_tree"
    by (simp_all add: mt_blank_def del: mt_rehash.simps)
  have "\<forall>i. 1 \<le> i \<and> i \<le> 3 \<longrightarrow> mt_index sender_tree i \<noteq> None \<and> mt_cell receiver_tree i \<noteq> Hidden" by simp
  from collapsed_update_correct [OF _ runs(1) _ runs(2) _ _ _ this] obtain u t' where
    "collapsed_update_new toy_crypto (mt_rehash toy_crypto sender_tree) 1 3 = Ok u" "apply_collapsed_update receiver_tree u = Ok t'"
    "mt_root toy_crypto (mt_rehash toy_crypto t') = Some 444" "mt_cell t' 0 = mt_cell receiver_tree 0"
    unfolding mixed_digest by auto
  then show ?thesis by (auto simp: mt_index_cell)
qed

end
