(* ===== verification/Fab_Encoding.thy ===== *)
theory Fab_Encoding
  imports Prelude
begin

text \<open>
  \<open>base-crypto/src/fab/encoding.rs\<close>, \<open>conversions.rs\<close> and \<open>alignments.rs\<close>: the field-aligned
  binary encoding. A value is a sequence of byte strings (atoms); an alignment is a sequence of
  segments that says how the atoms are to be read; an aligned value is a value that fits its
  alignment.

  Bytes are \<open>nat\<close> below 256 (\<open>bytes_ok\<close>). \<open>consume_internal\<close> is generic in its accumulator in the
  code; it is modelled for the accumulator that collects the alignment atoms, of which the counter
  used by \<open>consume\<close> is the length.
\<close>

section \<open>Atoms\<close>

type_synonym value_atom = "nat list"
type_synonym fab_value = "value_atom list"

definition bytes_ok :: "nat list \<Rightarrow> bool" where
  "bytes_ok bs \<longleftrightarrow> (\<forall>b \<in> set bs. b < 256)"

definition va_normalize :: "value_atom \<Rightarrow> value_atom" where
  "va_normalize bs = rev (dropWhile (\<lambda>b. b = 0) (rev bs))"

definition is_in_normal_form :: "value_atom \<Rightarrow> bool" where
  "is_in_normal_form bs \<longleftrightarrow> bs = [] \<or> last bs \<noteq> 0"

datatype alignment_atom = Compress | Bytes nat | Field

datatype alignment_segment = Atom alignment_atom | Option "alignment_segment list list"

type_synonym alignment = "alignment_segment list"

definition field_byte_limit :: nat where "field_byte_limit = 64"

fun atom_fits :: "alignment_atom \<Rightarrow> value_atom \<Rightarrow> bool" where
  "atom_fits Compress v \<longleftrightarrow> True"
| "atom_fits (Bytes n) v \<longleftrightarrow> n \<ge> length v mod 2 ^ 32 \<and> is_in_normal_form v"
| "atom_fits Field v \<longleftrightarrow> field_byte_limit \<ge> length v \<and> is_in_normal_form v"

section \<open>Conversions\<close>

datatype invalid_builtin_decode = InvalidBuiltinDecode string

text \<open>\<open>to_le_bytes\<close> and \<open>from_le_bytes\<close>.\<close>

fun le_val :: "nat list \<Rightarrow> nat" where
  "le_val [] = 0"
| "le_val (b # bs) = b + 256 * le_val bs"

fun to_le :: "nat \<Rightarrow> nat \<Rightarrow> nat list" where
  "to_le 0 n = []"
| "to_le (Suc k) n = n mod 256 # to_le k (n div 256)"

definition atom_of_u128 :: "nat \<Rightarrow> value_atom" where
  "atom_of_u128 n = va_normalize (to_le 16 n)"

definition u128_of_atom :: "value_atom \<Rightarrow> (invalid_builtin_decode, nat) outcome" where
  "u128_of_atom v = (if length v \<le> 16 then Ok (le_val (v @ replicate (16 - length v) 0))
     else Err (InvalidBuiltinDecode ''Fr''))"

text \<open>The narrower integers go through \<open>u128\<close>; \<open>mx\<close> is the largest value of the type.\<close>

definition uint_of_atom :: "nat \<Rightarrow> string \<Rightarrow> value_atom \<Rightarrow> (invalid_builtin_decode, nat) outcome" where
  "uint_of_atom mx ty v = obind (u128_of_atom v) (\<lambda>n.
     if n \<le> mx then Ok n else Err (InvalidBuiltinDecode ty))"

definition bool_of_atom :: "value_atom \<Rightarrow> (invalid_builtin_decode, bool) outcome" where
  "bool_of_atom v = obind (uint_of_atom u8_max ''u8'' v) (\<lambda>b.
     if b = 0 then Ok False else if b = 1 then Ok True else Err (InvalidBuiltinDecode ''bool''))"

definition atom_of_bool :: "bool \<Rightarrow> value_atom" where
  "atom_of_bool b = va_normalize [if b then 1 else 0]"

definition persistent_hash_bytes :: nat where "persistent_hash_bytes = 32"

definition atom_of_hash :: "nat list \<Rightarrow> value_atom" where
  "atom_of_hash h = va_normalize h"

definition hash_of_atom :: "value_atom \<Rightarrow> (invalid_builtin_decode, nat list) outcome" where
  "hash_of_atom v = (if length v \<le> persistent_hash_bytes
     then Ok (v @ replicate (persistent_hash_bytes - length v) 0)
     else Err (InvalidBuiltinDecode ''HashOutput''))"

definition array_of_atom :: "nat \<Rightarrow> string \<Rightarrow> value_atom \<Rightarrow> (invalid_builtin_decode, nat list) outcome" where
  "array_of_atom n ty v = (if length v \<le> n then Ok (v @ replicate (n - length v) 0)
     else Err (InvalidBuiltinDecode ty))"

text \<open>\<open>forward_primitive_value!\<close>: a primitive is a value of exactly one atom.\<close>

definition prim_of_value ::
  "string \<Rightarrow> (value_atom \<Rightarrow> (invalid_builtin_decode, 'a) outcome) \<Rightarrow> fab_value \<Rightarrow>
     (invalid_builtin_decode, 'a) outcome" where
  "prim_of_value ty f v = (if length v = 1 then f (v ! 0) else Err (InvalidBuiltinDecode ty))"

definition u8_of_value where "u8_of_value = prim_of_value ''u8'' (uint_of_atom u8_max ''u8'')"
definition u16_of_value where "u16_of_value = prim_of_value ''u16'' (uint_of_atom u16_max ''u16'')"
definition u32_of_value where "u32_of_value = prim_of_value ''u32'' (uint_of_atom u32_max ''u32'')"
definition u64_of_value where "u64_of_value = prim_of_value ''u64'' (uint_of_atom u64_max ''u64'')"
definition bool_of_value where "bool_of_value = prim_of_value ''bool'' bool_of_atom"
definition hash_of_value where "hash_of_value = prim_of_value ''HashOutput'' hash_of_atom"

section \<open>Alignments\<close>

lemma alignment_branch_size:
  "k < length tys \<Longrightarrow> size_list size (tys ! k) < Suc (size_list (size_list size) tys)"
  by (metis less_Suc_eq_le nth_mem size_list_estimation' order_refl)

text \<open>\<open>consume_internal\<close>; the discriminant of an option is a \<open>u16\<close>.\<close>

function (sequential) consume_internal ::
  "alignment \<Rightarrow> fab_value \<Rightarrow> alignment_atom list \<Rightarrow> alignment_atom list option" where
  "consume_internal [] v acc = Some acc"
| "consume_internal (Atom p # ts) v acc =
     (if v = [] \<or> \<not> atom_fits p (v ! 0) then None
      else consume_internal ts (drop 1 v) (acc @ [p]))"
| "consume_internal (Option tys # ts) v acc =
     (if v = [] \<or> \<not> atom_fits (Bytes 2) (v ! 0) then None
      else case u16_of_value (take 1 v) of Err _ \<Rightarrow> None | Panic \<Rightarrow> None
      | Ok branch \<Rightarrow>
         if branch < length tys then
           (case consume_internal (tys ! branch) (drop 1 v) (acc @ [Bytes 2]) of None \<Rightarrow> None
            | Some acc2 \<Rightarrow> consume_internal ts (drop (length acc2 - length (acc @ [Bytes 2])) (drop 1 v)) acc2)
         else None)"
  by pat_completeness auto
termination
  by (relation "measure (\<lambda>(ts, v, acc). size_list size ts)")
    (auto dest!: alignment_branch_size)

definition alignment_consume :: "alignment \<Rightarrow> fab_value \<Rightarrow> (fab_value \<times> fab_value) option" where
  "alignment_consume a v = map_option (\<lambda>acc. (take (length acc) v, drop (length acc) v)) (consume_internal a v [])"

definition alignment_fits :: "alignment \<Rightarrow> fab_value \<Rightarrow> bool" where
  "alignment_fits a v \<longleftrightarrow> map_option (\<lambda>(_, res). res = []) (alignment_consume a v) = Some True"

definition alignment_singleton :: "alignment_atom \<Rightarrow> alignment" where
  "alignment_singleton p = [Atom p]"

definition alignment_concat :: "alignment list \<Rightarrow> alignment" where
  "alignment_concat as = concat as"

fun alignment_default :: "alignment \<Rightarrow> fab_value" where
  "alignment_default [] = []"
| "alignment_default (Atom _ # ts) = [] # alignment_default ts"
| "alignment_default (Option [] # ts) = alignment_default ts"
| "alignment_default (Option (ty # tys) # ts) = alignment_default ty @ alignment_default ts"

record aligned_value =
  av_value :: fab_value
  av_alignment :: alignment

definition av_new :: "fab_value \<Rightarrow> alignment \<Rightarrow> aligned_value option" where
  "av_new v a = (if alignment_fits a v then Some \<lparr>av_value = v, av_alignment = a\<rparr> else None)"

definition value_concat :: "fab_value list \<Rightarrow> fab_value" where
  "value_concat vs = concat vs"

definition av_concat :: "aligned_value list \<Rightarrow> aligned_value" where
  "av_concat vs = \<lparr>av_value = concat (map av_value vs), av_alignment = concat (map av_alignment vs)\<rparr>"

text \<open>The alignments of the built-in types (\<open>fixed_bytes_aligned!\<close>) and \<open>From<T> for AlignedValue\<close>. Its \<open>expect\<close> on the
  check of \<open>AlignedValue::new\<close> never fails for these types: the value fits by lemma \<open>aligned_of_ok\<close> below, so it is left out.\<close>

definition aligned_of :: "nat \<Rightarrow> value_atom \<Rightarrow> aligned_value" where
  "aligned_of n v = \<lparr>av_value = [v], av_alignment = alignment_singleton (Bytes n)\<rparr>"

definition av_of_u64 :: "nat \<Rightarrow> aligned_value" where "av_of_u64 n = aligned_of 8 (atom_of_u128 n)"
definition av_of_u8 :: "nat \<Rightarrow> aligned_value" where "av_of_u8 n = aligned_of 1 (atom_of_u128 n)"
definition av_of_bool :: "bool \<Rightarrow> aligned_value" where "av_of_bool b = aligned_of 1 (atom_of_bool b)"
definition av_of_hash :: "nat list \<Rightarrow> aligned_value" where
  "av_of_hash h = aligned_of persistent_hash_bytes (atom_of_hash h)"
definition av_unit :: aligned_value where "av_unit = \<lparr>av_value = [], av_alignment = []\<rparr>"

section \<open>Lemmas on atoms\<close>

lemma va_normalize_Nil [simp]: "va_normalize [] = []"
  by (simp add: va_normalize_def)

lemma va_normalize_snoc: "va_normalize (bs @ [b]) = (if b = 0 then va_normalize bs else bs @ [b])"
  by (simp add: va_normalize_def)

lemma va_normalize_normal [simp]: "is_in_normal_form (va_normalize bs)"
  by (induction bs rule: rev_induct) (auto simp: va_normalize_snoc is_in_normal_form_def)

lemma va_normalize_id: "is_in_normal_form bs \<Longrightarrow> va_normalize bs = bs"
  by (cases bs rule: rev_cases) (auto simp: va_normalize_snoc is_in_normal_form_def)

lemma va_normalize_length: "length (va_normalize bs) \<le> length bs"
  by (induction bs rule: rev_induct) (auto simp: va_normalize_snoc)

lemma va_normalize_split: "bs = va_normalize bs @ replicate (length bs - length (va_normalize bs)) 0"
proof (induction bs rule: rev_induct)
  case (snoc b bs)
  show ?case
  proof (cases "b = 0")
    case True
    then have "va_normalize (bs @ [b]) @ replicate (length (bs @ [b]) - length (va_normalize (bs @ [b]))) 0 =
        (va_normalize bs @ replicate (length bs - length (va_normalize bs)) 0) @ [0]"
      using va_normalize_length [of bs] by (simp add: va_normalize_snoc Suc_diff_le replicate_append_same)
    then show ?thesis using snoc True by simp
  qed (simp add: va_normalize_snoc)
qed simp

lemma le_val_append: "le_val (xs @ ys) = le_val xs + 256 ^ length xs * le_val ys"
  by (induction xs) (auto simp: algebra_simps)

lemma le_val_zeros [simp]: "le_val (replicate n 0) = 0"
  by (induction n) auto

lemma le_val_pad [simp]: "le_val (xs @ replicate n 0) = le_val xs"
  by (simp add: le_val_append)

lemma le_val_normalize [simp]: "le_val (va_normalize bs) = le_val bs"
  by (metis le_val_pad va_normalize_split)

lemma le_val_to_le: "n < 256 ^ k \<Longrightarrow> le_val (to_le k n) = n"
  by (induction k arbitrary: n) (auto simp: less_mult_imp_div_less mult.commute)

lemma to_le_length [simp]: "length (to_le k n) = k"
  by (induction k arbitrary: n) auto

lemma to_le_bytes: "bytes_ok (to_le k n)"
  by (induction k arbitrary: n) (auto simp: bytes_ok_def)

text \<open>A number below \<open>256 ^ k\<close> takes at most \<open>k\<close> bytes in normal form.\<close>

lemma to_le_zero: "to_le k 0 = replicate k 0"
  by (induction k) auto

lemma to_le_narrow: "n < 256 ^ k \<Longrightarrow> k \<le> m \<Longrightarrow> to_le m n = to_le k n @ replicate (m - k) 0"
proof (induction k arbitrary: m n)
  case (Suc k)
  then obtain m' where m: "m = Suc m'" "k \<le> m'" by (cases m) auto
  have "n div 256 < 256 ^ k" using Suc.prems(1) by (simp add: less_mult_imp_div_less mult.commute)
  then show ?case using m Suc.IH [of "n div 256" m'] by simp
qed (simp add: to_le_zero)

lemma va_normalize_pad: "va_normalize (bs @ replicate n 0) = va_normalize bs"
proof (induction n)
  case (Suc n)
  have "bs @ replicate (Suc n) 0 = (bs @ replicate n 0) @ [0]" by (simp add: replicate_append_same)
  then show ?case using Suc by (simp only: va_normalize_snoc) simp
qed simp

lemma atom_of_u128_length:
  assumes "n < 256 ^ k" and "k \<le> 16"
  shows "length (atom_of_u128 n) \<le> k"
proof -
  have "atom_of_u128 n = va_normalize (to_le k n)"
    unfolding atom_of_u128_def to_le_narrow [OF assms] by (rule va_normalize_pad)
  then show ?thesis using va_normalize_length [of "to_le k n"] by simp
qed

lemma u128_of_atom_of_u128:
  assumes "n \<le> u128_max"
  shows "u128_of_atom (atom_of_u128 n) = Ok n"
proof -
  have n: "n < 256 ^ 16" using assms by (simp add: u128_max_def)
  then show ?thesis
    using atom_of_u128_length [OF n] le_val_to_le [OF n]
    by (simp add: u128_of_atom_def atom_of_u128_def)
qed

lemma uint_roundtrip:
  "n \<le> mx \<Longrightarrow> mx \<le> u128_max \<Longrightarrow> uint_of_atom mx ty (atom_of_u128 n) = Ok n"
  by (simp add: uint_of_atom_def u128_of_atom_of_u128)

lemma bool_roundtrip: "bool_of_atom (atom_of_bool b) = Ok b"
  by (cases b) (simp_all add: atom_of_bool_def bool_of_atom_def uint_of_atom_def u128_of_atom_def
      va_normalize_def u8_max_def)

lemma hash_roundtrip:
  "length h = persistent_hash_bytes \<Longrightarrow> hash_of_atom (atom_of_hash h) = Ok h"
  using va_normalize_split [of h] va_normalize_length [of h]
  by (simp add: hash_of_atom_def atom_of_hash_def)

text \<open>The encoding of integers is canonical: two normal atoms of the same value are equal.\<close>

lemma le_val_inj:
  "bytes_ok xs \<Longrightarrow> bytes_ok ys \<Longrightarrow> length xs = length ys \<Longrightarrow> le_val xs = le_val ys \<Longrightarrow> xs = ys"
proof (induction xs arbitrary: ys)
  case (Cons x xs)
  then obtain y ys' where ys: "ys = y # ys'" by (cases ys) auto
  have lt: "x < 256" "y < 256" using Cons.prems ys by (auto simp: bytes_ok_def)
  have eq: "x + 256 * le_val xs = y + 256 * le_val ys'" using Cons.prems ys by simp
  have "x = y" using arg_cong [OF eq, of "\<lambda>n. n mod 256"] lt by simp
  moreover have "le_val xs = le_val ys'" using eq calculation by simp
  ultimately show ?case using Cons ys by (auto simp: bytes_ok_def)
qed simp

section \<open>Lemmas on alignments\<close>

text \<open>An alignment consumes a prefix of the value, one atom for each alignment atom it reports, and
  neither the accumulator nor what follows the prefix matters.\<close>

lemma consume_parse:
  "consume_internal ts v acc = Some acc' \<Longrightarrow>
   \<exists>as pre rest. acc' = acc @ as \<and> v = pre @ rest \<and> length as = length pre \<and>
     (\<forall>w acc2. consume_internal ts (pre @ w) acc2 = Some (acc2 @ as))"
proof (induction ts v acc arbitrary: acc' rule: consume_internal.induct)
  case (1 v acc)
  then show ?case by (auto intro!: exI [of _ "[]"])
next
  case (2 p ts v acc)
  then obtain x v' where v: "v = x # v'" "atom_fits p x" by (cases v) (auto split: if_splits)
  with 2 obtain as pre rest where "acc' = (acc @ [p]) @ as" "v' = pre @ rest" "length as = length pre"
    "\<forall>w acc2. consume_internal ts (pre @ w) acc2 = Some (acc2 @ as)" by auto
  then show ?case using v by (intro exI [of _ "p # as"] exI [of _ "x # pre"] exI [of _ rest]) simp
next
  case (3 tys ts v acc)
  then obtain x v' branch acc2 where v: "v = x # v'" "atom_fits (Bytes 2) x"
    "u16_of_value [x] = Ok branch" "branch < length tys"
    and a: "consume_internal (tys ! branch) v' (acc @ [Bytes 2]) = Some acc2"
    and b: "consume_internal ts (drop (length acc2 - length (acc @ [Bytes 2])) v') acc2 = Some acc'"
    by (cases v) (auto split: if_splits outcome.splits option.splits)
  have IH1: "\<exists>as pre rest. acc2 = (acc @ [Bytes 2]) @ as \<and> v' = pre @ rest \<and> length as = length pre \<and>
      (\<forall>w acc3. consume_internal (tys ! branch) (pre @ w) acc3 = Some (acc3 @ as))"
    using "3.IH"(1) [of branch acc2] v a by simp
  then obtain as1 pre1 rest1 where p1: "acc2 = (acc @ [Bytes 2]) @ as1" "v' = pre1 @ rest1"
    "length as1 = length pre1"
    "\<forall>w acc3. consume_internal (tys ! branch) (pre1 @ w) acc3 = Some (acc3 @ as1)" by blast
  have "consume_internal ts rest1 acc2 = Some acc'" using b p1 by simp
  then obtain as2 pre2 rest2 where p2: "acc' = acc2 @ as2" "rest1 = pre2 @ rest2" "length as2 = length pre2"
    "\<forall>w acc3. consume_internal ts (pre2 @ w) acc3 = Some (acc3 @ as2)"
    using "3.IH"(2) [of branch acc2 acc'] v a b p1 by auto
  show ?case using v p1 p2
    by (intro exI [of _ "Bytes 2 # as1 @ as2"] exI [of _ "x # pre1 @ pre2"] exI [of _ rest2]) simp
qed

lemma consume_append:
  "consume_internal ts v acc = Some a \<Longrightarrow>
   consume_internal (ts @ us) v acc = consume_internal us (drop (length a - length acc) v) a"
proof (induction ts v acc arbitrary: a rule: consume_internal.induct)
  case (2 p ts v acc)
  then obtain x v' where v: "v = x # v'" "atom_fits p x" by (cases v) (auto split: if_splits)
  moreover have "length acc < length a"
    using consume_parse [of ts v' "acc @ [p]" a] 2 v by auto
  ultimately show ?case using 2 by (auto simp: Suc_diff_Suc [symmetric])
next
  case (3 tys ts v acc)
  then obtain x v' branch acc2 where v: "v = x # v'" "atom_fits (Bytes 2) x"
    "u16_of_value [x] = Ok branch" "branch < length tys"
    and a: "consume_internal (tys ! branch) v' (acc @ [Bytes 2]) = Some acc2"
    and b: "consume_internal ts (drop (length acc2 - length (acc @ [Bytes 2])) v') acc2 = Some a"
    by (cases v) (auto split: if_splits outcome.splits option.splits)
  obtain as1 where as1: "acc2 = (acc @ [Bytes 2]) @ as1" using consume_parse [OF a] by auto
  obtain as2 where as2: "a = acc2 @ as2" using consume_parse [OF b] by auto
  have "consume_internal (ts @ us) (drop (length as1) v') acc2 =
      consume_internal us (drop (length as2) (drop (length as1) v')) a"
    using "3.IH"(2) [of branch acc2 a] v a b as1 as2 by simp
  then show ?case using v a as1 as2 by (simp add: drop_drop add.commute)
qed simp

lemma alignment_fits_iff:
  "alignment_fits a v \<longleftrightarrow> (\<exists>as. length as = length v \<and> (\<forall>w acc. consume_internal a (v @ w) acc = Some (acc @ as)))"
proof
  assume "alignment_fits a v"
  then obtain as where as: "consume_internal a v [] = Some as" "length v \<le> length as"
    by (auto simp: alignment_fits_def alignment_consume_def)
  then show "\<exists>as. length as = length v \<and> (\<forall>w acc. consume_internal a (v @ w) acc = Some (acc @ as))"
    using consume_parse [OF as(1)] by auto
next
  assume "\<exists>as. length as = length v \<and> (\<forall>w acc. consume_internal a (v @ w) acc = Some (acc @ as))"
  then obtain as where "length as = length v" "\<forall>w acc. consume_internal a (v @ w) acc = Some (acc @ as)" by blast
  then have "consume_internal a v [] = Some as" "length as = length v" by (metis append_Nil append_Nil2)+
  then show "alignment_fits a v" by (simp add: alignment_fits_def alignment_consume_def)
qed

lemma alignment_fits_append:
  assumes "alignment_fits a v" and "alignment_fits b w"
  shows "alignment_fits (a @ b) (v @ w)"
proof -
  obtain as bs where as: "length as = length v" "\<forall>w acc. consume_internal a (v @ w) acc = Some (acc @ as)"
    and bs: "length bs = length w" "\<forall>u acc. consume_internal b (w @ u) acc = Some (acc @ bs)"
    using assms unfolding alignment_fits_iff by blast
  have "consume_internal (a @ b) ((v @ w) @ u) acc = Some (acc @ (as @ bs))" for u acc
    using consume_append [of a "v @ (w @ u)" acc "acc @ as" b] as bs by simp
  then show ?thesis unfolding alignment_fits_iff using as bs by (intro exI [of _ "as @ bs"]) simp
qed

lemma alignment_fits_Nil: "alignment_fits [] []"
  by (simp add: alignment_fits_def alignment_consume_def)

definition av_ok :: "aligned_value \<Rightarrow> bool" where
  "av_ok av \<longleftrightarrow> alignment_fits (av_alignment av) (av_value av)"

lemma av_concat_ok: "list_all av_ok vs \<Longrightarrow> av_ok (av_concat vs)"
  by (induction vs) (auto simp: av_ok_def av_concat_def alignment_fits_Nil intro: alignment_fits_append)

lemma aligned_of_ok: "length v \<le> n \<Longrightarrow> is_in_normal_form v \<Longrightarrow> av_ok (aligned_of n v)"
  by (simp add: av_ok_def aligned_of_def alignment_singleton_def alignment_fits_def alignment_consume_def)

section \<open>Properties\<close>

text \<open>Property C25. Concatenating aligned values gives an aligned value: \<open>AlignedValue::concat\<close>,
  which does not check, and \<open>AlignedValue::new\<close> on the concatenated parts agree.\<close>

theorem concat_stays_aligned:
  assumes "list_all av_ok vs"
  shows "av_new (value_concat (map av_value vs)) (alignment_concat (map av_alignment vs)) = Some (av_concat vs)
    \<and> av_ok (av_concat vs)"
  using av_concat_ok [OF assms]
  by (simp add: av_new_def av_ok_def av_concat_def value_concat_def alignment_concat_def)

theorem concat_stays_aligned_witness:
  "av_ok (av_concat [av_of_bool False, av_of_bool True])"
  using concat_stays_aligned [of "[av_of_bool False, av_of_bool True]"]
  by (simp add: av_ok_def av_of_bool_def aligned_of_def alignment_singleton_def alignment_fits_def
      alignment_consume_def atom_of_bool_def va_normalize_def is_in_normal_form_def)

text \<open>Reading a value by an alignment is unambiguous: what \<open>consume\<close> splits off fits the
  alignment, is a prefix of the value, and does not depend on what follows it.\<close>

theorem consume_splits_prefix:
  assumes "alignment_consume a v = Some (u, w)"
  shows "v = u @ w \<and> alignment_fits a u \<and> (\<forall>w'. alignment_consume a (u @ w') = Some (u, w'))"
proof -
  obtain as where as: "consume_internal a v [] = Some as" "u = take (length as) v" "w = drop (length as) v"
    using assms by (auto simp: alignment_consume_def)
  obtain pre rest where p: "v = pre @ rest" "length as = length pre"
    "\<forall>w acc2. consume_internal a (pre @ w) acc2 = Some (acc2 @ as)"
    using consume_parse [OF as(1)] by auto
  then have "u = pre" "w = rest" using as by auto
  moreover have "alignment_fits a pre" unfolding alignment_fits_iff using p by auto
  ultimately show ?thesis using p by (simp add: alignment_consume_def)
qed

theorem consume_splits_prefix_witness:
  "alignment_consume [Atom (Bytes 1), Atom Field] ([[7], [9]] @ [[5]]) = Some ([[7], [9]], [[5]])"
  using consume_splits_prefix [of "[Atom (Bytes 1), Atom Field]" "[[7], [9], [3]]" "[[7], [9]]" "[[3]]"]
  by (simp add: alignment_consume_def is_in_normal_form_def field_byte_limit_def)

text \<open>The built-in conversions round trip, and the aligned values they build are
  aligned: integers within their width, booleans, and 32-byte hashes.\<close>

theorem builtin_conversions_roundtrip:
  assumes "n8 \<le> u8_max" and "n64 \<le> u64_max" and "length h = persistent_hash_bytes"
  shows "u8_of_value (av_value (av_of_u8 n8)) = Ok n8 \<and> av_ok (av_of_u8 n8) \<and>
    u64_of_value (av_value (av_of_u64 n64)) = Ok n64 \<and> av_ok (av_of_u64 n64) \<and>
    bool_of_value (av_value (av_of_bool b)) = Ok b \<and> av_ok (av_of_bool b) \<and>
    hash_of_value (av_value (av_of_hash h)) = Ok h \<and> av_ok (av_of_hash h)"
proof -
  have w: "n8 < 256 ^ 1" "n64 < 256 ^ 8" "u8_max \<le> u128_max" "u64_max \<le> u128_max"
    using assms by (auto simp: int_bounds_defs)
  have norm: "is_in_normal_form (atom_of_u128 n)" for n by (simp add: atom_of_u128_def)
  have "av_ok (av_of_u8 n8)" "av_ok (av_of_u64 n64)"
    unfolding av_of_u8_def av_of_u64_def
    by (intro aligned_of_ok norm; use atom_of_u128_length [OF w(1)] atom_of_u128_length [OF w(2)] in simp)+
  moreover have "av_ok (av_of_bool b)" "av_ok (av_of_hash h)"
    unfolding av_of_bool_def av_of_hash_def
    using va_normalize_length [of "[if b then 1 else 0]"] va_normalize_length [of h] assms(3)
    by (auto intro!: aligned_of_ok simp: atom_of_bool_def atom_of_hash_def)
  ultimately show ?thesis
    using uint_roundtrip [OF assms(1) w(3)] uint_roundtrip [OF assms(2) w(4)] bool_roundtrip hash_roundtrip [OF assms(3)]
    by (simp add: u8_of_value_def u64_of_value_def bool_of_value_def hash_of_value_def prim_of_value_def
        av_of_u8_def av_of_u64_def av_of_bool_def av_of_hash_def aligned_of_def)
qed

theorem builtin_conversions_roundtrip_witness:
  "u64_of_value (av_value (av_of_u64 4294967296)) = Ok 4294967296"
  using builtin_conversions_roundtrip [of 255 4294967296 "replicate 32 7" True]
  by (simp add: int_bounds_defs persistent_hash_bytes_def)

text \<open>\<open>Alignment::default\<close> is documented as aligned except for empty disjoint unions. That
  holds for alignments without disjoint unions; for a union, even a non-empty one, the default
  leaves out the discriminant and does not fit.\<close>

theorem alignment_default_fits:
  "(list_all (\<lambda>s. \<exists>p. s = Atom p) a \<longrightarrow> alignment_fits a (alignment_default a)) \<and>
   \<not> alignment_fits [Option (map (\<lambda>p. [Atom p]) (p # ps))]
       (alignment_default [Option (map (\<lambda>p. [Atom p]) (p # ps))])"
proof
  have "alignment_fits [Atom q] [[]]" for q
    by (cases q) (simp_all add: alignment_fits_def alignment_consume_def is_in_normal_form_def)
  then have "list_all (\<lambda>s. \<exists>p. s = Atom p) a \<Longrightarrow> alignment_fits a (alignment_default a)"
  proof (induction a)
    case (Cons s a)
    then obtain q where "s = Atom q" by auto
    then show ?case using Cons alignment_fits_append [of "[Atom q]" "[[]]" a] by simp
  qed (simp add: alignment_fits_Nil)
  then show "list_all (\<lambda>s. \<exists>p. s = Atom p) a \<longrightarrow> alignment_fits a (alignment_default a)" by blast
  show "\<not> alignment_fits [Option (map (\<lambda>p. [Atom p]) (p # ps))]
      (alignment_default [Option (map (\<lambda>p. [Atom p]) (p # ps))])"
    by (simp add: alignment_fits_def alignment_consume_def u16_of_value_def prim_of_value_def uint_of_atom_def
        u128_of_atom_def)
qed

theorem alignment_default_fits_witness:
  "alignment_fits [Atom Field, Atom (Bytes 3)] (alignment_default [Atom Field, Atom (Bytes 3)])"
  using alignment_default_fits [of "[Atom Field, Atom (Bytes 3)]" Field "[]"] by simp

end
