(* ===== verification/Fab_Serialize.thy ===== *)
theory Fab_Serialize
  imports Fab_Encoding
begin

text \<open>
  \<open>base-crypto/src/fab/serialize.rs\<close>: the byte format of values, alignments and aligned values.

  A writer is the list of bytes written, a reader the list of bytes left; \<open>io::Error\<close> is reduced to
  its kind. In \<open>write_flagged_int\<close> the parts that are or-ed together occupy disjoint bits and are
  added; the bit tests of \<open>read_flagged_int\<close> are the corresponding divisions.
  \<open>check_rec\<close> counts the depth of the recursion up to \<open>RECURSION_LIMIT\<close> (250 in a release build, 50 in a debug
  build); the deserializers of the recursive types take the depth that is left, and fail when it is zero. They are proved
  for every limit. \<open>as u32\<close> of a length is its remainder modulo \<open>2 ^ 32\<close>.

  The locale \<open>codec\<close> is the contract of a serializable type, interpreted for each type of the file.
\<close>

section \<open>Flagged integers\<close>

datatype io_error = InvalidInput | InvalidData | UnexpectedEof

type_synonym 'a reader = "nat list \<Rightarrow> (io_error, 'a \<times> nat list) outcome"

definition write_flagged_int :: "bool \<Rightarrow> bool \<Rightarrow> nat \<Rightarrow> (io_error, nat list) outcome" where
  "write_flagged_int x y n =
     (let flag = (if x then 128 else 0) + (if y then 64 else 0) in
      if n \<le> 31 then Ok [flag + n]
      else if n \<le> 4095 then Ok [flag + 32 + n mod 32, n div 32]
      else if n \<le> 524287 then Ok [flag + 32 + n mod 32, 128 + (n div 32) mod 128, n div 4096]
      else Err InvalidInput)"

definition flagged_int_size :: "nat \<Rightarrow> nat" where
  "flagged_int_size n = (if n \<le> 31 then 1 else if n \<le> 4095 then 2 else if n \<le> 524287 then 3 else 1000)"

fun read_byte :: "nat reader" where
  "read_byte [] = Err UnexpectedEof"
| "read_byte (b # bs) = Ok (b, bs)"

definition read_flagged_int :: "(bool \<times> bool \<times> nat) reader" where
  "read_flagged_int bs = obind (read_byte bs) (\<lambda>(b0, bs).
     let x = odd (b0 div 128); y = odd (b0 div 64); a = b0 mod 32 in
     if even (b0 div 32) then Ok ((x, y, a), bs)
     else obind (read_byte bs) (\<lambda>(b1, bs).
       let b = b1 mod 128 in
       if even (b1 div 128) then
         (if b = 0 then Err InvalidInput else Ok ((x, y, a + b * 32), bs))
       else obind (read_byte bs) (\<lambda>(b2, bs).
         let c = b2 mod 128 in
         if even (b2 div 128) then
           (if c = 0 then Err InvalidInput else Ok ((x, y, a + b * 32 + c * 4096), bs))
         else Err InvalidInput)))"

section \<open>Value atoms and values\<close>

definition va_serialize_normal :: "value_atom \<Rightarrow> (io_error, nat list) outcome" where
  "va_serialize_normal v =
     (if length v = 1 \<and> v ! 0 < 32 then write_flagged_int False False (v ! 0)
      else obind (write_flagged_int False True (length v mod 2 ^ 32)) (\<lambda>h. Ok (h @ v)))"

definition va_serialize :: "value_atom \<Rightarrow> (io_error, nat list) outcome" where
  "va_serialize v = (if is_in_normal_form v then va_serialize_normal v else va_serialize_normal (va_normalize v))"

definition va_size_normal :: "value_atom \<Rightarrow> nat" where
  "va_size_normal v = (if length v = 1 \<and> v ! 0 < 32 then flagged_int_size (v ! 0)
     else flagged_int_size (length v mod 2 ^ 32) + length v)"

definition va_serialized_size :: "value_atom \<Rightarrow> nat" where
  "va_serialized_size v = (if is_in_normal_form v then va_size_normal v else va_size_normal (va_normalize v))"

definition read_exact_to_vec :: "nat \<Rightarrow> (nat list) reader" where
  "read_exact_to_vec n bs = (if n \<le> length bs then Ok (take n bs, drop n bs) else Err UnexpectedEof)"

definition va_with_flagged_int :: "bool \<Rightarrow> bool \<Rightarrow> nat \<Rightarrow> value_atom reader" where
  "va_with_flagged_int x y n bs =
     (if x then Err InvalidData
      else if y then obind (read_exact_to_vec n bs) (\<lambda>(res, bs).
        if n > 0 \<and> res ! (n - 1) = 0 then Err InvalidData
        else if n = 1 \<and> res ! 0 < 32 then Err InvalidData
        else Ok (res, bs))
      else if n < 32 \<and> n > 0 then Ok ([n], bs)
      else Err InvalidData)"

definition va_deserialize :: "value_atom reader" where
  "va_deserialize bs = obind (read_flagged_int bs) (\<lambda>((x, y, n), bs). va_with_flagged_int x y n bs)"

text \<open>The loops \<open>for item in items \{ item.serialize(writer)?; \}\<close> and \<open>for _ in 0..n\<close>.\<close>

definition write_all :: "('a \<Rightarrow> (io_error, nat list) outcome) \<Rightarrow> 'a list \<Rightarrow> (io_error, nat list) outcome" where
  "write_all f xs = obind (collect_results (map f xs)) (\<lambda>bss. Ok (concat bss))"

fun read_many :: "'a reader \<Rightarrow> nat \<Rightarrow> ('a list) reader" where
  "read_many f 0 bs = Ok ([], bs)"
| "read_many f (Suc n) bs = obind (f bs) (\<lambda>(x, bs). obind (read_many f n bs) (\<lambda>(xs, bs). Ok (x # xs, bs)))"

definition value_serialize :: "fab_value \<Rightarrow> (io_error, nat list) outcome" where
  "value_serialize v =
     (if length v = 1 then va_serialize (v ! 0)
      else obind (write_flagged_int True False (length v mod 2 ^ 32)) (\<lambda>h.
        obind (write_all va_serialize v) (\<lambda>bs. Ok (h @ bs))))"

definition value_serialized_size :: "fab_value \<Rightarrow> nat" where
  "value_serialized_size v =
     (if length v = 1 then va_serialized_size (v ! 0)
      else flagged_int_size (length v mod 2 ^ 32) + sum_list (map va_serialized_size v))"

definition value_deserialize :: "nat \<Rightarrow> fab_value reader" where
  "value_deserialize depth bs =
     (if depth = 0 then Err InvalidData else
      obind (read_flagged_int bs) (\<lambda>((x, y, n), bs).
        if \<not> x then obind (va_with_flagged_int x y n bs) (\<lambda>(a, bs). Ok ([a], bs))
        else if \<not> y then (if n = 1 then Err InvalidData else read_many va_deserialize n bs)
        else Err InvalidData))"

section \<open>Alignments\<close>

fun aatom_serialize :: "alignment_atom \<Rightarrow> (io_error, nat list) outcome" where
  "aatom_serialize Compress = write_flagged_int False True 0"
| "aatom_serialize Field = write_flagged_int False True 1"
| "aatom_serialize (Bytes n) = write_flagged_int False False n"

fun aatom_serialized_size :: "alignment_atom \<Rightarrow> nat" where
  "aatom_serialized_size (Bytes n) = flagged_int_size n"
| "aatom_serialized_size _ = 1"

definition aatom_with_flagged_int :: "bool \<Rightarrow> bool \<Rightarrow> nat \<Rightarrow> alignment_atom reader" where
  "aatom_with_flagged_int x y n bs =
     (if \<not> x \<and> \<not> y then Ok (Bytes n, bs)
      else if \<not> x \<and> y \<and> n = 0 then Ok (Compress, bs)
      else if \<not> x \<and> y \<and> n = 1 then Ok (Field, bs)
      else Err InvalidData)"

text \<open>\<open>Alignment::serialize\<close> over the serializer of its segments, and the segments themselves.\<close>

definition alignment_serialize_with ::
  "(alignment_segment \<Rightarrow> (io_error, nat list) outcome) \<Rightarrow> alignment \<Rightarrow> (io_error, nat list) outcome" where
  "alignment_serialize_with f a =
     (if length a = 1 then f (a ! 0)
      else obind (write_flagged_int True True (length a mod 2 ^ 32)) (\<lambda>h. obind (write_all f a) (\<lambda>bs. Ok (h @ bs))))"

lemma write_all_cong [fundef_cong]:
  "xs = ys \<Longrightarrow> (\<And>x. x \<in> set ys \<Longrightarrow> f x = g x) \<Longrightarrow> write_all f xs = write_all g ys"
  by (simp add: write_all_def cong: map_cong)

lemma alignment_serialize_with_cong [fundef_cong]:
  assumes "a = b" and "\<And>s. s \<in> set b \<Longrightarrow> f s = g s"
  shows "alignment_serialize_with f a = alignment_serialize_with g b"
proof -
  have "write_all f b = write_all g b" using assms(2) by (intro write_all_cong) auto
  moreover have "length b = 1 \<Longrightarrow> f (b ! 0) = g (b ! 0)" using assms(2) [of "b ! 0"] by (cases b) auto
  ultimately show ?thesis using assms(1) by (simp add: alignment_serialize_with_def)
qed

fun segment_serialize :: "alignment_segment \<Rightarrow> (io_error, nat list) outcome" where
  "segment_serialize (Atom a) = aatom_serialize a"
| "segment_serialize (Option branches) =
     obind (write_flagged_int True False (length branches mod 2 ^ 32)) (\<lambda>h.
       obind (write_all (\<lambda>b. alignment_serialize_with segment_serialize b) branches) (\<lambda>bs. Ok (h @ bs)))"

definition alignment_serialize :: "alignment \<Rightarrow> (io_error, nat list) outcome" where
  "alignment_serialize a = alignment_serialize_with segment_serialize a"

definition alignment_size_with :: "(alignment_segment \<Rightarrow> nat) \<Rightarrow> alignment \<Rightarrow> nat" where
  "alignment_size_with f a =
     (if length a = 1 then f (a ! 0) else flagged_int_size (length a mod 2 ^ 32) + sum_list (map f a))"

lemma alignment_size_with_cong [fundef_cong]:
  assumes "a = b" and "\<And>s. s \<in> set b \<Longrightarrow> f s = g s"
  shows "alignment_size_with f a = alignment_size_with g b"
proof -
  have "map f b = map g b" using assms(2) by simp
  moreover have "length b = 1 \<Longrightarrow> f (b ! 0) = g (b ! 0)" using assms(2) [of "b ! 0"] by (cases b) auto
  ultimately show ?thesis unfolding alignment_size_with_def assms(1) by metis
qed

fun segment_serialized_size :: "alignment_segment \<Rightarrow> nat" where
  "segment_serialized_size (Atom a) = aatom_serialized_size a"
| "segment_serialized_size (Option branches) = flagged_int_size (length branches mod 2 ^ 32) +
     sum_list (map (\<lambda>b. alignment_size_with segment_serialized_size b) branches)"

definition alignment_serialized_size :: "alignment \<Rightarrow> nat" where
  "alignment_serialized_size a = alignment_size_with segment_serialized_size a"

definition segment_with_flagged_int ::
  "alignment reader \<Rightarrow> bool \<Rightarrow> bool \<Rightarrow> nat \<Rightarrow> alignment_segment reader" where
  "segment_with_flagged_int de x y n bs =
     (if \<not> x then obind (aatom_with_flagged_int x y n bs) (\<lambda>(a, bs). Ok (Atom a, bs))
      else if \<not> y then obind (read_many de n bs) (\<lambda>(branches, bs). Ok (Option branches, bs))
      else Err InvalidData)"

fun alignment_deserialize :: "nat \<Rightarrow> alignment reader"
  and segment_deserialize :: "nat \<Rightarrow> alignment_segment reader" where
  "alignment_deserialize 0 bs = Err InvalidData"
| "alignment_deserialize (Suc d) bs = obind (read_flagged_int bs) (\<lambda>((x, y, n), bs).
     if x \<and> y then (if n = 1 then Err InvalidData else read_many (segment_deserialize d) n bs)
     else obind (segment_with_flagged_int (alignment_deserialize d) x y n bs) (\<lambda>(s, bs). Ok ([s], bs)))"
| "segment_deserialize 0 bs = Err InvalidData"
| "segment_deserialize (Suc d) bs = obind (read_flagged_int bs) (\<lambda>((x, y, n), bs).
     segment_with_flagged_int (alignment_deserialize d) x y n bs)"

section \<open>Aligned values\<close>

definition av_serialize :: "aligned_value \<Rightarrow> (io_error, nat list) outcome" where
  "av_serialize av = obind (value_serialize (av_value av)) (\<lambda>bs.
     obind (alignment_serialize (av_alignment av)) (\<lambda>cs. Ok (bs @ cs)))"

definition av_serialized_size :: "aligned_value \<Rightarrow> nat" where
  "av_serialized_size av = value_serialized_size (av_value av) + alignment_serialized_size (av_alignment av)"

text \<open>\<open>AlignedValue\<close> counts itself before it reads its two parts.\<close>

definition av_deserialize :: "nat \<Rightarrow> aligned_value reader" where
  "av_deserialize depth bs =
     (if depth = 0 then Err InvalidData else
      obind (value_deserialize (depth - 1) bs) (\<lambda>(v, bs).
        obind (alignment_deserialize (depth - 1) bs) (\<lambda>(a, bs).
          if \<not> alignment_fits a v then Err InvalidData
          else Ok (\<lparr>av_value = v, av_alignment = a\<rparr>, bs))))"

text \<open>The limit of a release build.\<close>

definition recursion_limit :: nat where "recursion_limit = 250"

section \<open>Round trips\<close>

text \<open>The first byte of a flagged integer: two flags, a continuation bit and five bits.\<close>

lemma flag_byte:
  fixes m :: nat
  assumes "m < 32" and "b = (if x then 128 else 0) + (if y then 64 else 0) + (if c then 32 else 0) + m"
  shows "odd (b div 128) = x" and "odd (b div 64) = y" and "odd (b div 32) = c" and "b mod 32 = m"
proof -
  have "b div 128 = (if x then 1 else 0)"
    by (rule div_nat_eqI) (use assms in auto)
  moreover have "b div 64 = (if x then 2 else 0) + (if y then 1 else 0)"
    by (rule div_nat_eqI) (use assms in auto)
  moreover have q: "b div 32 = (if x then 4 else 0) + (if y then 2 else 0) + (if c then 1 else 0)"
    by (rule div_nat_eqI) (use assms in auto)
  moreover have "b mod 32 = m"
    unfolding minus_mult_div_eq_mod [of b 32, symmetric] q using assms(2) by auto
  ultimately show "odd (b div 128) = x" and "odd (b div 64) = y" and "odd (b div 32) = c" and "b mod 32 = m"
    by auto
qed

lemma flagged_int_roundtrip:
  assumes "write_flagged_int x y n = Ok bs"
  shows "read_flagged_int (bs @ rest) = Ok ((x, y, n), rest)"
proof -
  consider (one) "n \<le> 31" | (two) "31 < n" "n \<le> 4095" | (three) "4095 < n" "n \<le> 524287"
    using assms by (fastforce simp: write_flagged_int_def Let_def split: if_splits)
  then show ?thesis
  proof cases
    case one
    define b where "b = (if x then 128 else 0) + (if y then 64 else 0) + (if False then 32 else 0) + n"
    have "bs = [b]" using assms one by (simp add: write_flagged_int_def b_def)
    then show ?thesis using flag_byte [OF _ b_def] one by (simp add: read_flagged_int_def Let_def)
  next
    case two
    define b where "b = (if x then 128 else 0) + (if y then 64 else 0) + (if True then 32 else 0) + n mod 32"
    have "bs = [b, n div 32]" using assms two by (simp add: write_flagged_int_def b_def)
    moreover have "n div 32 < 128" "n div 32 \<noteq> 0" using two by auto
    ultimately show ?thesis using flag_byte [OF _ b_def] by (simp add: read_flagged_int_def Let_def)
  next
    case three
    define b where "b = (if x then 128 else 0) + (if y then 64 else 0) + (if True then 32 else 0) + n mod 32"
    have bs: "bs = [b, 128 + n div 32 mod 128, n div 4096]"
      using assms three by (simp add: write_flagged_int_def b_def)
    have c: "n div 4096 < 128" "n div 4096 \<noteq> 0" using three by auto
    have d: "(128 + n div 32 mod 128) div 128 = 1" "(128 + n div 32 mod 128) mod 128 = n div 32 mod 128" by auto
    have "n div 32 = n div 32 mod 128 + 128 * (n div 4096)"
      using div_mod_decomp [of "n div 32" 128] by (simp add: div_mult2_eq [of n 32 128, simplified])
    then have "n mod 32 + n div 32 mod 128 * 32 + n div 4096 * 4096 = n"
      using div_mod_decomp [of n 32] by linarith
    then show ?thesis using flag_byte [OF _ b_def] bs c d by (simp add: read_flagged_int_def Let_def)
  qed
qed

lemma flag_byte_decomp:
  assumes "b < (256::nat)"
  shows "b = (if odd (b div 128) then 128 else 0) + (if odd (b div 64) then 64 else 0) +
    (if odd (b div 32) then 32 else 0) + b mod 32"
proof -
  define q where "q = b div 32"
  have "b div 64 = q div 2" "b div 128 = q div 4" unfolding q_def by (simp_all flip: div_mult2_eq)
  moreover have "b = 32 * q + b mod 32" unfolding q_def by simp
  moreover have "q = 0 \<or> q = 1 \<or> q = 2 \<or> q = 3 \<or> q = 4 \<or> q = 5 \<or> q = 6 \<or> q = 7"
    using assms unfolding q_def by auto
  ultimately show ?thesis unfolding q_def [symmetric] by auto
qed

lemma byte_high_bit: "b < (256::nat) \<Longrightarrow> even (b div 128) \<longleftrightarrow> b < 128"
  by (cases "b < 128") (auto simp: div_nat_eqI [of 128 1 b])

lemma read_flagged_int_written:
  assumes ok: "bytes_ok bs" and r: "read_flagged_int bs = Ok ((x, y, n), rest)"
  shows "\<exists>h. write_flagged_int x y n = Ok h \<and> bs = h @ rest"
proof -
  obtain b0 bs1 where bs: "bs = b0 # bs1" using r by (cases bs) (auto simp: read_flagged_int_def)
  have b0: "b0 < 256" using ok bs by (simp add: bytes_ok_def)
  have xy: "x = odd (b0 div 128)" "y = odd (b0 div 64)"
    using r bs by (auto simp: read_flagged_int_def Let_def outcome_simps split: if_splits)
  have d0: "b0 = (if x then 128 else 0) + (if y then 64 else 0) + (if odd (b0 div 32) then 32 else 0) + b0 mod 32"
    using flag_byte_decomp [OF b0] xy by simp
  show ?thesis
  proof (cases "even (b0 div 32)")
    case True
    then have "n = b0 mod 32" "rest = bs1" using r bs by (auto simp: read_flagged_int_def Let_def)
    then show ?thesis using d0 True bs by (auto simp: write_flagged_int_def Let_def)
  next
    case False
    then obtain b1 bs2 where bs1: "bs1 = b1 # bs2" using r bs
      by (cases bs1) (auto simp: read_flagged_int_def Let_def)
    have b1: "b1 < 256" using ok bs bs1 by (simp add: bytes_ok_def)
    show ?thesis
    proof (cases "even (b1 div 128)")
      case True
      then have b1': "b1 < 128" using byte_high_bit [OF b1] by simp
      then have n: "n = b0 mod 32 + b1 * 32" "rest = bs2" "b1 \<noteq> 0"
        using r bs bs1 False True by (auto simp: read_flagged_int_def Let_def split: if_splits)
      then have "31 < n" "n \<le> 4095" "n mod 32 = b0 mod 32" "n div 32 = b1" using b1' by auto
      then show ?thesis using d0 False bs bs1 n by (auto simp: write_flagged_int_def Let_def)
    next
      case hi: False
      then obtain b2 bs3 where bs2: "bs2 = b2 # bs3" using r bs bs1 False
        by (cases bs2) (auto simp: read_flagged_int_def Let_def)
      have b2: "b2 < 256" using ok bs bs1 bs2 by (simp add: bytes_ok_def)
      define m where "m = b1 mod 128"
      have m: "m < 128" "b1 = 128 + m"
        using b1 hi byte_high_bit [OF b1] unfolding m_def by (auto simp: mod_if)
      have "even (b2 div 128)" and n: "n = b0 mod 32 + m * 32 + b2 mod 128 * 4096" "rest = bs3" "b2 mod 128 \<noteq> 0"
        using r bs bs1 bs2 False hi by (auto simp: read_flagged_int_def Let_def m_def split: if_splits)
      then have b2': "b2 < 128" "b2 \<noteq> 0" using byte_high_bit [OF b2] by auto
      have nn: "n = b0 mod 32 + 32 * (m + 128 * b2)" using n b2' by simp
      have split: "(b0 mod 32 + 32 * k) div 32 = k" "(b0 mod 32 + 32 * k) mod 32 = b0 mod 32" for k by auto
      have "n div 32 = m + 128 * b2" "n mod 32 = b0 mod 32" unfolding nn by (rule split)+
      moreover have "n div 4096 = n div 32 div 128" by (simp flip: div_mult2_eq)
      ultimately have "n div 32 mod 128 = m" "n div 4096 = b2" using m by auto
      moreover have "4095 < n" "n \<le> 524287" using nn b2' m by auto
      ultimately show ?thesis using d0 False bs bs1 bs2 n(2) m \<open>n mod 32 = b0 mod 32\<close>
        by (auto simp: write_flagged_int_def Let_def)
    qed
  qed
qed

lemma flagged_int_length: "write_flagged_int x y n = Ok bs \<Longrightarrow> length bs = flagged_int_size n"
  by (auto simp: write_flagged_int_def flagged_int_size_def Let_def split: if_splits)

lemma write_all_length:
  "(\<And>x b. x \<in> set xs \<Longrightarrow> f x = Ok b \<Longrightarrow> length b = g x) \<Longrightarrow> write_all f xs = Ok bs \<Longrightarrow>
   length bs = sum_list (map g xs)"
proof (induction xs arbitrary: bs)
  case (Cons x xs)
  then obtain b c where "f x = Ok b" "write_all f xs = Ok c" "bs = b @ c"
    by (auto simp: write_all_def outcome_simps)
  then show ?case using Cons by simp
qed (simp add: write_all_def)

text \<open>The contract of a serializable type.\<close>

locale codec =
  fixes enc :: "'a \<Rightarrow> (io_error, nat list) outcome"
    and dec :: "'a reader"
    and sz :: "'a \<Rightarrow> nat"
    and valid :: "'a \<Rightarrow> bool"
  assumes enc_dec: "valid x \<Longrightarrow> enc x = Ok bs \<Longrightarrow> dec (bs @ rest) = Ok (x, rest)"
    and enc_size: "valid x \<Longrightarrow> enc x = Ok bs \<Longrightarrow> length bs = sz x"
begin

lemma many_enc_dec:
  "list_all valid xs \<Longrightarrow> write_all enc xs = Ok bs \<Longrightarrow> read_many dec (length xs) (bs @ rest) = Ok (xs, rest)"
proof (induction xs arbitrary: bs)
  case (Cons x xs)
  then obtain b c where "enc x = Ok b" "write_all enc xs = Ok c" "bs = b @ c"
    by (auto simp: write_all_def outcome_simps)
  then show ?case using Cons enc_dec [of x b "c @ rest"] by simp
qed (simp add: write_all_def)

lemma many_enc_size: "list_all valid xs \<Longrightarrow> write_all enc xs = Ok bs \<Longrightarrow> length bs = sum_list (map sz xs)"
  by (rule write_all_length) (auto simp: list_all_iff enc_size)

end

text \<open>Lengths are written as \<open>u32\<close>; longer lists are not read back.\<close>

definition u32_len :: "'a list \<Rightarrow> bool" where
  "u32_len xs \<longleftrightarrow> length xs < 2 ^ 32"

lemma u32_len_mod [simp]: "u32_len xs \<Longrightarrow> length xs mod 2 ^ 32 = length xs"
  by (simp add: u32_len_def)

lemma u32_len_mod_numeral [simp]: "u32_len xs \<Longrightarrow> length xs mod 4294967296 = length xs"
  by (simp add: u32_len_def)

definition va_valid :: "value_atom \<Rightarrow> bool" where
  "va_valid v \<longleftrightarrow> is_in_normal_form v \<and> u32_len v"

lemma va_normal_enc_dec:
  assumes "is_in_normal_form v" and "va_serialize v = Ok bs" and "u32_len v"
  shows "va_deserialize (bs @ rest) = Ok (v, rest)"
proof (cases "length v = 1 \<and> v ! 0 < 32")
  case True
  then obtain b where v: "v = [b]" "b < 32" by (cases v) auto
  moreover have "b \<noteq> 0" using assms(1) v by (simp add: is_in_normal_form_def)
  moreover have "write_flagged_int False False b = Ok bs"
    using assms True v by (simp add: va_serialize_def va_serialize_normal_def)
  ultimately show ?thesis
    by (simp add: va_deserialize_def flagged_int_roundtrip va_with_flagged_int_def)
next
  case False
  then obtain h where h: "write_flagged_int False True (length v) = Ok h" "bs = h @ v"
    using assms by (auto simp: va_serialize_def va_serialize_normal_def outcome_simps split: if_splits)
  have last: "0 < length v \<Longrightarrow> v ! (length v - 1) \<noteq> 0"
    using assms(1) by (cases v rule: rev_cases) (auto simp: is_in_normal_form_def)
  have "va_deserialize (bs @ rest) = va_with_flagged_int False True (length v) (v @ rest)"
    using flagged_int_roundtrip [OF h(1), of "v @ rest"] h(2) by (simp add: va_deserialize_def)
  then show ?thesis using last False
    by (cases "v = []") (auto simp: va_with_flagged_int_def read_exact_to_vec_def)
qed

interpretation va: codec va_serialize va_deserialize va_serialized_size va_valid
proof
  fix v bs rest assume "va_valid v" and s: "va_serialize v = Ok bs"
  then have v: "is_in_normal_form v" "va_serialize v = Ok bs" "u32_len v" by (auto simp: va_valid_def)
  show "va_deserialize (bs @ rest) = Ok (v, rest)" using v by (rule va_normal_enc_dec)
  show "length bs = va_serialized_size v"
    using v by (auto simp: va_serialize_def va_serialize_normal_def va_serialized_size_def va_size_normal_def
        outcome_simps flagged_int_length split: if_splits)
qed

definition value_valid :: "fab_value \<Rightarrow> bool" where
  "value_valid v \<longleftrightarrow> list_all va_valid v \<and> u32_len v"

lemma value_enc_dec:
  assumes v: "list_all va_valid v" "u32_len v" and "value_serialize v = Ok bs" and "0 < depth"
  shows "value_deserialize depth (bs @ rest) = Ok (v, rest)"
proof (cases "length v = 1")
  case True
  then obtain a where v: "v = [a]" by (cases v) auto
  then have "va_deserialize (bs @ rest) = Ok (a, rest)"
    using assms va.enc_dec by (simp add: value_serialize_def)
  then obtain x y n r where "read_flagged_int (bs @ rest) = Ok ((x, y, n), r)"
    "va_with_flagged_int x y n r = Ok (a, rest)"
    by (auto simp: va_deserialize_def outcome_simps)
  moreover from this have "\<not> x" by (auto simp: va_with_flagged_int_def)
  ultimately show ?thesis using assms(4) v by (simp add: value_deserialize_def)
next
  case False
  then obtain h c where "write_flagged_int True False (length v) = Ok h" "write_all va_serialize v = Ok c"
    "bs = h @ c" using assms by (auto simp: value_serialize_def outcome_simps)
  then show ?thesis
    using assms False va.many_enc_dec [OF v(1), of c rest] flagged_int_roundtrip [of True False "length v" h "c @ rest"]
    by (simp add: value_deserialize_def)
qed

lemma value_enc_size:
  assumes "list_all va_valid v" and "value_serialize v = Ok bs"
  shows "length bs = value_serialized_size v"
proof (cases "length v = 1")
  case True
  then obtain a where "v = [a]" by (cases v) auto
  then show ?thesis using assms va.enc_size by (simp add: value_serialize_def value_serialized_size_def)
next
  case False
  then show ?thesis
    using assms va.many_enc_size [OF assms(1)]
    by (auto simp: value_serialize_def value_serialized_size_def outcome_simps flagged_int_length)
qed

interpretation val: codec value_serialize "value_deserialize (Suc d)" value_serialized_size value_valid for d
  by unfold_locales (auto simp: value_valid_def value_enc_dec value_enc_size)

text \<open>How deeply disjoint unions are nested.\<close>

fun seg_depth :: "alignment_segment \<Rightarrow> nat" where
  "seg_depth (Atom _) = 0"
| "seg_depth (Option bs) = Suc (foldr max (map (\<lambda>ts. foldr max (map seg_depth ts) 0) bs) 0)"

fun seg_small :: "alignment_segment \<Rightarrow> bool" where
  "seg_small (Atom _) = True"
| "seg_small (Option bs) = (u32_len bs \<and> list_all (\<lambda>ts. u32_len ts \<and> list_all seg_small ts) bs)"

definition al_small :: "alignment \<Rightarrow> bool" where
  "al_small ts \<longleftrightarrow> u32_len ts \<and> list_all seg_small ts"

definition al_depth :: "alignment \<Rightarrow> nat" where
  "al_depth ts = foldr max (map seg_depth ts) 0"

lemma foldr_max_ge: "x \<in> set xs \<Longrightarrow> f x \<le> foldr max (map f xs) (0::nat)"
  by (induction xs) auto

lemma seg_depth_le: "s \<in> set ts \<Longrightarrow> seg_depth s \<le> al_depth ts"
  unfolding al_depth_def by (rule foldr_max_ge)

lemma al_depth_less: "ts \<in> set bs \<Longrightarrow> al_depth ts < seg_depth (Option bs)"
  using foldr_max_ge [of ts bs "\<lambda>ts. foldr max (map seg_depth ts) 0"]
  by (simp add: al_depth_def less_Suc_eq_le)

lemma segment_enc_size: "segment_serialize s = Ok bs \<Longrightarrow> length bs = segment_serialized_size s"
proof (induction s arbitrary: bs rule: segment_serialize.induct)
  case (1 a)
  then show ?case by (cases a) (auto simp: flagged_int_length flagged_int_size_def dest: flagged_int_length)
next
  case (2 branches)
  obtain h0 where "write_flagged_int True False (length branches mod 2 ^ 32) = Ok h0"
    using "2.prems" by (auto simp: outcome_simps)
  then have IH: "length c = segment_serialized_size s"
    if "b \<in> set branches" "s \<in> set b" "segment_serialize s = Ok c" for b s c
    using "2.IH" that by blast
  have "length c = alignment_size_with segment_serialized_size b"
    if b: "b \<in> set branches" "alignment_serialize_with segment_serialize b = Ok c" for b c
  proof (cases "length b = 1")
    case True
    then show ?thesis using IH b by (cases b) (auto simp: alignment_serialize_with_def alignment_size_with_def)
  next
    case False
    then obtain h d where "write_flagged_int True True (length b mod 2 ^ 32) = Ok h" "write_all segment_serialize b = Ok d" "c = h @ d"
      using b by (auto simp: alignment_serialize_with_def outcome_simps)
    moreover from this have "length d = sum_list (map segment_serialized_size b)"
      using IH b by (intro write_all_length [of b segment_serialize]) auto
    ultimately show ?thesis using False by (simp add: alignment_size_with_def flagged_int_length)
  qed
  then show ?case
    using "2.prems" write_all_length [of branches "\<lambda>b. alignment_serialize_with segment_serialize b"]
    by (auto simp: outcome_simps flagged_int_length)
qed

lemma alignment_enc_size:
  assumes "alignment_serialize a = Ok bs"
  shows "length bs = alignment_serialized_size a"
proof (cases "length a = 1")
  case True
  then show ?thesis using assms segment_enc_size
    by (auto simp: alignment_serialize_def alignment_serialize_with_def alignment_serialized_size_def alignment_size_with_def)
next
  case False
  then obtain h d where "write_flagged_int True True (length a mod 2 ^ 32) = Ok h" "write_all segment_serialize a = Ok d" "bs = h @ d"
    using assms by (auto simp: alignment_serialize_def alignment_serialize_with_def outcome_simps)
  then show ?thesis using False write_all_length [of a segment_serialize segment_serialized_size d] segment_enc_size
    by (simp add: alignment_serialized_size_def alignment_size_with_def flagged_int_length)
qed

lemma segment_enc_dec_step:
  assumes al: "codec alignment_serialize (alignment_deserialize d) alignment_serialized_size (\<lambda>a. al_small a \<and> 2 * al_depth a + 2 \<le> d)"
    and s: "2 * seg_depth s + 1 \<le> Suc d" "segment_serialize s = Ok bs" "seg_small s"
  shows "\<exists>x y n r. read_flagged_int (bs @ rest) = Ok ((x, y, n), r) \<and> \<not> (x \<and> y) \<and>
    segment_with_flagged_int (alignment_deserialize d) x y n r = Ok (s, rest)"
proof (cases s)
  case (Atom a)
  obtain y n where "write_flagged_int False y n = Ok bs" "aatom_with_flagged_int False y n rest = Ok (a, rest)"
    using s(2) Atom by (cases a) (auto simp: aatom_with_flagged_int_def)
  then show ?thesis
    using flagged_int_roundtrip [of False y n bs rest] Atom
    by (intro exI [of _ False] exI [of _ y] exI [of _ n] exI [of _ rest]) (simp add: segment_with_flagged_int_def)
next
  case (Option branches)
  then obtain h c where h: "write_flagged_int True False (length branches) = Ok h" "bs = h @ c"
    and c: "write_all alignment_serialize branches = Ok c"
    using s(2,3) by (auto simp: outcome_simps alignment_serialize_def [abs_def])
  have "list_all (\<lambda>a. 2 * al_depth a + 2 \<le> d) branches"
    using al_depth_less s(1) Option by (fastforce simp: list_all_iff)
  then have "list_all (\<lambda>a. al_small a \<and> 2 * al_depth a + 2 \<le> d) branches"
    using s(3) Option by (auto simp: list_all_iff al_small_def)
  then have "read_many (alignment_deserialize d) (length branches) (c @ rest) = Ok (branches, rest)"
    using codec.many_enc_dec [OF al _ c] by simp
  then show ?thesis
    using flagged_int_roundtrip [OF h(1), of "c @ rest"] h(2) Option
    by (intro exI [of _ True] exI [of _ False] exI [of _ "length branches"] exI [of _ "c @ rest"])
      (simp add: segment_with_flagged_int_def)
qed

lemma alignment_codecs:
  "codec alignment_serialize (alignment_deserialize d) alignment_serialized_size (\<lambda>a. al_small a \<and> 2 * al_depth a + 2 \<le> d) \<and>
   codec segment_serialize (segment_deserialize d) segment_serialized_size (\<lambda>s. seg_small s \<and> 2 * seg_depth s + 1 \<le> d)"
proof (induction d)
  case 0
  show ?case by (auto intro!: codec.intro)
next
  case (Suc d)
  then have al: "codec alignment_serialize (alignment_deserialize d) alignment_serialized_size (\<lambda>a. al_small a \<and> 2 * al_depth a + 2 \<le> d)"
    and sg: "codec segment_serialize (segment_deserialize d) segment_serialized_size (\<lambda>s. seg_small s \<and> 2 * seg_depth s + 1 \<le> d)" by auto
  have "alignment_deserialize (Suc d) (bs @ rest) = Ok (a, rest)"
    if a: "2 * al_depth a + 2 \<le> Suc d" "alignment_serialize a = Ok bs" "al_small a" for a bs rest
  proof (cases "length a = 1")
    case True
    then obtain s where s: "a = [s]" by (cases a) auto
    then have "2 * seg_depth s + 1 \<le> Suc d" "segment_serialize s = Ok bs" "seg_small s"
      using a by (auto simp: al_depth_def alignment_serialize_def alignment_serialize_with_def al_small_def)
    from segment_enc_dec_step [OF al this, of rest] show ?thesis using s by auto
  next
    case False
    then obtain h c where h: "write_flagged_int True True (length a) = Ok h" "bs = h @ c"
      and c: "write_all segment_serialize a = Ok c"
      using a(2,3) by (auto simp: alignment_serialize_def alignment_serialize_with_def outcome_simps al_small_def)
    have "list_all (\<lambda>s. 2 * seg_depth s + 1 \<le> d) a"
      using seg_depth_le a(1) by (fastforce simp: list_all_iff)
    then have "list_all (\<lambda>s. seg_small s \<and> 2 * seg_depth s + 1 \<le> d) a" using a(3) by (auto simp: list_all_iff al_small_def)
    then have "read_many (segment_deserialize d) (length a) (c @ rest) = Ok (a, rest)"
      using codec.many_enc_dec [OF sg _ c] by simp
    then show ?thesis using flagged_int_roundtrip [OF h(1), of "c @ rest"] h(2) False by simp
  qed
  moreover have "segment_deserialize (Suc d) (bs @ rest) = Ok (s, rest)"
    if "2 * seg_depth s + 1 \<le> Suc d" "segment_serialize s = Ok bs" "seg_small s" for s bs rest
    using segment_enc_dec_step [OF al that, of rest] by auto
  ultimately show ?case
    by (auto intro!: codec.intro simp: alignment_enc_size segment_enc_size)
qed

interpretation al: codec alignment_serialize "alignment_deserialize d" alignment_serialized_size
  "\<lambda>a. al_small a \<and> 2 * al_depth a + 2 \<le> d" for d
  using alignment_codecs by blast

definition av_canonical :: "nat \<Rightarrow> aligned_value \<Rightarrow> bool" where
  "av_canonical d av \<longleftrightarrow> av_ok av \<and> value_valid (av_value av) \<and> al_small (av_alignment av) \<and>
     2 * al_depth (av_alignment av) + 3 \<le> d"

interpretation av: codec av_serialize "av_deserialize d" av_serialized_size "av_canonical d" for d
proof
  fix a bs rest assume a: "av_canonical d a" "av_serialize a = Ok bs"
  then obtain b c where b: "value_serialize (av_value a) = Ok b" and c: "alignment_serialize (av_alignment a) = Ok c"
    and bs: "bs = b @ c" by (auto simp: av_serialize_def outcome_simps)
  from a(1) obtain d' where d: "d = Suc (Suc d')" "al_small (av_alignment a) \<and> 2 * al_depth (av_alignment a) + 2 \<le> Suc d'"
    "value_valid (av_value a)" "alignment_fits (av_alignment a) (av_value a)"
    by (cases d; cases "d - 1") (auto simp: av_canonical_def av_ok_def)
  show "av_deserialize d (bs @ rest) = Ok (a, rest)"
    using val.enc_dec [OF d(3) b, of d' "c @ rest"] al.enc_dec [OF d(2) c, of rest] d(1,4) bs
    by (simp add: av_deserialize_def)
  show "length bs = av_serialized_size a"
    using val.enc_size [OF d(3) b] al.enc_size [OF d(2) c] bs by (simp add: av_serialized_size_def)
qed

text \<open>What is written is the normal form: only atoms of alignment \<open>Compress\<close> may have another one, and both forms fit.\<close>

definition av_normalize :: "aligned_value \<Rightarrow> aligned_value" where
  "av_normalize av = av\<lparr>av_value := map va_normalize (av_value av)\<rparr>"

lemma va_serialize_normalize: "va_serialize (va_normalize v) = va_serialize v"
  "va_serialized_size (va_normalize v) = va_serialized_size v"
  by (simp_all add: va_serialize_def va_serialized_size_def va_normalize_id)

lemma value_serialize_normalize: "value_serialize (map va_normalize v) = value_serialize v"
  "value_serialized_size (map va_normalize v) = value_serialized_size v"
proof -
  have "write_all va_serialize (map va_normalize v) = write_all va_serialize v"
    by (simp add: write_all_def va_serialize_normalize comp_def)
  moreover have "length v = 1 \<Longrightarrow> map va_normalize v ! 0 = va_normalize (v ! 0)" by simp
  ultimately show "value_serialize (map va_normalize v) = value_serialize v"
    "value_serialized_size (map va_normalize v) = value_serialized_size v"
    by (simp_all add: value_serialize_def value_serialized_size_def va_serialize_normalize comp_def)
qed

lemma atom_fits_normalize: "atom_fits p v \<Longrightarrow> atom_fits p (va_normalize v)"
  by (cases p) (simp_all add: va_normalize_id)

lemma consume_normalize:
  "consume_internal a v acc = Some r \<Longrightarrow> consume_internal a (map va_normalize v) acc = Some r"
proof (induction a v acc arbitrary: r rule: consume_internal.induct)
  case (2 p ts v acc)
  then show ?case by (cases v) (auto simp: atom_fits_normalize split: if_splits)
next
  case (3 tys ts v acc)
  then obtain x w where v: "v = x # w" by (cases v) (auto split: if_splits)
  have x: "atom_fits (Bytes 2) x" "va_normalize x = x" using "3.prems" v by (auto simp: va_normalize_id split: if_splits)
  show ?case using "3.prems" "3.IH" v x
    by (auto simp: drop_map split: if_splits outcome.splits option.splits)
qed auto

lemma alignment_fits_normalize: "alignment_fits a v \<Longrightarrow> alignment_fits a (map va_normalize v)"
  using consume_normalize [of a v "[]"]
  by (auto simp: alignment_fits_def alignment_consume_def split: option.splits)

section \<open>Properties\<close>

text \<open>Property C23. Aligned values survive storage. Take an aligned value whose lists have lengths within \<open>u32\<close> and a recursion limit
  of at least three plus twice the depth to which its unions are nested. When it is serialized, reading gives it back in
  normal form, with exactly the bytes that follow it left over, and the serialization is as long as \<open>serialized_size\<close> says. The
  normal form drops the trailing zeros of atoms; only atoms of alignment \<open>Compress\<close> can have any.\<close>

theorem aligned_value_roundtrip:
  assumes "av_ok av" and "u32_len (av_value av)" and "list_all u32_len (av_value av)" and "al_small (av_alignment av)"
    and "2 * al_depth (av_alignment av) + 3 \<le> limit" and "av_serialize av = Ok bs"
  shows "av_deserialize limit (bs @ rest) = Ok (av_normalize av, rest) \<and> length bs = av_serialized_size av"
proof -
  have "u32_len (va_normalize v)" if "u32_len v" for v using that va_normalize_length [of v] by (simp add: u32_len_def)
  then have "value_valid (map va_normalize (av_value av))"
    using assms(2,3) by (auto simp: value_valid_def va_valid_def list_all_iff) (simp add: u32_len_def)
  then have "av_canonical limit (av_normalize av)"
    using assms alignment_fits_normalize by (simp add: av_canonical_def av_normalize_def av_ok_def)
  moreover have "av_serialize (av_normalize av) = av_serialize av" "av_serialized_size (av_normalize av) = av_serialized_size av"
    by (simp_all add: av_serialize_def av_serialized_size_def av_normalize_def value_serialize_normalize)
  ultimately show ?thesis using av.enc_dec av.enc_size assms(6) by metis
qed

theorem aligned_value_roundtrip_witness:
  "av_deserialize recursion_limit [1, 1] = Ok (\<lparr>av_value = [[1]], av_alignment = [Atom (Bytes 1)]\<rparr>, [])"
  using aligned_value_roundtrip [of "\<lparr>av_value = [[1]], av_alignment = [Atom (Bytes 1)]\<rparr>" recursion_limit "[1, 1]" "[]"]
  by (simp add: av_ok_def alignment_fits_def alignment_consume_def is_in_normal_form_def al_depth_def
      av_serialize_def value_serialize_def va_serialize_def va_serialize_normal_def alignment_serialize_def
      alignment_serialize_with_def write_flagged_int_def u32_len_def al_small_def recursion_limit_def av_normalize_def va_normalize_id)

text \<open>Property C24. The flagged integers are canonical: \<open>read_flagged_int\<close> accepts exactly the outputs of
  \<open>write_flagged_int\<close>, so no integer has two encodings.\<close>

theorem flagged_int_canonical:
  assumes "bytes_ok bs"
  shows "read_flagged_int bs = Ok ((x, y, n), rest) \<longleftrightarrow> (\<exists>h. write_flagged_int x y n = Ok h \<and> bs = h @ rest)"
  using read_flagged_int_written [OF assms] flagged_int_roundtrip by blast

theorem flagged_int_canonical_witness:
  "\<nexists>h. write_flagged_int False True 5 = Ok h \<and> [101, 0] = h @ []"
  using flagged_int_canonical [of "[101, 0]" False True 5 "[]"]
  by (auto simp: bytes_ok_def read_flagged_int_def)

end
