(* ===== verification/Onchain_State.thy ===== *)
theory Onchain_State
  imports Merkle_Tree Fab_Serialize "HOL-Library.Finite_Map"
begin

text \<open>
  \<open>onchain-state/src/state.rs\<close>: the values contract state is made of, their storage invariant and
  logarithmic size, and the variable-length integers of their encoding.

  A \<open>HashMap\<close> is a finite map, an \<open>Array\<close> a list, and a bounded Merkle tree a tree of
  \<open>Merkle_Tree\<close> whose leaves are 32-byte hashes; \<open>'f\<close> is the type of field elements.
\<close>

section \<open>State values\<close>

datatype 'f state_value =
    Null
  | Cell aligned_value
  | Map "(aligned_value, 'f state_value) fmap"
  | Array "'f state_value list"
  | BoundedMerkleTree "(nat list, 'f, unit) mtree"

definition cell_bound :: nat where "cell_bound = 2 ^ 15"

text \<open>\<open>StateValue::invariant\<close>, checked when a value is read from storage.\<close>

fun sv_invariant :: "(nat list, 'f) mcrypto \<Rightarrow> 'f state_value \<Rightarrow> bool" where
  "sv_invariant C (Cell v) = (\<not> av_serialized_size v > cell_bound)"
| "sv_invariant C (Array arr) = (\<not> length arr > 16)"
| "sv_invariant C (BoundedMerkleTree t) =
     (\<not> mt_height t > 32 \<and> mt_height t \<noteq> 0 \<and> mt_root C t \<noteq> None)"
| "sv_invariant C _ = True"

text \<open>\<open>next_power_of_two\<close> of the standard library.\<close>

definition next_power_of_two :: "nat \<Rightarrow> nat" where
  "next_power_of_two n = (if n \<le> 1 then 1 else 2 ^ Suc (ilog2 (n - 1)))"

fun sv_log_size :: "'f state_value \<Rightarrow> nat" where
  "sv_log_size Null = 0"
| "sv_log_size (Cell a) = ilog2 (next_power_of_two (av_serialized_size a))"
| "sv_log_size (Map m) = ilog2 (next_power_of_two (fcard (fmdom m)))"
| "sv_log_size (Array a) = ilog2 (next_power_of_two (length a))"
| "sv_log_size (BoundedMerkleTree t) = mt_height t"

section \<open>Lengths\<close>

text \<open>As in the flagged integers, parts that are or-ed together occupy disjoint bits.\<close>

definition write_int :: "nat \<Rightarrow> (io_error, nat list) outcome" where
  "write_int n =
     (if n \<le> 127 then Ok [n]
      else if n \<le> 16383 then Ok [128 + n mod 128, n div 128]
      else if n \<le> 2097151 then Ok [128 + n mod 128, 128 + n div 128 mod 128, n div 16384]
      else Err InvalidData)"

definition int_size :: "nat \<Rightarrow> nat" where
  "int_size n = (if n \<le> 127 then 1 else if n \<le> 16383 then 2 else if n \<le> 2097151 then 3 else 4)"

definition read_int :: "nat reader" where
  "read_int bs = obind (read_byte bs) (\<lambda>(b0, bs).
     if even (b0 div 128) then Ok (b0, bs)
     else obind (read_byte bs) (\<lambda>(b1, bs).
       if even (b1 div 128) then Ok (b0 mod 128 + b1 * 128, bs)
       else obind (read_byte bs) (\<lambda>(b2, bs).
         if even (b2 div 128) then Ok (b0 mod 128 + b1 mod 128 * 128 + b2 * 16384, bs)
         else Err InvalidData)))"

section \<open>Lemmas\<close>

lemma ilog2_power [simp]: "ilog2 (2 ^ k) = k"
proof (induction k)
  case (Suc k)
  have "ilog2 (2 ^ Suc k) = Suc (ilog2 (2 ^ Suc k div 2))" by (subst ilog2.simps) simp
  then show ?case using Suc by simp
qed (simp add: ilog2.simps)

lemma log2_ceil:
  "ilog2 (next_power_of_two n) \<le> k \<longleftrightarrow> n \<le> 2 ^ k"
proof (cases "n \<le> 1")
  case True
  then show ?thesis using one_le_power [of "2::nat" k]
    by (simp add: next_power_of_two_def ilog2.simps le_trans)
next
  case False
  then have b: "2 ^ ilog2 (n - 1) \<le> n - 1" "n - 1 < 2 ^ Suc (ilog2 (n - 1))" using ilog2_bounds [of "n - 1"] by auto
  have "Suc (ilog2 (n - 1)) \<le> k \<longleftrightarrow> n \<le> 2 ^ k"
  proof
    assume "Suc (ilog2 (n - 1)) \<le> k"
    then have "(2::nat) ^ Suc (ilog2 (n - 1)) \<le> 2 ^ k" by (intro power_increasing) auto
    then show "n \<le> 2 ^ k" using b by linarith
  next
    assume "n \<le> 2 ^ k"
    then have "(2::nat) ^ ilog2 (n - 1) < 2 ^ k" using b False by linarith
    then show "Suc (ilog2 (n - 1)) \<le> k" by (simp add: Suc_le_eq)
  qed
  then show ?thesis using False by (simp add: next_power_of_two_def del: power_Suc)
qed

lemma high_byte: "m < (128::nat) \<Longrightarrow> (128 + m) div 128 = 1 \<and> (128 + m) mod 128 = m"
  by auto

lemma write_int_read:
  assumes "write_int n = Ok bs"
  shows "read_int (bs @ rest) = Ok (n, rest) \<and> length bs = int_size n"
proof -
  from assms consider (one) "n \<le> 127" "bs = [n]"
    | (two) "127 < n" "n \<le> 16383" "bs = [128 + n mod 128, n div 128]"
    | (three) "16383 < n" "n \<le> 2097151" "bs = [128 + n mod 128, 128 + n div 128 mod 128, n div 16384]"
    by (fastforce simp: write_int_def split: if_splits)
  then show ?thesis
  proof cases
    case one
    then show ?thesis
      by (simp add: read_int_def int_size_def)
  next
    case two
    then have "n div 128 < 128" by auto
    then show ?thesis
      using two high_byte [of "n mod 128"] by (simp add: read_int_def int_size_def)
  next
    case three
    then have "n div 16384 < 128" by auto
    moreover have "n div 16384 = n div 128 div 128" by (simp flip: div_mult2_eq)
    moreover have "n div 128 = n div 128 mod 128 + 128 * (n div 128 div 128)" by simp
    moreover have "n mod 128 + 128 * (n div 128) = n" by simp
    ultimately have "n mod 128 + n div 128 mod 128 * 128 + n div 16384 * 16384 = n" by linarith
    then show ?thesis
      using three high_byte [of "n mod 128"] high_byte [of "n div 128 mod 128"] \<open>n div 16384 < 128\<close>
      by (simp add: read_int_def int_size_def)
  qed
qed

interpretation int: codec write_int read_int int_size "\<lambda>_. True"
  by unfold_locales (auto dest: write_int_read)

end
