(* ===== verification/Onchain_Cost.thy ===== *)
theory Onchain_Cost
  imports Cost_Model
begin

text \<open>
  \<open>onchain-vm/src/cost_model.rs\<close>: the parameters of the gas price of each operation and the cost of
  reads from storage. The values of the parameters are generated from benchmarks
  (\<open>gen/const_declaration.rs\<close>) and are not part of the model; \<open>tree_copy\<close>, which walks the storage
  graph, is not modelled.
\<close>

record cost_model =
  cm_noop_constant :: cost_duration
  cm_noop_coeff_arg :: cost_duration
  cm_lt :: cost_duration
  cm_eq :: cost_duration
  cm_type_null :: cost_duration
  cm_type_cell :: cost_duration
  cm_type_map :: cost_duration
  cm_type_bmt :: cost_duration
  cm_type_array :: cost_duration
  cm_size_map :: cost_duration
  cm_size_bmt :: cost_duration
  cm_size_array :: cost_duration
  cm_new_null :: cost_duration
  cm_new_cell :: cost_duration
  cm_new_map :: cost_duration
  cm_new_bmt :: cost_duration
  cm_new_array :: cost_duration
  cm_and :: cost_duration
  cm_or :: cost_duration
  cm_neg :: cost_duration
  cm_log_null_constant :: cost_duration
  cm_log_null_coeff_value_size :: cost_duration
  cm_log_cell_constant :: cost_duration
  cm_log_cell_coeff_value_size :: cost_duration
  cm_log_map_constant :: cost_duration
  cm_log_map_coeff_value_size :: cost_duration
  cm_log_bmt_constant :: cost_duration
  cm_log_bmt_coeff_value_size :: cost_duration
  cm_log_array_constant :: cost_duration
  cm_log_array_coeff_value_size :: cost_duration
  cm_root :: cost_duration
  cm_pop :: cost_duration
  cm_popeq_constant :: cost_duration
  cm_popeq_coeff_value_size :: cost_duration
  cm_popeqc_constant :: cost_duration
  cm_popeqc_coeff_value_size :: cost_duration
  cm_addi :: cost_duration
  cm_subi :: cost_duration
  cm_push_null :: cost_duration
  cm_push_cell :: cost_duration
  cm_push_map :: cost_duration
  cm_push_bmt :: cost_duration
  cm_push_array :: cost_duration
  cm_pushs_null :: cost_duration
  cm_pushs_cell :: cost_duration
  cm_pushs_map :: cost_duration
  cm_pushs_bmt :: cost_duration
  cm_pushs_array :: cost_duration
  cm_branch_constant :: cost_duration
  cm_branch_coeff_arg :: cost_duration
  cm_jmp_constant :: cost_duration
  cm_jmp_coeff_arg :: cost_duration
  cm_add :: cost_duration
  cm_sub :: cost_duration
  cm_concat_constant :: cost_duration
  cm_concat_coeff_total_size :: cost_duration
  cm_concatc_constant :: cost_duration
  cm_concatc_coeff_total_size :: cost_duration
  cm_member_constant :: cost_duration
  cm_member_coeff_key_size :: cost_duration
  cm_member_coeff_container_log_size :: cost_duration
  cm_rem_map_constant :: cost_duration
  cm_rem_map_coeff_key_size :: cost_duration
  cm_rem_map_coeff_container_log_size :: cost_duration
  cm_rem_bmt_constant :: cost_duration
  cm_rem_bmt_coeff_key_size :: cost_duration
  cm_rem_bmt_coeff_container_log_size :: cost_duration
  cm_remc_map_constant :: cost_duration
  cm_remc_map_coeff_key_size :: cost_duration
  cm_remc_map_coeff_container_log_size :: cost_duration
  cm_remc_bmt_constant :: cost_duration
  cm_remc_bmt_coeff_key_size :: cost_duration
  cm_remc_bmt_coeff_container_log_size :: cost_duration
  cm_dup_constant :: cost_duration
  cm_dup_coeff_arg :: cost_duration
  cm_swap_constant :: cost_duration
  cm_swap_coeff_arg :: cost_duration
  cm_idx_map_constant :: cost_duration
  cm_idx_map_coeff_key_size :: cost_duration
  cm_idx_map_coeff_container_log_size :: cost_duration
  cm_idx_bmt_constant :: cost_duration
  cm_idx_bmt_coeff_key_size :: cost_duration
  cm_idx_bmt_coeff_container_log_size :: cost_duration
  cm_idx_array :: cost_duration
  cm_idxp_map_constant :: cost_duration
  cm_idxp_map_coeff_key_size :: cost_duration
  cm_idxp_map_coeff_container_log_size :: cost_duration
  cm_idxp_bmt_constant :: cost_duration
  cm_idxp_bmt_coeff_key_size :: cost_duration
  cm_idxp_bmt_coeff_container_log_size :: cost_duration
  cm_idxp_array :: cost_duration
  cm_idxc_map_constant :: cost_duration
  cm_idxc_map_coeff_key_size :: cost_duration
  cm_idxc_map_coeff_container_log_size :: cost_duration
  cm_idxc_bmt_constant :: cost_duration
  cm_idxc_bmt_coeff_key_size :: cost_duration
  cm_idxc_bmt_coeff_container_log_size :: cost_duration
  cm_idxc_array :: cost_duration
  cm_idxpc_map_constant :: cost_duration
  cm_idxpc_map_coeff_key_size :: cost_duration
  cm_idxpc_map_coeff_container_log_size :: cost_duration
  cm_idxpc_bmt_constant :: cost_duration
  cm_idxpc_bmt_coeff_key_size :: cost_duration
  cm_idxpc_bmt_coeff_container_log_size :: cost_duration
  cm_idxpc_array :: cost_duration
  cm_ins_map_constant :: cost_duration
  cm_ins_map_coeff_key_size :: cost_duration
  cm_ins_map_coeff_container_log_size :: cost_duration
  cm_ins_bmt_constant :: cost_duration
  cm_ins_bmt_coeff_key_size :: cost_duration
  cm_ins_bmt_coeff_container_log_size :: cost_duration
  cm_ins_array :: cost_duration
  cm_insc_map_constant :: cost_duration
  cm_insc_map_coeff_key_size :: cost_duration
  cm_insc_map_coeff_container_log_size :: cost_duration
  cm_insc_bmt_constant :: cost_duration
  cm_insc_bmt_coeff_key_size :: cost_duration
  cm_insc_bmt_coeff_container_log_size :: cost_duration
  cm_insc_array :: cost_duration
  cm_ckpt :: cost_duration
  cm_signature_verify_constant :: cost_duration
  cm_signature_verify_coeff_size :: cost_duration
  cm_pedersen_valid :: cost_duration
  cm_verifier_key_load :: cost_duration
  cm_proof_verify_constant :: cost_duration
  cm_proof_verify_coeff_size :: cost_duration
  cm_hash_to_curve :: cost_duration
  cm_ec_add :: cost_duration
  cm_ec_mul :: cost_duration
  cm_transient_hash :: cost_duration
  cm_get_writes_constant :: cost_duration
  cm_get_writes_coeff_keys_added_size :: cost_duration
  cm_update_rcmap_constant :: cost_duration
  cm_update_rcmap_coeff_keys_added_size :: cost_duration
  cm_gc_rcmap_constant :: cost_duration
  cm_gc_rcmap_coeff_keys_removed_size :: cost_duration
  cm_read_time_batched_4k :: cost_duration
  cm_read_time_synchronous_4k :: cost_duration

text \<open>\<open>PERSISTENT_HASH_BYTES\<close> and \<open>FR_BYTES\<close> are 32.\<close>

definition fr_bytes :: nat where "fr_bytes = 32"

definition read_cell :: "cost_model \<Rightarrow> nat \<Rightarrow> bool \<Rightarrow> running_cost" where
  "read_cell cm sz sync =
     (let blocks = max 1 (div_ceil sz 4096) in
      if sync then
        let time = cd_add (cm_read_time_synchronous_4k cm) (cd_mul (cm_read_time_batched_4k cm) (blocks - 1))
        in \<lparr>rc_read_time = time, rc_compute_time = time, rc_bytes_written = 0, rc_bytes_deleted = 0\<rparr>
      else
        \<lparr>rc_read_time = cd_mul (cm_read_time_batched_4k cm) blocks, rc_compute_time = 0,
         rc_bytes_written = 0, rc_bytes_deleted = 0\<rparr>)"

definition read_map :: "cost_model \<Rightarrow> nat \<Rightarrow> bool \<Rightarrow> running_cost" where
  "read_map cm log_size sync = rc_mul (read_cell cm (32 * 16) sync) (div_ceil log_size 4)"

definition read_array :: "cost_model \<Rightarrow> bool \<Rightarrow> running_cost" where
  "read_array cm sync = read_cell cm (32 * 16) sync"

definition read_bmt :: "cost_model \<Rightarrow> nat \<Rightarrow> bool \<Rightarrow> running_cost" where
  "read_bmt cm log_size sync = rc_mul (read_cell cm (fr_bytes * 3 + 2) sync) log_size"

text \<open>A cost model that charges the same for everything, for examples.\<close>

definition uniform_cost :: "cost_duration \<Rightarrow> cost_model" where
  "uniform_cost c = \<lparr>
     cm_noop_constant = c,
     cm_noop_coeff_arg = c,
     cm_lt = c,
     cm_eq = c,
     cm_type_null = c,
     cm_type_cell = c,
     cm_type_map = c,
     cm_type_bmt = c,
     cm_type_array = c,
     cm_size_map = c,
     cm_size_bmt = c,
     cm_size_array = c,
     cm_new_null = c,
     cm_new_cell = c,
     cm_new_map = c,
     cm_new_bmt = c,
     cm_new_array = c,
     cm_and = c,
     cm_or = c,
     cm_neg = c,
     cm_log_null_constant = c,
     cm_log_null_coeff_value_size = c,
     cm_log_cell_constant = c,
     cm_log_cell_coeff_value_size = c,
     cm_log_map_constant = c,
     cm_log_map_coeff_value_size = c,
     cm_log_bmt_constant = c,
     cm_log_bmt_coeff_value_size = c,
     cm_log_array_constant = c,
     cm_log_array_coeff_value_size = c,
     cm_root = c,
     cm_pop = c,
     cm_popeq_constant = c,
     cm_popeq_coeff_value_size = c,
     cm_popeqc_constant = c,
     cm_popeqc_coeff_value_size = c,
     cm_addi = c,
     cm_subi = c,
     cm_push_null = c,
     cm_push_cell = c,
     cm_push_map = c,
     cm_push_bmt = c,
     cm_push_array = c,
     cm_pushs_null = c,
     cm_pushs_cell = c,
     cm_pushs_map = c,
     cm_pushs_bmt = c,
     cm_pushs_array = c,
     cm_branch_constant = c,
     cm_branch_coeff_arg = c,
     cm_jmp_constant = c,
     cm_jmp_coeff_arg = c,
     cm_add = c,
     cm_sub = c,
     cm_concat_constant = c,
     cm_concat_coeff_total_size = c,
     cm_concatc_constant = c,
     cm_concatc_coeff_total_size = c,
     cm_member_constant = c,
     cm_member_coeff_key_size = c,
     cm_member_coeff_container_log_size = c,
     cm_rem_map_constant = c,
     cm_rem_map_coeff_key_size = c,
     cm_rem_map_coeff_container_log_size = c,
     cm_rem_bmt_constant = c,
     cm_rem_bmt_coeff_key_size = c,
     cm_rem_bmt_coeff_container_log_size = c,
     cm_remc_map_constant = c,
     cm_remc_map_coeff_key_size = c,
     cm_remc_map_coeff_container_log_size = c,
     cm_remc_bmt_constant = c,
     cm_remc_bmt_coeff_key_size = c,
     cm_remc_bmt_coeff_container_log_size = c,
     cm_dup_constant = c,
     cm_dup_coeff_arg = c,
     cm_swap_constant = c,
     cm_swap_coeff_arg = c,
     cm_idx_map_constant = c,
     cm_idx_map_coeff_key_size = c,
     cm_idx_map_coeff_container_log_size = c,
     cm_idx_bmt_constant = c,
     cm_idx_bmt_coeff_key_size = c,
     cm_idx_bmt_coeff_container_log_size = c,
     cm_idx_array = c,
     cm_idxp_map_constant = c,
     cm_idxp_map_coeff_key_size = c,
     cm_idxp_map_coeff_container_log_size = c,
     cm_idxp_bmt_constant = c,
     cm_idxp_bmt_coeff_key_size = c,
     cm_idxp_bmt_coeff_container_log_size = c,
     cm_idxp_array = c,
     cm_idxc_map_constant = c,
     cm_idxc_map_coeff_key_size = c,
     cm_idxc_map_coeff_container_log_size = c,
     cm_idxc_bmt_constant = c,
     cm_idxc_bmt_coeff_key_size = c,
     cm_idxc_bmt_coeff_container_log_size = c,
     cm_idxc_array = c,
     cm_idxpc_map_constant = c,
     cm_idxpc_map_coeff_key_size = c,
     cm_idxpc_map_coeff_container_log_size = c,
     cm_idxpc_bmt_constant = c,
     cm_idxpc_bmt_coeff_key_size = c,
     cm_idxpc_bmt_coeff_container_log_size = c,
     cm_idxpc_array = c,
     cm_ins_map_constant = c,
     cm_ins_map_coeff_key_size = c,
     cm_ins_map_coeff_container_log_size = c,
     cm_ins_bmt_constant = c,
     cm_ins_bmt_coeff_key_size = c,
     cm_ins_bmt_coeff_container_log_size = c,
     cm_ins_array = c,
     cm_insc_map_constant = c,
     cm_insc_map_coeff_key_size = c,
     cm_insc_map_coeff_container_log_size = c,
     cm_insc_bmt_constant = c,
     cm_insc_bmt_coeff_key_size = c,
     cm_insc_bmt_coeff_container_log_size = c,
     cm_insc_array = c,
     cm_ckpt = c,
     cm_signature_verify_constant = c,
     cm_signature_verify_coeff_size = c,
     cm_pedersen_valid = c,
     cm_verifier_key_load = c,
     cm_proof_verify_constant = c,
     cm_proof_verify_coeff_size = c,
     cm_hash_to_curve = c,
     cm_ec_add = c,
     cm_ec_mul = c,
     cm_transient_hash = c,
     cm_get_writes_constant = c,
     cm_get_writes_coeff_keys_added_size = c,
     cm_update_rcmap_constant = c,
     cm_update_rcmap_coeff_keys_added_size = c,
     cm_gc_rcmap_constant = c,
     cm_gc_rcmap_coeff_keys_removed_size = c,
     cm_read_time_batched_4k = c,
     cm_read_time_synchronous_4k = c\<rparr>"

end
