(* ===== verification/Onchain_Ops.thy ===== *)
theory Onchain_Ops
  imports Onchain_State Onchain_Cost
begin

text \<open>
  \<open>onchain-vm/src/ops.rs\<close>, \<open>vm_value.rs\<close>, \<open>result_mode.rs\<close>, \<open>error.rs\<close> and the cache of \<open>vm.rs\<close>:
  the data of the Impact virtual machine. Messages of \<open>TypeError\<close> and \<open>InvalidArgs\<close> are left out.
\<close>

section \<open>Values, errors, result modes\<close>

datatype value_strength = Weak | Strong

fun strength_and :: "value_strength \<Rightarrow> value_strength \<Rightarrow> value_strength" where
  "strength_and Strong Strong = Strong"
| "strength_and _ _ = Weak"

record 'f vm_value =
  vv_strength :: value_strength
  vv_value :: "'f state_value"

definition vnew :: "value_strength \<Rightarrow> 'f state_value \<Rightarrow> 'f vm_value" where
  "vnew s v = \<lparr>vv_strength = s, vv_value = v\<rparr>"

datatype 'f vm_error =
    RanOffStack
  | RanPastProgramEnd
  | ExpectedCell "'f state_value"
  | Decode invalid_builtin_decode
  | ArithmeticOverflow
  | TooLongForEqual
  | TypeError
  | OutOfGas
  | BoundsExceeded
  | LogBoundExceeded
  | InvalidArgs
  | MissingKey
  | CacheMiss
  | ReadMismatch aligned_value aligned_value
  | CellBoundExceeded
  | StackOverflow
  | MerkleTreeError invalid_update

fun as_cell :: "'f state_value \<Rightarrow> ('f vm_error, aligned_value) outcome" where
  "as_cell (Cell v) = Ok v"
| "as_cell v = Err (ExpectedCell v)"

text \<open>A result mode: what \<open>popeq\<close> and \<open>log\<close> do with the values they see.\<close>

record ('f, 'r, 'ev) result_mode =
  process_read :: "'r \<Rightarrow> aligned_value \<Rightarrow> ('f vm_error, 'ev option) outcome"
  process_log :: "'f state_value \<Rightarrow> 'ev option"

definition result_mode_verify :: "('f, aligned_value, 'f state_value) result_mode" where
  "result_mode_verify = \<lparr>
     process_read = (\<lambda>expected actual.
       if expected \<noteq> actual then Err (ReadMismatch expected actual) else Ok None),
     process_log = (\<lambda>v. Some v)\<rparr>"

datatype 'f gather_event = Read aligned_value | LogEvent "'f state_value"

definition result_mode_gather :: "('f, unit, 'f gather_event) result_mode" where
  "result_mode_gather = \<lparr>process_read = (\<lambda>_ real. Ok (Some (Read real))), process_log = (\<lambda>v. Some (LogEvent v))\<rparr>"

section \<open>The cache of visited keys\<close>

datatype inner_cache = InnerCache "(aligned_value, inner_cache) fmap option"

type_synonym cache_key = "(nat \<times> aligned_value list) option"

definition push_key :: "cache_key \<Rightarrow> aligned_value \<Rightarrow> cache_key" where
  "push_key k key = map_option (\<lambda>(idx, path). (idx, path @ [key])) k"

text \<open>The fold of \<open>Cache::visit\<close> along the path: missing entries are added, and the result says
  whether all were there.\<close>

fun visit_inner :: "inner_cache \<Rightarrow> aligned_value list \<Rightarrow> inner_cache \<times> bool" where
  "visit_inner c [] = (c, True)"
| "visit_inner (InnerCache None) (key # path) = (InnerCache None, True)"
| "visit_inner (InnerCache (Some m)) (key # path) =
     (case fmlookup m key of
        Some sub \<Rightarrow> (let (sub', found) = visit_inner sub path
                     in (InnerCache (Some (fmupd key sub' m)), found))
      | None \<Rightarrow> (let (sub', _) = visit_inner (InnerCache (Some fmempty)) path
                 in (InnerCache (Some (fmupd key sub' m)), False)))"

fun cache_visit :: "inner_cache list \<Rightarrow> cache_key \<Rightarrow> ('f vm_error, inner_cache list \<times> bool) outcome" where
  "cache_visit cache None = Ok (cache, True)"
| "cache_visit cache (Some (n, path)) =
     (if n > length cache then Ok (cache, False)
      else if n = length cache then Panic
      else let (c, found) = visit_inner (cache ! n) path in Ok (cache[n := c], found))"

section \<open>Operations\<close>

datatype key = KeyValue aligned_value | KeyStack

datatype ('f, 'r) op =
    Noop nat
  | Lt | Eq | Type | Size | New | And | Or | Neg | Log | Root | Pop
  | Popeq bool 'r
  | Addi nat
  | Subi nat
  | Push bool "'f state_value"
  | Branch nat
  | Jmp nat
  | Add | Sub
  | Concat bool nat
  | Member
  | Rem bool
  | Dup nat
  | Swap nat
  | Idx bool bool "key list"
  | Ins bool nat
  | Ckpt

text \<open>\<open>Op::invariant\<close>, checked on operations read from storage.\<close>

fun op_invariant :: "('f, 'r) op \<Rightarrow> bool" where
  "op_invariant (Dup n) = (\<not> n \<ge> 16)"
| "op_invariant (Swap n) = (\<not> n \<ge> 16)"
| "op_invariant (Ins _ n) = (\<not> n \<ge> 16)"
| "op_invariant (Idx _ _ path) = (1 \<le> length path \<and> length path \<le> 16)"
| "op_invariant _ = True"

fun op_translate :: "('r \<Rightarrow> 'q) \<Rightarrow> ('f, 'r) op \<Rightarrow> ('f, 'q) op" where
  "op_translate f (Noop n) = Noop n"
| "op_translate f Lt = Lt"
| "op_translate f Eq = Eq"
| "op_translate f Type = Type"
| "op_translate f Size = Size"
| "op_translate f New = New"
| "op_translate f And = And"
| "op_translate f Or = Or"
| "op_translate f Neg = Neg"
| "op_translate f Log = Log"
| "op_translate f Root = Root"
| "op_translate f Pop = Pop"
| "op_translate f (Popeq cached result) = Popeq cached (f result)"
| "op_translate f (Addi immediate) = Addi immediate"
| "op_translate f (Subi immediate) = Subi immediate"
| "op_translate f (Push storage v) = Push storage v"
| "op_translate f (Branch skip) = Branch skip"
| "op_translate f (Jmp skip) = Jmp skip"
| "op_translate f Add = Add"
| "op_translate f Sub = Sub"
| "op_translate f (Concat cached n) = Concat cached n"
| "op_translate f Member = Member"
| "op_translate f (Rem cached) = Rem cached"
| "op_translate f (Dup n) = Dup n"
| "op_translate f (Swap n) = Swap n"
| "op_translate f (Idx cached push_path path) = Idx cached push_path path"
| "op_translate f (Ins cached n) = Ins cached n"
| "op_translate f Ckpt = Ckpt"

text \<open>The number of stack entries an operation needs.\<close>

fun stack_req :: "('f, 'r) op \<Rightarrow> nat" where
  "stack_req (Noop _) = 0"
| "stack_req (Push _ _) = 0"
| "stack_req (Jmp _) = 0"
| "stack_req Ckpt = 0"
| "stack_req Type = 1"
| "stack_req Size = 1"
| "stack_req New = 1"
| "stack_req Neg = 1"
| "stack_req Log = 1"
| "stack_req Root = 1"
| "stack_req Pop = 1"
| "stack_req (Popeq _ _) = 1"
| "stack_req (Addi _) = 1"
| "stack_req (Subi _) = 1"
| "stack_req (Branch _) = 1"
| "stack_req Lt = 2"
| "stack_req Eq = 2"
| "stack_req And = 2"
| "stack_req Or = 2"
| "stack_req Add = 2"
| "stack_req Sub = 2"
| "stack_req (Concat _ _) = 2"
| "stack_req Member = 2"
| "stack_req (Rem _) = 2"
| "stack_req (Dup n) = n + 1"
| "stack_req (Swap n) = n + 2"
| "stack_req (Idx _ _ path) = length (filter (\<lambda>k. k = KeyStack) path) + 1"
| "stack_req (Ins _ n) = n * 2 + 1"

end
