(* ===== verification/Onchain_VM.thy ===== *)
theory Onchain_VM
  imports Onchain_Ops
begin

text \<open>
  \<open>onchain-vm/src/vm.rs\<close>: the Impact virtual machine. One definition per operation, each with its gas
  accounting, composed by \<open>exec_op\<close> and the main loop \<open>run_program_internal\<close>.

  \<^item> The stack is a list with the top at its head (the code keeps the top at the end of a vector);
    \<open>run_program_step_limited\<close> reverses the initial stack and the result.
  \<^item> \<open>vm_env\<close> holds what the machine takes from other crates: the hash functions, the size of a state
    value in its storage encoding (\<open>ve_sv_size\<close>), the size of the storage nodes of a logged value
    if it is within \<open>MAX_LOG_SIZE\<close> (\<open>ve_log_nodes\<close>), the conversion of a Merkle root to an aligned
    value (\<open>ve_root_value\<close>); and the cost model and gas limit of the run.
\<close>

section \<open>The machine\<close>

record 'f vm_env =
  ve_crypto :: "(nat list, 'f) mcrypto"
  ve_sv_size :: "'f state_value \<Rightarrow> nat"
  ve_log_nodes :: "'f state_value \<Rightarrow> nat option"
  ve_root_value :: "'f \<Rightarrow> aligned_value"
  ve_cost :: cost_model
  ve_limit :: "running_cost option"

record ('f, 'ev) vm =
  vm_stack :: "('f vm_value \<times> cache_key) list"
  vm_gas :: running_cost
  vm_events :: "'ev list"
  vm_cache :: "inner_cache list"

definition max_stack_height :: nat where "max_stack_height = 2 ^ 16"

definition incr_gas_full ::
  "'f vm_env \<Rightarrow> running_cost \<Rightarrow> ('f, 'ev) vm \<Rightarrow> ('f vm_error, ('f, 'ev) vm) outcome" where
  "incr_gas_full E by s =
     (let gas = rc_add (vm_gas s) by in
      if (case ve_limit E of Some limit \<Rightarrow>
            rc_compute_time gas > rc_compute_time limit \<or> rc_read_time gas > rc_read_time limit
          | None \<Rightarrow> False)
      then Err OutOfGas else Ok (s\<lparr>vm_gas := gas\<rparr>))"

definition incr_gas ::
  "'f vm_env \<Rightarrow> cost_duration \<Rightarrow> ('f, 'ev) vm \<Rightarrow> ('f vm_error, ('f, 'ev) vm) outcome" where
  "incr_gas E by s = incr_gas_full E (rc_zero\<lparr>rc_compute_time := by\<rparr>) s"

definition vm_pop :: "('f, 'ev) vm \<Rightarrow> ('f vm_error, ('f vm_value \<times> cache_key) \<times> ('f, 'ev) vm) outcome" where
  "vm_pop s = (case vm_stack s of [] \<Rightarrow> Panic | v # st \<Rightarrow> Ok (v, s\<lparr>vm_stack := st\<rparr>))"

definition vm_push :: "'f vm_value \<times> cache_key \<Rightarrow> ('f, 'ev) vm \<Rightarrow> ('f, 'ev) vm" where
  "vm_push v s = s\<lparr>vm_stack := v # vm_stack s\<rparr>"

definition pop_cell :: "('f, 'ev) vm \<Rightarrow> ('f vm_error, aligned_value \<times> ('f, 'ev) vm) outcome" where
  "pop_cell s = obind (vm_pop s) (\<lambda>((v, _), s). obind (as_cell (vv_value v)) (\<lambda>c. Ok (c, s)))"

definition push_cell :: "aligned_value \<Rightarrow> ('f, 'ev) vm \<Rightarrow> ('f, 'ev) vm" where
  "push_cell c s = vm_push (vnew Strong (Cell c), None) s"

definition decode :: "(invalid_builtin_decode, 'a) outcome \<Rightarrow> ('f vm_error, 'a) outcome" where
  "decode m = omap_err Decode m"


section \<open>Operations on cells\<close>

definition vm_add :: "fab_value \<Rightarrow> ('f vm_error, nat) outcome \<Rightarrow> ('f vm_error, aligned_value) outcome" where
  "vm_add a b = obind (decode (u64_of_value a)) (\<lambda>a. obind b (\<lambda>b.
     if a + b \<le> u64_max then Ok (av_of_u64 (a + b)) else Err ArithmeticOverflow))"

definition vm_sub :: "fab_value \<Rightarrow> ('f vm_error, nat) outcome \<Rightarrow> ('f vm_error, aligned_value) outcome" where
  "vm_sub a b = obind b (\<lambda>b. obind (decode (u64_of_value a)) (\<lambda>a.
     if b \<le> a then Ok (av_of_u64 (a - b)) else Err ArithmeticOverflow))"

definition vm_lt :: "fab_value \<Rightarrow> fab_value \<Rightarrow> ('f vm_error, aligned_value) outcome" where
  "vm_lt a b = obind (decode (u64_of_value a)) (\<lambda>a. obind (decode (u64_of_value b)) (\<lambda>b.
     Ok (av_of_bool (a < b))))"

definition vm_concat :: "aligned_value \<Rightarrow> aligned_value \<Rightarrow> nat \<Rightarrow> ('f vm_error, aligned_value) outcome" where
  "vm_concat a b bound =
     (let size_a = av_serialized_size a; size_b = av_serialized_size b in
      if size_a + size_b \<le> bound
      then ok_or (av_new (value_concat [av_value a, av_value b])
                         (alignment_concat [av_alignment a, av_alignment b])) TypeError
      else Err BoundsExceeded)"

definition eq_valid_input :: "aligned_value \<Rightarrow> bool" where
  "eq_valid_input x = (av_serialized_size x \<le> 64)"

definition vm_eq :: "aligned_value \<Rightarrow> aligned_value \<Rightarrow> ('f vm_error, aligned_value) outcome" where
  "vm_eq a b = (case (eq_valid_input a, eq_valid_input b) of
       (False, False) \<Rightarrow> Err TooLongForEqual
     | (False, True) \<Rightarrow> Ok (av_of_bool False)
     | (True, False) \<Rightarrow> Ok (av_of_bool False)
     | (True, True) \<Rightarrow> Ok (av_of_bool (a = b)))"

text \<open>\<open>1u64.checked_shl(height)\<close>: no bound for heights from 64 on.\<close>

definition shl_bound :: "nat \<Rightarrow> nat option" where
  "shl_bound h = (if h < 64 then Some (2 ^ h) else None)"

definition vm_idx :: "'f vm_value \<times> cache_key \<Rightarrow> aligned_value \<Rightarrow> inner_cache list \<Rightarrow> bool \<Rightarrow>
    ('f vm_error, ('f vm_value \<times> cache_key) \<times> inner_cache list) outcome" where
  "vm_idx v key cache cached =
     (let ck = push_key (snd v) key; strength = vv_strength (fst v) in
      obind (cache_visit cache ck) (\<lambda>(cache, hit).
      case vv_value (fst v) of
        Array arr \<Rightarrow>
          obind (decode (u8_of_value (av_value key))) (\<lambda>i.
            if i \<ge> length arr then Err TypeError
            else if cached \<and> \<not> hit then Err CacheMiss
            else Ok ((vnew strength (arr ! i), ck), cache))
      | Map m \<Rightarrow>
          let res = (case fmlookup m key of Some x \<Rightarrow> x | None \<Rightarrow> Null) in
          if cached \<and> \<not> hit then Err CacheMiss else Ok ((vnew strength res, ck), cache)
      | BoundedMerkleTree t \<Rightarrow>
          obind (decode (u64_of_value (av_value key))) (\<lambda>i.
            if (case shl_bound (mt_height t) of Some bound \<Rightarrow> i \<ge> bound | None \<Rightarrow> False)
            then Err MissingKey
            else Ok ((case mt_index t i of
                        Some (hash, _) \<Rightarrow> vnew strength (Cell (av_of_hash hash))
                      | None \<Rightarrow> vnew strength Null, ck), cache))
      | _ \<Rightarrow> Err TypeError))"

section \<open>The operations\<close>

definition exec_noop where
  "exec_noop E n s =
     incr_gas E (cd_add (cm_noop_constant (ve_cost E)) (cd_mul (cm_noop_coeff_arg (ve_cost E)) n)) s"

text \<open>The jumps of \<open>branch\<close> and \<open>jmp\<close> are taken after the operation (\<open>op_skip\<close>).\<close>

definition exec_branch where
  "exec_branch E skip s =
     incr_gas E (cd_add (cm_branch_constant (ve_cost E)) (cd_mul (cm_branch_coeff_arg (ve_cost E)) skip)) s"

definition exec_jmp where
  "exec_jmp E skip s =
     incr_gas E (cd_add (cm_jmp_constant (ve_cost E)) (cd_mul (cm_jmp_coeff_arg (ve_cost E)) skip)) s"

definition exec_ckpt where
  "exec_ckpt E s = incr_gas E (cm_ckpt (ve_cost E)) s"

definition exec_lt where
  "exec_lt E s =
     obind (incr_gas E (cm_lt (ve_cost E)) s) (\<lambda>s.
     obind (pop_cell s) (\<lambda>(b, s).
     obind (pop_cell s) (\<lambda>(a, s).
     obind (vm_lt (av_value a) (av_value b)) (\<lambda>r. Ok (push_cell r s)))))"

definition exec_eq where
  "exec_eq E s =
     obind (incr_gas E (cm_eq (ve_cost E)) s) (\<lambda>s.
     obind (pop_cell s) (\<lambda>(a, s).
     obind (pop_cell s) (\<lambda>(b, s).
     obind (vm_eq a b) (\<lambda>r. Ok (push_cell r s)))))"

text \<open>The type tag is computed in \<open>u8\<close>; the arithmetic wraps in release builds.\<close>

fun type_tag :: "cost_model \<Rightarrow> 'f state_value \<Rightarrow> ('f vm_error, nat \<times> cost_duration) outcome" where
  "type_tag cm (Cell _) = Ok (0, cm_type_cell cm)"
| "type_tag cm Null = Ok (1, cm_type_null cm)"
| "type_tag cm (Map _) = Ok (2, cm_type_map cm)"
| "type_tag cm (Array a) =
     (if length a > 16 then Err TypeError else Ok (3 + length a * 8, cm_type_array cm))"
| "type_tag cm (BoundedMerkleTree t) = Ok ((4 + (mt_height t - 1) * 8) mod 256, cm_type_bmt cm)"

definition exec_type where
  "exec_type E s =
     obind (vm_pop s) (\<lambda>((val, _), s).
     obind (type_tag (ve_cost E) (vv_value val)) (\<lambda>(ty, cost).
     obind (incr_gas E cost s) (\<lambda>s. Ok (push_cell (av_of_u8 ty) s))))"

definition exec_size where
  "exec_size E s =
     obind (vm_pop s) (\<lambda>((val, _), s).
     case vv_value val of
       Map m \<Rightarrow> obind (incr_gas E (cm_size_map (ve_cost E)) s) (\<lambda>s.
         Ok (push_cell (av_of_u64 (fcard (fmdom m) mod (u64_max + 1))) s))
     | BoundedMerkleTree t \<Rightarrow> obind (incr_gas E (cm_size_bmt (ve_cost E)) s) (\<lambda>s.
         Ok (push_cell (av_of_u64 (mt_height t)) s))
     | Array a \<Rightarrow> obind (incr_gas E (cm_size_array (ve_cost E)) s) (\<lambda>s.
         Ok (push_cell (av_of_u64 (length a)) s))
     | _ \<Rightarrow> Err TypeError)"

text \<open>The type tag is in the lower three bits of the argument, the container size in the others.\<close>

definition exec_new where
  "exec_new E s =
     obind (pop_cell s) (\<lambda>(a, s).
     obind (decode (u8_of_value (av_value a))) (\<lambda>val.
     let cm = ve_cost E; tag = val mod 8; sz = val div 8;
         mk = (\<lambda>s v. Ok (vm_push (vnew Strong v, None) s))
     in if tag = 0 then obind (incr_gas E (cm_new_cell cm) s) (\<lambda>s. mk s (Cell av_unit))
        else if tag = 1 then obind (incr_gas E (cm_new_null cm) s) (\<lambda>s. mk s Null)
        else if tag = 2 then obind (incr_gas E (cm_new_map cm) s) (\<lambda>s. mk s (Map fmempty))
        else if tag = 3 then obind (incr_gas E (cm_new_array cm) s) (\<lambda>s.
          if sz > 16 then Err InvalidArgs else mk s (Array (replicate sz Null)))
        else if tag = 4 then obind (incr_gas E (cm_new_bmt cm) s) (\<lambda>s.
          mk s (BoundedMerkleTree (mt_blank (sz + 1))))
        else Err InvalidArgs))"

definition exec_and where
  "exec_and E s =
     obind (incr_gas E (cm_and (ve_cost E)) s) (\<lambda>s.
     obind (pop_cell s) (\<lambda>(a, s). obind (decode (bool_of_value (av_value a))) (\<lambda>a.
     obind (pop_cell s) (\<lambda>(b, s). obind (decode (bool_of_value (av_value b))) (\<lambda>b.
     Ok (push_cell (av_of_bool (a \<and> b)) s))))))"

definition exec_or where
  "exec_or E s =
     obind (incr_gas E (cm_or (ve_cost E)) s) (\<lambda>s.
     obind (pop_cell s) (\<lambda>(a, s). obind (decode (bool_of_value (av_value a))) (\<lambda>a.
     obind (pop_cell s) (\<lambda>(b, s). obind (decode (bool_of_value (av_value b))) (\<lambda>b.
     Ok (push_cell (av_of_bool (a \<or> b)) s))))))"

definition exec_neg where
  "exec_neg E s =
     obind (incr_gas E (cm_neg (ve_cost E)) s) (\<lambda>s.
     obind (pop_cell s) (\<lambda>(a, s). obind (decode (bool_of_value (av_value a))) (\<lambda>a.
     Ok (push_cell (av_of_bool (\<not> a)) s))))"

fun log_cost :: "cost_model \<Rightarrow> 'f state_value \<Rightarrow> nat \<Rightarrow> cost_duration" where
  "log_cost cm Null n = cd_add (cm_log_null_constant cm) (cd_mul (cm_log_null_coeff_value_size cm) n)"
| "log_cost cm (Cell _) n = cd_add (cm_log_cell_constant cm) (cd_mul (cm_log_cell_coeff_value_size cm) n)"
| "log_cost cm (Map _) n = cd_add (cm_log_map_constant cm) (cd_mul (cm_log_map_coeff_value_size cm) n)"
| "log_cost cm (BoundedMerkleTree _) n =
     cd_add (cm_log_bmt_constant cm) (cd_mul (cm_log_bmt_coeff_value_size cm) n)"
| "log_cost cm (Array _) n = cd_add (cm_log_array_constant cm) (cd_mul (cm_log_array_coeff_value_size cm) n)"

definition push_event :: "'ev option \<Rightarrow> ('f, 'ev) vm \<Rightarrow> ('f, 'ev) vm" where
  "push_event ev s = (case ev of Some e \<Rightarrow> s\<lparr>vm_events := vm_events s @ [e]\<rparr> | None \<Rightarrow> s)"

definition exec_log where
  "exec_log E mode s =
     obind (vm_pop s) (\<lambda>((v, _), s).
     let val = vv_value v in
     obind (ok_or (ve_log_nodes E val) LogBoundExceeded) (\<lambda>sz.
     obind (incr_gas E (log_cost (ve_cost E) val sz) s) (\<lambda>s.
     obind (incr_gas_full E (rc_zero\<lparr>rc_bytes_written := sz, rc_bytes_deleted := sz\<rparr>) s) (\<lambda>s.
     Ok (push_event (process_log mode val) s)))))"

definition exec_root where
  "exec_root E s =
     obind (incr_gas E (cm_root (ve_cost E)) s) (\<lambda>s.
     obind (vm_pop s) (\<lambda>((a, _), s).
     case vv_value a of
       BoundedMerkleTree t \<Rightarrow> obind (ok_or (mt_root (ve_crypto E) t) TypeError) (\<lambda>r.
         Ok (push_cell (ve_root_value E r) s))
     | _ \<Rightarrow> Err TypeError))"

definition exec_pop where
  "exec_pop E s =
     obind (incr_gas E (cm_pop (ve_cost E)) s) (\<lambda>s. obind (vm_pop s) (\<lambda>(_, s). Ok s))"

definition exec_popeq where
  "exec_popeq E mode result s =
     obind (incr_gas E (cm_popeq_constant (ve_cost E)) s) (\<lambda>s.
     obind (pop_cell s) (\<lambda>(v, s).
     obind (incr_gas E (cd_mul (cm_popeq_coeff_value_size (ve_cost E)) (av_serialized_size v)) s) (\<lambda>s.
     obind (process_read mode result v) (\<lambda>ev. Ok (push_event ev s)))))"

definition exec_addi where
  "exec_addi E immediate s =
     obind (incr_gas E (cm_addi (ve_cost E)) s) (\<lambda>s.
     obind (pop_cell s) (\<lambda>(a, s).
     obind (vm_add (av_value a) (Ok immediate)) (\<lambda>r. Ok (push_cell r s))))"

definition exec_subi where
  "exec_subi E immediate s =
     obind (incr_gas E (cm_subi (ve_cost E)) s) (\<lambda>s.
     obind (pop_cell s) (\<lambda>(a, s).
     obind (vm_sub (av_value a) (Ok immediate)) (\<lambda>r. Ok (push_cell r s))))"

fun push_cost :: "cost_model \<Rightarrow> bool \<Rightarrow> 'f state_value \<Rightarrow> cost_duration" where
  "push_cost cm storage Null = (if storage then cm_pushs_null cm else cm_push_null cm)"
| "push_cost cm storage (Cell _) = (if storage then cm_pushs_cell cm else cm_push_cell cm)"
| "push_cost cm storage (Map _) = (if storage then cm_pushs_map cm else cm_push_map cm)"
| "push_cost cm storage (BoundedMerkleTree _) = (if storage then cm_pushs_bmt cm else cm_push_bmt cm)"
| "push_cost cm storage (Array _) = (if storage then cm_pushs_array cm else cm_push_array cm)"

definition exec_push where
  "exec_push E storage v s =
     obind (incr_gas E (push_cost (ve_cost E) storage v) s) (\<lambda>s.
     Ok (vm_push (vnew (if storage then Strong else Weak) v, None) s))"

definition exec_add where
  "exec_add E s =
     obind (incr_gas E (cm_add (ve_cost E)) s) (\<lambda>s.
     obind (pop_cell s) (\<lambda>(a, s).
     obind (pop_cell s) (\<lambda>(b, s).
     obind (vm_add (av_value a) (decode (u64_of_value (av_value b)))) (\<lambda>r. Ok (push_cell r s)))))"

definition exec_sub where
  "exec_sub E s =
     obind (incr_gas E (cm_sub (ve_cost E)) s) (\<lambda>s.
     obind (pop_cell s) (\<lambda>(a, s).
     obind (pop_cell s) (\<lambda>(b, s).
     obind (vm_sub (av_value b) (decode (u64_of_value (av_value a)))) (\<lambda>r. Ok (push_cell r s)))))"

definition exec_concat where
  "exec_concat E n s =
     (if n > cell_bound then Err CellBoundExceeded
      else obind (pop_cell s) (\<lambda>(a, s).
        obind (pop_cell s) (\<lambda>(b, s).
        let total_len = av_serialized_size a + av_serialized_size b in
        obind (incr_gas E (cd_add (cm_concat_constant (ve_cost E))
                 (cd_mul (cm_concat_coeff_total_size (ve_cost E)) total_len)) s) (\<lambda>s.
        obind (vm_concat b a n) (\<lambda>r. Ok (push_cell r s))))))"

definition visit_cache ::
  "cache_key \<Rightarrow> ('f, 'ev) vm \<Rightarrow> ('f vm_error, bool \<times> ('f, 'ev) vm) outcome" where
  "visit_cache ck s = obind (cache_visit (vm_cache s) ck) (\<lambda>(c, hit). Ok (hit, s\<lparr>vm_cache := c\<rparr>))"

text \<open>The price of reading a container of the given kind synchronously, as \<open>rem\<close>, \<open>idx\<close> and
  \<open>ins\<close> charge it.\<close>

fun read_container :: "cost_model \<Rightarrow> 'f state_value \<Rightarrow> running_cost" where
  "read_container cm (Array a) = read_array cm True"
| "read_container cm (Map m) = read_map cm (sv_log_size (Map m)) True"
| "read_container cm (BoundedMerkleTree t) = read_bmt cm (sv_log_size (BoundedMerkleTree t)) True"
| "read_container cm _ = rc_zero"

definition exec_member where
  "exec_member E s =
     obind (pop_cell s) (\<lambda>(key, s).
     obind (vm_pop s) (\<lambda>((c, _), s).
     let cm = ve_cost E; log_size = sv_log_size (vv_value c) in
     obind (incr_gas E (cd_add (cd_add (cm_member_constant cm)
              (cd_mul (cm_member_coeff_key_size cm) (av_serialized_size key)))
              (cd_mul (cm_member_coeff_container_log_size cm) log_size)) s) (\<lambda>s.
     obind (incr_gas_full E (read_map cm log_size True) s) (\<lambda>s.
     case vv_value c of
       Map m \<Rightarrow> Ok (push_cell (av_of_bool (key |\<in>| fmdom m)) s)
     | _ \<Rightarrow> Err TypeError))))"

fun rem_cost :: "cost_model \<Rightarrow> aligned_value \<Rightarrow> 'f state_value \<Rightarrow> cost_duration" where
  "rem_cost cm key (Map m) = cd_add (cd_add (cm_rem_map_constant cm)
     (cd_mul (cm_rem_map_coeff_key_size cm) (av_serialized_size key)))
     (cd_mul (cm_rem_map_coeff_container_log_size cm) (sv_log_size (Map m)))"
| "rem_cost cm key (BoundedMerkleTree t) = cd_add (cm_rem_bmt_constant cm)
     (cd_mul (cm_rem_bmt_coeff_container_log_size cm) (sv_log_size (BoundedMerkleTree t)))"
| "rem_cost cm key _ = 0"

fun rem_read :: "cost_model \<Rightarrow> 'f state_value \<Rightarrow> running_cost" where
  "rem_read cm (Array a) = rc_zero"
| "rem_read cm v = read_container cm v"

text \<open>Removing a key from a container; the hash \<open>HashOutput::default()\<close> that replaces a removed leaf
  is 32 zero bytes.\<close>

definition bmt_update ::
  "(nat list, 'f) mcrypto \<Rightarrow> (nat list, 'f, unit) mtree \<Rightarrow> nat \<Rightarrow> nat list \<Rightarrow>
    ('f vm_error, 'f state_value) outcome" where
  "bmt_update C t i h =
     obind (omap_err MerkleTreeError (mt_try_update_hash t i h ())) (\<lambda>t'.
       Ok (BoundedMerkleTree (mt_rehash C t')))"

fun rem_key :: "(nat list, 'f) mcrypto \<Rightarrow> aligned_value \<Rightarrow> 'f state_value \<Rightarrow>
    ('f vm_error, 'f state_value) outcome" where
  "rem_key C key (Map m) = Ok (Map (fmdrop key m))"
| "rem_key C key (BoundedMerkleTree t) =
     obind (decode (u64_of_value (av_value key))) (\<lambda>i. bmt_update C t i (replicate 32 0))"
| "rem_key C key _ = Err TypeError"

definition exec_rem where
  "exec_rem E cached s =
     obind (pop_cell s) (\<lambda>(key, s).
     obind (vm_pop s) (\<lambda>((c, ck), s).
     let cm = ve_cost E in
     obind (incr_gas E (rem_cost cm key (vv_value c)) s) (\<lambda>s.
     obind (if cached then Ok s else incr_gas_full E (rem_read cm (vv_value c)) s) (\<lambda>s.
     obind (visit_cache (push_key ck key) s) (\<lambda>(hit, s).
     if cached \<and> \<not> hit then Err CacheMiss
     else obind (rem_key (ve_crypto E) key (vv_value c)) (\<lambda>c'.
       Ok (vm_push (vnew (vv_strength c) c', ck) s)))))))"

definition exec_dup where
  "exec_dup E n s =
     obind (incr_gas E (cd_add (cm_dup_constant (ve_cost E)) (cd_mul (cm_dup_coeff_arg (ve_cost E)) n)) s) (\<lambda>s.
     if n < length (vm_stack s) then Ok (vm_push (vm_stack s ! n) s) else Panic)"

definition exec_swap where
  "exec_swap E n s =
     obind (incr_gas E (cd_add (cm_swap_constant (ve_cost E)) (cd_mul (cm_swap_coeff_arg (ve_cost E)) n)) s) (\<lambda>s.
     let st = vm_stack s in
     if n + 1 < length st then Ok (s\<lparr>vm_stack := st[0 := st ! (n + 1), n + 1 := st ! 0]\<rparr>) else Panic)"

text \<open>\<open>idx\<close>: the keys written \<open>Key::Stack\<close> are popped first, in the order of the path.\<close>

fun refine_path :: "key list \<Rightarrow> ('f, 'ev) vm \<Rightarrow> ('f vm_error, 'f vm_value list \<times> ('f, 'ev) vm) outcome" where
  "refine_path [] s = Ok ([], s)"
| "refine_path (KeyStack # path) s =
     obind (vm_pop s) (\<lambda>((k, _), s). obind (refine_path path s) (\<lambda>(ks, s). Ok (k # ks, s)))"
| "refine_path (KeyValue v # path) s =
     obind (refine_path path s) (\<lambda>(ks, s). Ok (vnew Weak (Cell v) # ks, s))"

fun idx_cost :: "cost_model \<Rightarrow> 'f state_value \<Rightarrow> bool \<Rightarrow> bool \<Rightarrow>
    cost_duration \<times> cost_duration \<times> cost_duration" where
  "idx_cost cm (Map _) True True =
     (cm_idxpc_map_constant cm, cm_idxpc_map_coeff_key_size cm, cm_idxpc_map_coeff_container_log_size cm)"
| "idx_cost cm (Map _) True False =
     (cm_idxc_map_constant cm, cm_idxc_map_coeff_key_size cm, cm_idxc_map_coeff_container_log_size cm)"
| "idx_cost cm (BoundedMerkleTree _) True True =
     (cm_idxpc_bmt_constant cm, cm_idxpc_bmt_coeff_key_size cm, cm_idxpc_bmt_coeff_container_log_size cm)"
| "idx_cost cm (BoundedMerkleTree _) True False =
     (cm_idxc_bmt_constant cm, cm_idxc_bmt_coeff_key_size cm, cm_idxc_bmt_coeff_container_log_size cm)"
| "idx_cost cm (Array _) True True = (cm_idxpc_array cm, 0, 0)"
| "idx_cost cm (Array _) True False = (cm_idxc_array cm, 0, 0)"
| "idx_cost cm (Map _) False True =
     (cm_idxp_map_constant cm, cm_idxp_map_coeff_key_size cm, cm_idxp_map_coeff_container_log_size cm)"
| "idx_cost cm (Map _) False False =
     (cm_idx_map_constant cm, cm_idx_map_coeff_key_size cm, cm_idx_map_coeff_container_log_size cm)"
| "idx_cost cm (BoundedMerkleTree _) False True =
     (cm_idxp_bmt_constant cm, cm_idxp_bmt_coeff_key_size cm, cm_idxp_bmt_coeff_container_log_size cm)"
| "idx_cost cm (BoundedMerkleTree _) False False =
     (cm_idx_bmt_constant cm, cm_idx_bmt_coeff_key_size cm, cm_idx_bmt_coeff_container_log_size cm)"
| "idx_cost cm (Array _) False True = (cm_idxp_array cm, 0, 0)"
| "idx_cost cm (Array _) False False = (cm_idx_array cm, 0, 0)"
| "idx_cost cm Null _ _ = (0, 0, 0)"
| "idx_cost cm (Cell _) _ _ = (0, 0, 0)"

text \<open>The price of one step of \<open>idx\<close> or \<open>ins\<close>: constant, per key size, per container log size.\<close>

definition step_cost ::
  "'f vm_env \<Rightarrow> cost_duration \<times> cost_duration \<times> cost_duration \<Rightarrow> 'f state_value \<Rightarrow> 'f state_value \<Rightarrow>
    cost_duration" where
  "step_cost E costs key container = (case costs of (constant, linear, log) \<Rightarrow>
     cd_add (cd_add constant (cd_mul linear (ve_sv_size E key))) (cd_mul log (sv_log_size container)))"

definition idx_step where
  "idx_step E cached push_path cur key s =
     (let cm = ve_cost E; container = vv_value (fst cur) in
      obind (incr_gas E (step_cost E (idx_cost cm container cached push_path) (vv_value key) container) s) (\<lambda>s.
      obind (if cached then Ok s else incr_gas_full E (read_container cm container) s) (\<lambda>s.
      let s = (if push_path then vm_push (key, None) (vm_push cur s) else s) in
      obind (as_cell (vv_value key)) (\<lambda>key_val.
      obind (vm_idx cur key_val (vm_cache s) cached) (\<lambda>(cur, cache).
      let s = s\<lparr>vm_cache := cache\<rparr> in
      obind (if cached then Ok s
             else incr_gas_full E (read_cell cm
               (case vv_value (fst cur) of Cell v \<Rightarrow> av_serialized_size v | _ \<Rightarrow> 1024) True) s) (\<lambda>s.
      Ok (cur, s)))))))"

definition exec_idx where
  "exec_idx E cached push_path path s =
     obind (refine_path path s) (\<lambda>(keys, s).
     obind (vm_pop s) (\<lambda>(cur, s).
     obind (try_fold (\<lambda>(cur, s) key. idx_step E cached push_path cur key s) (cur, s) keys) (\<lambda>(cur, s).
     Ok (vm_push cur s))))"

fun ins_cost :: "cost_model \<Rightarrow> 'f state_value \<Rightarrow> bool \<Rightarrow> cost_duration \<times> cost_duration \<times> cost_duration" where
  "ins_cost cm (Map _) False =
     (cm_ins_map_constant cm, cm_ins_map_coeff_key_size cm, cm_ins_map_coeff_container_log_size cm)"
| "ins_cost cm (BoundedMerkleTree _) False =
     (cm_ins_bmt_constant cm, cm_ins_bmt_coeff_key_size cm, cm_ins_bmt_coeff_container_log_size cm)"
| "ins_cost cm (Array _) False = (cm_ins_array cm, 0, 0)"
| "ins_cost cm (Map _) True =
     (cm_insc_map_constant cm, cm_insc_map_coeff_key_size cm, cm_insc_map_coeff_container_log_size cm)"
| "ins_cost cm (BoundedMerkleTree _) True =
     (cm_insc_bmt_constant cm, cm_insc_bmt_coeff_key_size cm, cm_insc_bmt_coeff_container_log_size cm)"
| "ins_cost cm (Array _) True = (cm_insc_array cm, 0, 0)"
| "ins_cost cm Null _ = (0, 0, 0)"
| "ins_cost cm (Cell _) _ = (0, 0, 0)"

fun ins_key :: "(nat list, 'f) mcrypto \<Rightarrow> aligned_value \<Rightarrow> 'f state_value \<Rightarrow> 'f state_value \<Rightarrow>
    ('f vm_error, 'f state_value) outcome" where
  "ins_key C key (Array arr) v =
     obind (decode (u8_of_value (av_value key))) (\<lambda>i.
       if i \<ge> length arr then Err TypeError else Ok (Array (arr[i := v])))"
| "ins_key C key (Map m) v = Ok (Map (fmupd key v m))"
| "ins_key C key (BoundedMerkleTree t) v =
     obind (decode (u64_of_value (av_value key))) (\<lambda>i.
       if (case shl_bound (mt_height t) of Some bound \<Rightarrow> i < bound | None \<Rightarrow> True)
       then obind (omap_err (\<lambda>_. TypeError) (as_cell v)) (\<lambda>c.
         obind (omap_err (\<lambda>_. TypeError) (hash_of_value (av_value c))) (\<lambda>h. bmt_update C t i h))
       else Err BoundsExceeded)"
| "ins_key C key _ v = Err TypeError"

definition is_array :: "'f state_value \<Rightarrow> bool" where
  "is_array v = (case v of Array _ \<Rightarrow> True | _ \<Rightarrow> False)"

definition ins_step where
  "ins_step E cached cur s =
     obind (vm_pop s) (\<lambda>((key, _), s).
     obind (vm_pop s) (\<lambda>((c, ck), s).
     let cm = ve_cost E; container = vv_value c in
     obind (incr_gas E (step_cost E (ins_cost cm container cached) (vv_value key) container) s) (\<lambda>s.
     obind (if cached then Ok s else incr_gas_full E (read_container cm container) s) (\<lambda>s.
     obind (as_cell (vv_value key)) (\<lambda>key_cell.
     obind (visit_cache (push_key ck key_cell) s) (\<lambda>(hit, s).
     if cached \<and> \<not> hit \<and> \<not> is_array container then Err CacheMiss
     else obind (ins_key (ve_crypto E) key_cell container (vv_value (fst cur))) (\<lambda>nxt.
       Ok ((vnew (strength_and (vv_strength (fst cur)) (vv_strength c)) nxt, ck), s))))))))"

primrec ins_loop where
  "ins_loop E cached 0 cur s = Ok (cur, s)"
| "ins_loop E cached (Suc n) cur s =
     obind (ins_step E cached cur s) (\<lambda>(cur, s). ins_loop E cached n cur s)"

definition exec_ins where
  "exec_ins E cached n s =
     obind (vm_pop s) (\<lambda>(cur, s).
     obind (ins_loop E cached n cur s) (\<lambda>(cur, s). Ok (vm_push cur s)))"

section \<open>The main loop\<close>

fun exec_op :: "'f vm_env \<Rightarrow> ('f, 'r, 'ev) result_mode \<Rightarrow> ('f, 'r) op \<Rightarrow> ('f, 'ev) vm \<Rightarrow>
    ('f vm_error, ('f, 'ev) vm) outcome" where
  "exec_op E mode (Noop n) s = exec_noop E n s"
| "exec_op E mode (Branch skip) s = exec_branch E skip s"
| "exec_op E mode (Jmp skip) s = exec_jmp E skip s"
| "exec_op E mode Ckpt s = exec_ckpt E s"
| "exec_op E mode Lt s = exec_lt E s"
| "exec_op E mode Eq s = exec_eq E s"
| "exec_op E mode Type s = exec_type E s"
| "exec_op E mode Size s = exec_size E s"
| "exec_op E mode New s = exec_new E s"
| "exec_op E mode And s = exec_and E s"
| "exec_op E mode Or s = exec_or E s"
| "exec_op E mode Neg s = exec_neg E s"
| "exec_op E mode Log s = exec_log E mode s"
| "exec_op E mode Root s = exec_root E s"
| "exec_op E mode Pop s = exec_pop E s"
| "exec_op E mode (Popeq _ result) s = exec_popeq E mode result s"
| "exec_op E mode (Addi immediate) s = exec_addi E immediate s"
| "exec_op E mode (Subi immediate) s = exec_subi E immediate s"
| "exec_op E mode (Push storage v) s = exec_push E storage v s"
| "exec_op E mode Add s = exec_add E s"
| "exec_op E mode Sub s = exec_sub E s"
| "exec_op E mode (Concat _ n) s = exec_concat E n s"
| "exec_op E mode Member s = exec_member E s"
| "exec_op E mode (Rem cached) s = exec_rem E cached s"
| "exec_op E mode (Dup n) s = exec_dup E n s"
| "exec_op E mode (Swap n) s = exec_swap E n s"
| "exec_op E mode (Idx cached push_path path) s = exec_idx E cached push_path path s"
| "exec_op E mode (Ins cached n) s = exec_ins E cached n s"

text \<open>How many operations to skip; \<open>branch\<close> pops its condition here.\<close>

fun op_skip :: "('f, 'r) op \<Rightarrow> ('f, 'ev) vm \<Rightarrow> ('f vm_error, nat \<times> ('f, 'ev) vm) outcome" where
  "op_skip (Branch skip) s =
     obind (pop_cell s) (\<lambda>(a, s). Ok (if av_value a = [[]] then 0 else skip, s))"
| "op_skip (Jmp skip) s = Ok (skip, s)"
| "op_skip _ s = Ok (0, s)"

definition step_op ::
  "'f vm_env \<Rightarrow> ('f, 'r, 'ev) result_mode \<Rightarrow> ('f, 'r) op \<Rightarrow> ('f, 'r) op list \<Rightarrow> ('f, 'ev) vm \<Rightarrow>
    ('f vm_error, nat \<times> ('f, 'ev) vm) outcome" where
  "step_op E mode op rest s =
     (if length (vm_stack s) < stack_req op then Err RanOffStack
      else obind (exec_op E mode op s) (\<lambda>s.
        obind (op_skip op s) (\<lambda>(skip, s).
        if 1 + skip > length (op # rest) then Err RanPastProgramEnd
        else if length (vm_stack s) > max_stack_height then Err StackOverflow
        else Ok (skip, s))))"

text \<open>\<open>limit\<close> is the number of steps left (\<open>None\<close>: no limit). Every iteration drops at least the
  operation it executes.\<close>

function run_program_internal ::
  "'f vm_env \<Rightarrow> ('f, 'r, 'ev) result_mode \<Rightarrow> nat option \<Rightarrow> ('f, 'r) op list \<Rightarrow> ('f, 'ev) vm \<Rightarrow>
    ('f vm_error, ('f, 'ev) vm) outcome" where
  "run_program_internal E mode limit [] s = Ok s"
| "run_program_internal E mode limit (op # rest) s =
     (if limit = Some 0 then Ok s
      else obind (step_op E mode op rest s) (\<lambda>(skip, s).
        run_program_internal E mode (map_option (\<lambda>n. n - 1) limit) (drop skip rest) s))"
  by pat_completeness auto
termination
  by (relation "measure (\<lambda>(E, mode, limit, program, s). length program)") auto

record ('f, 'ev) vm_results =
  vr_stack :: "'f vm_value list"
  vr_events :: "'ev list"
  vr_gas_cost :: running_cost

text \<open>\<open>initial\<close> and the resulting stack have their top at the end, as in the code.\<close>

definition initial_vm :: "'f vm_value list \<Rightarrow> ('f, 'ev) vm" where
  "initial_vm initial = \<lparr>
     vm_stack = rev (map (\<lambda>(i, v). (v, Some (i, []))) (enumerate 0 initial)),
     vm_gas = rc_zero, vm_events = [],
     vm_cache = map (\<lambda>v. if vv_strength v = Weak then InnerCache None else InnerCache (Some fmempty)) initial\<rparr>"

definition run_program_step_limited ::
  "'f vm_env \<Rightarrow> ('f, 'r, 'ev) result_mode \<Rightarrow> 'f vm_value list \<Rightarrow> ('f, 'r) op list \<Rightarrow> nat option \<Rightarrow>
    ('f vm_error, ('f, 'ev) vm_results) outcome" where
  "run_program_step_limited E mode initial program step_limit =
     obind (run_program_internal E mode step_limit program (initial_vm initial)) (\<lambda>s.
       Ok \<lparr>vr_stack = rev (map fst (vm_stack s)), vr_events = vm_events s, vr_gas_cost = vm_gas s\<rparr>)"

definition run_program ::
  "'f vm_env \<Rightarrow> ('f, 'r, 'ev) result_mode \<Rightarrow> 'f vm_value list \<Rightarrow> ('f, 'r) op list \<Rightarrow>
    ('f vm_error, ('f, 'ev) vm_results) outcome" where
  "run_program E mode initial program = run_program_step_limited E mode initial program None"

end
