(* ===== verification/Onchain_Safety.thy ===== *)
theory Onchain_Safety
  imports Onchain_VM Merkle_Refinement
begin

text \<open>
  The invariant of the machine of \<open>Onchain_VM\<close>, and that every operation keeps it without panicking.

  \<open>sv_ok\<close> is \<open>StateValue::invariant\<close> at every level of a value, with the bound on the size of cells
  relaxed by two bytes, which is what \<open>concat\<close> preserves. \<open>vm_inv\<close> adds that the cache keys on the
  stack refer to the initial stack and that the gas is within the limit.
\<close>

section \<open>The invariant\<close>

definition cell_ok :: "aligned_value \<Rightarrow> bool" where
  "cell_ok c \<longleftrightarrow> av_ok c \<and> av_serialized_size c \<le> cell_bound + 2"

definition tree_ok :: "(nat list, 'f) mcrypto \<Rightarrow> (nat list, 'f, unit) mtree \<Rightarrow> bool" where
  "tree_ok C t \<longleftrightarrow> mt_wf t \<and> 0 < mt_height t \<and> mt_height t \<le> 32 \<and> mt_root C t \<noteq> None \<and>
     (\<forall>i < 2 ^ mt_height t. case mt_cell t i of Filled h _ \<Rightarrow> length h = 32 | _ \<Rightarrow> True)"

inductive sv_ok :: "(nat list, 'f) mcrypto \<Rightarrow> 'f state_value \<Rightarrow> bool" for C where
  "sv_ok C Null"
| "cell_ok c \<Longrightarrow> sv_ok C (Cell c)"
| "(\<And>v. v \<in> fmran' m \<Longrightarrow> sv_ok C v) \<Longrightarrow> sv_ok C (Map m)"
| "length arr \<le> 16 \<Longrightarrow> (\<And>v. v \<in> set arr \<Longrightarrow> sv_ok C v) \<Longrightarrow> sv_ok C (Array arr)"
| "tree_ok C t \<Longrightarrow> sv_ok C (BoundedMerkleTree t)"

inductive_simps sv_ok_simps [simp]:
  "sv_ok C Null" "sv_ok C (Cell c)" "sv_ok C (Map m)" "sv_ok C (Array arr)"
  "sv_ok C (BoundedMerkleTree t)"

fun key_ok :: "nat \<Rightarrow> cache_key \<Rightarrow> bool" where
  "key_ok n None = True"
| "key_ok n (Some (i, _)) = (i < n)"

definition entry_ok :: "'f vm_env \<Rightarrow> nat \<Rightarrow> 'f vm_value \<times> cache_key \<Rightarrow> bool" where
  "entry_ok E n e \<longleftrightarrow> sv_ok (ve_crypto E) (vv_value (fst e)) \<and> key_ok n (snd e)"

definition within_limit :: "'f vm_env \<Rightarrow> running_cost \<Rightarrow> bool" where
  "within_limit E gas \<longleftrightarrow> (\<forall>limit. ve_limit E = Some limit \<longrightarrow>
     rc_compute_time gas \<le> rc_compute_time limit \<and> rc_read_time gas \<le> rc_read_time limit)"

definition vm_inv :: "'f vm_env \<Rightarrow> nat \<Rightarrow> running_cost \<Rightarrow> ('f, 'ev) vm \<Rightarrow> bool" where
  "vm_inv E n g s \<longleftrightarrow> list_all (entry_ok E n) (vm_stack s) \<and> length (vm_cache s) = n \<and>
     rc_valid (vm_gas s) \<and> rc_leq g (vm_gas s) \<and> within_limit E (vm_gas s)"

definition env_ok :: "'f vm_env \<Rightarrow> bool" where
  "env_ok E \<longleftrightarrow> (\<forall>r. cell_ok (ve_root_value E r))"

lemma vnew_simps [simp]: "vv_value (vnew str v) = v" "vv_strength (vnew str v) = str"
  by (simp_all add: vnew_def)

section \<open>Cells\<close>

lemma aligned_of_cell_ok:
  assumes "length v \<le> n" and "is_in_normal_form v" and "n \<le> 32"
  shows "cell_ok (aligned_of n v)"
proof -
  have "va_serialized_size v \<le> 1000 + 32" using assms
    by (simp add: va_serialized_size_def va_size_normal_def flagged_int_size_def)
  moreover have "segment_serialized_size (Atom (Bytes n)) \<le> 1000" by (simp add: flagged_int_size_def)
  ultimately have "av_serialized_size (aligned_of n v) \<le> cell_bound"
    by (simp add: av_serialized_size_def aligned_of_def alignment_singleton_def value_serialized_size_def
        alignment_serialized_size_def alignment_size_with_def cell_bound_def del: segment_serialized_size.simps)
  then show ?thesis using aligned_of_ok [OF assms(1,2)] by (simp add: cell_ok_def)
qed

lemma u64_cell_ok [simp]: "n \<le> u64_max \<Longrightarrow> cell_ok (av_of_u64 n)"
  using atom_of_u128_length [of n 8]
  by (simp add: av_of_u64_def aligned_of_cell_ok atom_of_u128_def u64_max_def)

lemma u8_cell_ok [simp]: "n < 256 \<Longrightarrow> cell_ok (av_of_u8 n)"
  using atom_of_u128_length [of n 1]
  by (simp add: av_of_u8_def aligned_of_cell_ok atom_of_u128_def)

lemma bool_cell_ok [simp]: "cell_ok (av_of_bool b)"
  by (simp add: av_of_bool_def atom_of_bool_def aligned_of_cell_ok order_trans [OF va_normalize_length])

lemma hash_cell_ok [simp]: "length h = 32 \<Longrightarrow> cell_ok (av_of_hash h)"
  using va_normalize_length [of h]
  by (simp add: av_of_hash_def atom_of_hash_def persistent_hash_bytes_def aligned_of_cell_ok)

lemma unit_cell_ok [simp]: "cell_ok av_unit"
  by (simp add: cell_ok_def av_unit_def av_ok_def alignment_fits_Nil av_serialized_size_def
      value_serialized_size_def alignment_serialized_size_def alignment_size_with_def
      flagged_int_size_def cell_bound_def)

text \<open>A sequence is stored without its length when it has one element, so joining two sequences
  can take one byte more than the two take apart.\<close>

definition seq_size :: "('a \<Rightarrow> nat) \<Rightarrow> 'a list \<Rightarrow> nat" where
  "seq_size f xs = (if length xs = 1 then f (xs ! 0) else flagged_int_size (length xs mod 2 ^ 32) + sum_list (map f xs))"

lemma seq_size_sum: "seq_size f xs = (if length xs = 1 then 0 else flagged_int_size (length xs mod 2 ^ 32)) + sum_list (map f xs)"
  by (cases xs) (auto simp: seq_size_def)

lemma flagged_int_size_join:
  "m + n \<le> 524287 \<Longrightarrow> flagged_int_size (m + n) \<le>
     (if m = 1 then 0 else flagged_int_size m) + (if n = 1 then 0 else flagged_int_size n) + 1"
  by (auto simp: flagged_int_size_def)

lemma seq_size_append:
  assumes "\<And>x. 1 \<le> f x" and "seq_size f xs + seq_size f ys \<le> 524287"
  shows "seq_size f (xs @ ys) \<le> seq_size f xs + seq_size f ys + 1"
proof -
  have "length zs \<le> sum_list (map f zs)" for zs
    using sum_list_mono [of zs "\<lambda>_. 1" f] assms(1) by (simp add: sum_list_triv)
  from this [of xs] this [of ys] have len: "length xs + length ys \<le> 524287"
    using assms(2) unfolding seq_size_sum by linarith
  then have "length xs mod 2 ^ 32 = length xs" "length ys mod 2 ^ 32 = length ys" "length (xs @ ys) mod 2 ^ 32 = length xs + length ys"
    by simp_all
  then show ?thesis using flagged_int_size_join [OF len] unfolding seq_size_sum by (auto simp: add.commute)
qed

lemma va_size_pos: "1 \<le> va_serialized_size v"
  by (simp add: va_serialized_size_def va_size_normal_def flagged_int_size_def)

lemma segment_size_pos: "1 \<le> segment_serialized_size s"
proof (cases s)
  case (Atom a) then show ?thesis by (cases a) (simp_all add: flagged_int_size_def)
next
  case (Option bs) then show ?thesis by (simp add: flagged_int_size_def)
qed

lemma av_size_seq: "av_serialized_size c =
    seq_size va_serialized_size (av_value c) + seq_size segment_serialized_size (av_alignment c)"
  by (simp add: av_serialized_size_def value_serialized_size_def alignment_serialized_size_def
      alignment_size_with_def seq_size_def)

lemma vm_concat_cell_ok:
  assumes "vm_concat a b n = Ok c" and "n \<le> cell_bound"
  shows "cell_ok c"
proof -
  from assms have sz: "av_serialized_size a + av_serialized_size b \<le> cell_bound"
    and c: "av_new (av_value a @ av_value b) (av_alignment a @ av_alignment b) = Some c"
    by (auto simp: vm_concat_def Let_def outcome_simps value_concat_def alignment_concat_def split: if_splits)
  from c have eq: "av_value c = av_value a @ av_value b" "av_alignment c = av_alignment a @ av_alignment b"
    and ok: "av_ok c" by (auto simp: av_new_def av_ok_def split: if_splits)
  have "av_serialized_size c \<le> av_serialized_size a + av_serialized_size b + 2"
    using seq_size_append [of va_serialized_size "av_value a" "av_value b", OF va_size_pos]
      seq_size_append [of segment_serialized_size "av_alignment a" "av_alignment b", OF segment_size_pos] sz
    unfolding av_size_seq eq cell_bound_def by simp
  then show ?thesis using ok sz by (simp add: cell_ok_def)
qed

section \<open>Trees\<close>

lemma tree_ok_blank: "0 < h \<Longrightarrow> h \<le> 32 \<Longrightarrow> tree_ok C (mt_blank h)"
  by (simp add: tree_ok_def mt_blank_def)

lemma bmt_update_ok:
  assumes "tree_ok C t" and "length h = 32"
  shows "safe (bmt_update C t i h) (sv_ok C)"
proof -
  have "tree_ok C (mt_rehash C t')" if u: "mt_try_update_hash t i h () = Ok t'" for t'
    using assms mt_update_height [OF u] mt_update_wf [OF u] mt_update_cell [OF u]
    by (auto simp: tree_ok_def mt_rehash_wf simp del: mt_rehash.simps split: cell.splits if_splits)
  then show ?thesis
    by (auto simp: bmt_update_def safe_iff outcome_simps mt_update_no_panic)
qed

section \<open>The primitives of the machine\<close>

lemma safe_decode [safe_simps]: "safe (decode m) P \<longleftrightarrow> safe m P"
  by (simp add: decode_def safe_omap_err)

lemma safe_as_cell [safe_simps]: "safe (as_cell v) P \<longleftrightarrow> (\<forall>c. v = Cell c \<longrightarrow> P c)"
  by (cases v) (simp_all add: safe_simps)

lemma uint_of_atom_safe: "safe (uint_of_atom mx ty v) (\<lambda>n. n \<le> mx)"
  by (auto simp: uint_of_atom_def u128_of_atom_def safe_simps)

lemma u8_safe: "safe (u8_of_value v) (\<lambda>n. n < 256)"
  using uint_of_atom_safe [of u8_max "''u8''" "v ! 0"]
  by (auto simp: u8_of_value_def prim_of_value_def safe_simps u8_max_def elim: safe_mono)

lemma u64_safe: "safe (u64_of_value v) (\<lambda>n. n \<le> u64_max)"
  using uint_of_atom_safe by (simp add: u64_of_value_def prim_of_value_def safe_simps)

lemma bool_safe: "safe (bool_of_value v) (\<lambda>_. True)"
  by (auto simp: bool_of_value_def prim_of_value_def bool_of_atom_def safe_simps
      intro!: safe_mono [OF uint_of_atom_safe])

lemma hash_safe: "safe (hash_of_value v) (\<lambda>h. length h = 32)"
  by (auto simp: hash_of_value_def prim_of_value_def hash_of_atom_def persistent_hash_bytes_def safe_simps)

lemma vm_add_safe: "safe b (\<lambda>_. True) \<Longrightarrow> safe (vm_add a b) cell_ok"
  by (auto simp: vm_add_def safe_simps intro!: safe_mono [OF u64_safe] elim: safe_mono)

lemma vm_sub_safe: "safe b (\<lambda>_. True) \<Longrightarrow> safe (vm_sub a b) cell_ok"
  by (auto simp: vm_sub_def safe_simps elim!: safe_mono intro!: safe_mono [OF u64_safe])

lemma vm_lt_safe: "safe (vm_lt a b) cell_ok"
  by (auto simp: vm_lt_def safe_simps intro!: safe_mono [OF u64_safe])

lemma vm_eq_safe: "safe (vm_eq a b) cell_ok"
  by (auto simp: vm_eq_def safe_simps split: bool.splits)

lemma vm_concat_safe: "n \<le> cell_bound \<Longrightarrow> safe (vm_concat a b n) cell_ok"
  using vm_concat_cell_ok [of a b n]
  by (auto simp: safe_iff) (auto simp: vm_concat_def Let_def outcome_simps split: if_splits)

lemma type_tag_safe: "sv_ok C v \<Longrightarrow> safe (type_tag cm v) (\<lambda>(ty, _). ty < 256)"
  by (cases v) (auto simp: safe_simps)

lemma cache_visit_safe:
  "key_ok (length cache) k \<Longrightarrow> safe (cache_visit cache k :: ('f vm_error, _) outcome) (\<lambda>(c, _). length c = length cache)"
  by (cases k) (auto simp: safe_simps Let_def split: prod.splits)

lemma push_key_ok [simp]: "key_ok n (push_key k x) = key_ok n k"
  by (cases k) (auto simp: push_key_def)

lemma tree_ok_index:
  "tree_ok C t \<Longrightarrow> mt_index t i = Some (h, u) \<Longrightarrow> i < 2 ^ mt_height t \<Longrightarrow> length h = 32"
  by (auto simp: tree_ok_def mt_index_cell split: cell.splits elim!: cell_value.elims)

lemma vm_idx_safe:
  assumes "entry_ok E (length cache) v"
  shows "safe (vm_idx v key cache cached) (\<lambda>(v', c). entry_ok E (length cache) v' \<and> length c = length cache)"
proof -
  have k: "key_ok (length cache) (push_key (snd v) key)" and ok: "sv_ok (ve_crypto E) (vv_value (fst v))"
    using assms by (simp_all add: entry_ok_def)
  have bound: "shl_bound (mt_height t) = Some (2 ^ mt_height t)" if "vv_value (fst v) = BoundedMerkleTree t" for t
    using ok that by (simp add: tree_ok_def shl_bound_def)
  show ?thesis
    unfolding vm_idx_def Let_def safe_obind
  proof (rule safe_mono [OF cache_visit_safe [OF k]], clarify, goal_cases)
    case (1 c hit)
    show ?case
    proof (cases "vv_value (fst v)")
      case (Map m)
      then show ?thesis using 1 k ok
        by (auto simp: safe_simps entry_ok_def vnew_def split: option.splits intro: fmran'I)
    next
      case (Array arr)
      then show ?thesis using 1 k ok
        by (auto simp: safe_simps entry_ok_def vnew_def intro!: safe_mono [OF u8_safe])
    next
      case (BoundedMerkleTree t)
      then show ?thesis using 1 k ok bound
        by (auto simp: safe_simps entry_ok_def vnew_def split: option.splits
            intro!: safe_mono [OF u64_safe] dest: tree_ok_index)
    qed (simp_all add: safe_simps)
  qed
qed

text \<open>Rules for the calls the operations are made of: the continuation \<open>P\<close> may rely on the invariant
  and on what happened to the stack.\<close>

lemma incr_gas_full_safe:
  assumes "vm_inv E n g s" and "\<And>s'. vm_inv E n g s' \<Longrightarrow> vm_stack s' = vm_stack s \<Longrightarrow> P s'"
  shows "safe (incr_gas_full E by s) P"
proof -
  have "rc_valid (rc_add (vm_gas s) by)" by (rule rc.valid_plus)
  moreover have "rc_leq g (rc_add (vm_gas s) by)"
    using assms(1) rc.leq_plus rc.leq_trans unfolding vm_inv_def by blast
  ultimately show ?thesis
    using assms by (auto simp: incr_gas_full_def Let_def safe_simps vm_inv_def within_limit_def split: option.splits)
qed

lemma incr_gas_safe:
  assumes "vm_inv E n g s" and "\<And>s'. vm_inv E n g s' \<Longrightarrow> vm_stack s' = vm_stack s \<Longrightarrow> P s'"
  shows "safe (incr_gas E by s) P"
  unfolding incr_gas_def using assms by (rule incr_gas_full_safe)

lemma vm_pop_safe:
  assumes "vm_inv E n g s" and "vm_stack s \<noteq> []"
    and "\<And>v s'. vm_inv E n g s' \<Longrightarrow> entry_ok E n v \<Longrightarrow> vm_stack s = v # vm_stack s' \<Longrightarrow> P (v, s')"
  shows "safe (vm_pop s) P"
  using assms by (cases "vm_stack s") (auto simp: vm_pop_def safe_simps vm_inv_def)

lemma pop_cell_safe:
  assumes "vm_inv E n g s" and "vm_stack s \<noteq> []"
    and "\<And>c s'. vm_inv E n g s' \<Longrightarrow> cell_ok c \<Longrightarrow> length (vm_stack s) = Suc (length (vm_stack s')) \<Longrightarrow> P (c, s')"
  shows "safe (pop_cell s) P"
  using assms by (auto simp: pop_cell_def safe_simps entry_ok_def intro!: vm_pop_safe)

lemma visit_cache_safe:
  assumes "vm_inv E n g s" and "key_ok n k"
    and "\<And>hit s'. vm_inv E n g s' \<Longrightarrow> vm_stack s' = vm_stack s \<Longrightarrow> P (hit, s')"
  shows "safe (visit_cache k s) P"
  using assms cache_visit_safe [of "vm_cache s" k]
  by (auto simp: visit_cache_def safe_simps vm_inv_def elim!: safe_mono)

lemma vm_push_inv: "vm_inv E n g s \<Longrightarrow> entry_ok E n v \<Longrightarrow> vm_inv E n g (vm_push v s)"
  by (simp add: vm_inv_def vm_push_def)

lemma push_cell_inv: "vm_inv E n g s \<Longrightarrow> cell_ok c \<Longrightarrow> vm_inv E n g (push_cell c s)"
  by (auto simp: push_cell_def entry_ok_def vnew_def intro: vm_push_inv)

lemma push_event_inv: "vm_inv E n g s \<Longrightarrow> vm_inv E n g (push_event ev s)"
  by (auto simp: push_event_def vm_inv_def split: option.splits)

lemma entry_ok_vnew [simp]: "entry_ok E n (vnew str v, k) \<longleftrightarrow> sv_ok (ve_crypto E) v \<and> key_ok n k"
  by (simp add: entry_ok_def vnew_def)

lemmas safe_rules = vm_push_inv push_cell_inv push_event_inv incr_gas_safe incr_gas_full_safe vm_pop_safe pop_cell_safe visit_cache_safe
  safe_mono [OF vm_lt_safe] safe_mono [OF vm_eq_safe] safe_mono [OF vm_add_safe] safe_mono [OF vm_sub_safe]
  safe_mono [OF vm_concat_safe] safe_mono [OF type_tag_safe] safe_mono [OF bool_safe]

section \<open>The operations keep the invariant\<close>

lemma exec_gas_only_safe:
  assumes "vm_inv E n g s"
  shows "safe (exec_noop E k s) (vm_inv E n g)" "safe (exec_branch E k s) (\<lambda>s'. vm_inv E n g s' \<and> vm_stack s' = vm_stack s)"
    "safe (exec_jmp E k s) (vm_inv E n g)" "safe (exec_ckpt E s) (vm_inv E n g)"
    "sv_ok (ve_crypto E) v \<Longrightarrow> safe (exec_push E storage v s) (vm_inv E n g)"
  using assms unfolding exec_noop_def exec_branch_def exec_jmp_def exec_ckpt_def exec_push_def
  by (auto simp: safe_simps intro!: safe_rules)

lemma exec_binary_safe:
  assumes "vm_inv E n g s" and "2 \<le> length (vm_stack s)"
  shows "safe (exec_lt E s) (vm_inv E n g)" "safe (exec_eq E s) (vm_inv E n g)"
    "safe (exec_and E s) (vm_inv E n g)" "safe (exec_or E s) (vm_inv E n g)"
    "safe (exec_concat E k s) (vm_inv E n g)"
  using assms unfolding exec_lt_def exec_eq_def exec_and_def exec_or_def exec_concat_def Let_def
  by (auto simp: safe_simps intro!: safe_rules)

text \<open>\<open>add\<close> and \<open>sub\<close> decode their second operand.\<close>

lemma exec_arith_safe:
  assumes "vm_inv E n g s" and "2 \<le> length (vm_stack s)"
  shows "safe (exec_add E s) (vm_inv E n g)" "safe (exec_sub E s) (vm_inv E n g)"
  using assms unfolding exec_add_def exec_sub_def
  by (auto simp: safe_simps intro!: safe_rules safe_mono [OF u64_safe])

lemma exec_immediate_safe:
  assumes "vm_inv E n g s" and "vm_stack s \<noteq> []"
  shows "safe (exec_addi E k s) (vm_inv E n g)" "safe (exec_subi E k s) (vm_inv E n g)"
  using assms unfolding exec_addi_def exec_subi_def by (auto simp: safe_simps intro!: safe_rules)

lemma exec_unary_safe:
  assumes "vm_inv E n g s" and "vm_stack s \<noteq> []"
  shows "safe (exec_neg E s) (vm_inv E n g)" "safe (exec_pop E s) (vm_inv E n g)"
    "safe (exec_log E mode s) (vm_inv E n g)"
  using assms unfolding exec_neg_def exec_pop_def exec_log_def Let_def
  by (auto simp: safe_simps intro!: safe_rules)

lemma exec_type_safe:
  assumes "vm_inv E n g s" and "vm_stack s \<noteq> []"
  shows "safe (exec_type E s) (vm_inv E n g)"
  using assms unfolding exec_type_def
  by (auto simp: safe_simps entry_ok_def split: prod.splits intro!: safe_rules)

lemma exec_size_safe:
  assumes "vm_inv E n g s" and "vm_stack s \<noteq> []"
  shows "safe (exec_size E s) (vm_inv E n g)"
  using assms unfolding exec_size_def
  by (auto simp: safe_simps entry_ok_def tree_ok_def u64_max_def split: state_value.splits intro!: safe_rules)

lemma fmran'_empty [simp]: "fmran' fmempty = {}"
  by (auto simp: fmran'_alt_def)

lemma tag_size [simp]: "x < 256 \<Longrightarrow> x div 8 \<le> (31::nat)"
  by presburger

lemma exec_new_safe:
  assumes "vm_inv E n g s" and "vm_stack s \<noteq> []"
  shows "safe (exec_new E s) (vm_inv E n g)"
  using assms unfolding exec_new_def Let_def
  by (auto simp: safe_simps intro!: safe_rules safe_mono [OF u8_safe] tree_ok_blank)

lemma exec_root_safe:
  assumes "vm_inv E n g s" and "vm_stack s \<noteq> []" and "env_ok E"
  shows "safe (exec_root E s) (vm_inv E n g)"
  using assms unfolding exec_root_def
  by (auto simp: safe_simps env_ok_def split: state_value.splits intro!: safe_rules)

lemma exec_popeq_safe:
  assumes "vm_inv E n g s" and "vm_stack s \<noteq> []" and "\<And>v. process_read mode r v \<noteq> Panic"
  shows "safe (exec_popeq E mode r s) (vm_inv E n g)"
  using assms unfolding exec_popeq_def
  by (auto simp: safe_simps safe_iff [of "process_read mode r _"] intro!: safe_rules)

lemma exec_member_safe:
  assumes "vm_inv E n g s" and "2 \<le> length (vm_stack s)"
  shows "safe (exec_member E s) (vm_inv E n g)"
  using assms unfolding exec_member_def Let_def
  by (auto simp: safe_simps split: state_value.splits intro!: safe_rules)

lemma fmran'_fmdrop: "v \<in> fmran' (fmdrop k m) \<Longrightarrow> v \<in> fmran' m"
  by (auto elim!: fmran'E split: if_splits intro: fmran'I)

lemma fmran'_fmupd: "v \<in> fmran' (fmupd k x m) \<Longrightarrow> v = x \<or> v \<in> fmran' m"
  by (auto elim!: fmran'E split: if_splits intro: fmran'I)

lemma rem_key_safe: "sv_ok C v \<Longrightarrow> safe (rem_key C key v) (sv_ok C)"
  by (cases v) (auto simp: safe_simps intro!: bmt_update_ok safe_mono [OF u64_safe] dest: fmran'_fmdrop)

lemma exec_rem_safe:
  assumes "vm_inv E n g s" and "2 \<le> length (vm_stack s)"
  shows "safe (exec_rem E cached s) (vm_inv E n g)"
  using assms unfolding exec_rem_def Let_def
  by (auto simp: safe_simps entry_ok_def intro!: safe_rules safe_mono [OF rem_key_safe])

lemma exec_dup_safe:
  assumes "vm_inv E n g s" and "k < length (vm_stack s)"
  shows "safe (exec_dup E k s) (vm_inv E n g)"
  using assms unfolding exec_dup_def
  by (auto simp: safe_simps intro!: safe_rules) (auto simp: vm_inv_def list_all_length)

lemma exec_swap_safe:
  assumes "vm_inv E n g s" and "k + 1 < length (vm_stack s)"
  shows "safe (exec_swap E k s) (vm_inv E n g)"
proof -
  let ?st = "vm_stack s"
  have "set (?st[0 := ?st ! (k + 1), k + 1 := ?st ! 0]) = set ?st"
    using assms(2) by (intro set_swap) auto
  then have "vm_inv E n g (s'\<lparr>vm_stack := ?st[0 := ?st ! (k + 1), k + 1 := ?st ! 0]\<rparr>)"
    if "vm_inv E n g s'" "vm_stack s' = ?st" for s' :: "('a, 'b) vm"
    using that by (simp add: vm_inv_def list_all_iff)
  then show ?thesis
    using assms unfolding exec_swap_def Let_def safe_obind
    by (intro incr_gas_safe) (auto simp: safe_simps)
qed

lemma refine_path_safe:
  assumes "vm_inv E n g s" and "length (filter (\<lambda>k. k = KeyStack) path) < length (vm_stack s)"
    and "\<And>v. KeyValue v \<in> set path \<Longrightarrow> cell_ok v"
  shows "safe (refine_path path s) (\<lambda>(ks, s'). vm_inv E n g s' \<and> vm_stack s' \<noteq> [] \<and>
    (\<forall>k \<in> set ks. sv_ok (ve_crypto E) (vv_value k)))"
  using assms
proof (induction path arbitrary: s)
  case (Cons k path)
  note step = safe_mono [OF Cons.IH]
  show ?case
  proof (cases k)
    case (KeyValue v)
    then show ?thesis using Cons.prems by (auto simp: safe_simps intro!: step)
  next
    case KeyStack
    then have "vm_stack s \<noteq> []" using Cons.prems by auto
    then show ?thesis using Cons.prems KeyStack
      by (auto simp: safe_simps entry_ok_def intro!: vm_pop_safe step)
  qed
qed (auto simp: safe_simps)

lemma vm_idx_rule:
  assumes "vm_inv E n g s" and "entry_ok E n cur"
    and "\<And>v c. entry_ok E n v \<Longrightarrow> vm_inv E n g (s\<lparr>vm_cache := c\<rparr>) \<Longrightarrow> P (v, c)"
  shows "safe (vm_idx cur k (vm_cache s) cached) P"
  using assms vm_idx_safe [of E "vm_cache s" cur k cached] by (auto simp: vm_inv_def elim!: safe_mono)

lemma idx_step_safe:
  assumes "vm_inv E n g s" and "entry_ok E n cur" and "sv_ok (ve_crypto E) (vv_value key)"
  shows "safe (idx_step E cached push_path cur key s) (\<lambda>(cur', s'). vm_inv E n g s' \<and> entry_ok E n cur')"
proof -
  have pushed: "vm_inv E n g (vm_push (key, None) (vm_push cur s'))" if "vm_inv E n g s'" for s' :: "('a, 'b) vm"
    using that assms by (auto simp: entry_ok_def intro!: vm_push_inv)
  show ?thesis
    unfolding idx_step_def Let_def
    by (cases push_path; cases cached)
      (auto simp: safe_simps intro!: assms pushed incr_gas_safe incr_gas_full_safe vm_idx_rule)
qed

lemma exec_idx_safe:
  assumes "vm_inv E n g s" and "length (filter (\<lambda>k. k = KeyStack) path) < length (vm_stack s)"
    and "\<And>v. KeyValue v \<in> set path \<Longrightarrow> cell_ok v"
  shows "safe (exec_idx E cached push_path path s) (vm_inv E n g)"
proof -
  have loop: "safe (try_fold (\<lambda>(cur, s) key. idx_step E cached push_path cur key s) (cur, s') keys) P"
    if "vm_inv E n g s'" "entry_ok E n cur" "\<forall>k \<in> set keys. sv_ok (ve_crypto E) (vv_value k)"
      and "\<And>cur s'. vm_inv E n g s' \<Longrightarrow> entry_ok E n cur \<Longrightarrow> P (cur, s')" for cur keys P and s' :: "('a, 'b) vm"
    by (rule safe_mono [OF safe_try_fold [where I = "\<lambda>(cur, s'). vm_inv E n g s' \<and> entry_ok E n cur"]])
      (use that in \<open>auto intro!: idx_step_safe\<close>)
  show ?thesis unfolding exec_idx_def safe_obind
    by (rule safe_mono [OF refine_path_safe [OF assms]]) (auto simp: safe_simps intro!: safe_rules loop)
qed

lemma ins_key_safe:
  assumes "sv_ok C v" and "sv_ok C container"
  shows "safe (ins_key C key container v) (sv_ok C)"
proof (cases container)
  case (Array arr)
  then show ?thesis using assms
    by (auto simp: safe_simps dest!: set_update_subset_insert [THEN subsetD] intro!: safe_mono [OF u8_safe])
next
  case (BoundedMerkleTree t)
  then show ?thesis using assms
    by (auto simp: safe_simps intro!: bmt_update_ok safe_mono [OF u64_safe] safe_mono [OF hash_safe])
qed (use assms in \<open>auto simp: safe_simps dest: fmran'_fmupd\<close>)

lemma ins_step_safe:
  assumes "vm_inv E n g s" and "2 \<le> length (vm_stack s)" and "entry_ok E n cur"
  shows "safe (ins_step E cached cur s) (\<lambda>(cur', s'). vm_inv E n g s' \<and> entry_ok E n cur' \<and>
    length (vm_stack s) = length (vm_stack s') + 2)"
  using assms unfolding ins_step_def Let_def
  by (auto simp: safe_simps entry_ok_def intro!: safe_rules safe_mono [OF ins_key_safe])

lemma ins_loop_safe:
  assumes "vm_inv E n g s" and "2 * k \<le> length (vm_stack s)" and "entry_ok E n cur"
  shows "safe (ins_loop E cached k cur s) (\<lambda>(cur', s'). vm_inv E n g s' \<and> entry_ok E n cur')"
  using assms
proof (induction k arbitrary: cur s)
  case (Suc k)
  have "safe (ins_step E cached cur s) (\<lambda>(cur', s'). vm_inv E n g s' \<and> entry_ok E n cur' \<and>
      length (vm_stack s) = length (vm_stack s') + 2)"
    using Suc.prems by (intro ins_step_safe) auto
  then show ?case unfolding ins_loop.simps safe_obind
    by (rule safe_mono) (use Suc in \<open>auto\<close>)
qed (simp add: safe_simps)

lemma exec_ins_safe:
  assumes "vm_inv E n g s" and "2 * k < length (vm_stack s)"
  shows "safe (exec_ins E cached k s) (vm_inv E n g)"
  using assms unfolding exec_ins_def
  by (auto simp: safe_simps intro!: safe_rules safe_mono [OF ins_loop_safe])

section \<open>Programs\<close>

fun op_ok :: "(nat list, 'f) mcrypto \<Rightarrow> ('f, 'r) op \<Rightarrow> bool" where
  "op_ok C (Push _ v) = sv_ok C v"
| "op_ok C (Idx _ _ path) = (\<forall>v. KeyValue v \<in> set path \<longrightarrow> cell_ok v)"
| "op_ok C _ = True"

definition mode_ok :: "('f, 'r, 'ev) result_mode \<Rightarrow> bool" where
  "mode_ok mode \<longleftrightarrow> (\<forall>r v. process_read mode r v \<noteq> Panic)"

lemma mode_ok_verify: "mode_ok result_mode_verify"
  and mode_ok_gather: "mode_ok result_mode_gather"
  by (simp_all add: mode_ok_def result_mode_verify_def result_mode_gather_def)

lemma exec_op_safe:
  assumes "vm_inv E n g s" and "stack_req op \<le> length (vm_stack s)"
    and "env_ok E" and "mode_ok mode" and "op_ok (ve_crypto E) op"
  shows "safe (exec_op E mode op s) (\<lambda>s'. vm_inv E n g s' \<and> (\<forall>k. op = Branch k \<longrightarrow> vm_stack s' = vm_stack s))"
proof -
  have ne: "vm_stack s \<noteq> []" if "1 \<le> stack_req op" using assms(2) that by auto
  have "safe (exec_op E mode op s) (vm_inv E n g)" if "\<And>k. op \<noteq> Branch k"
    using assms ne that
    by (cases op)
      (auto simp: mode_ok_def exec_gas_only_safe exec_binary_safe exec_arith_safe exec_immediate_safe
        exec_unary_safe exec_type_safe exec_size_safe exec_new_safe exec_root_safe exec_popeq_safe
        exec_member_safe exec_rem_safe exec_dup_safe exec_swap_safe exec_idx_safe exec_ins_safe)
  then show ?thesis
    using exec_gas_only_safe(2) [OF assms(1)] by (cases op) (auto simp: exec_op.simps elim: safe_mono)
qed

lemma step_op_safe:
  fixes s :: "('f, 'ev) vm"
  assumes "vm_inv E n g s" and "env_ok E" and "mode_ok mode" and "op_ok (ve_crypto E) op"
  shows "safe (step_op E mode op rest s) (\<lambda>(skip, s'). vm_inv E n g s' \<and> length (vm_stack s') \<le> max_stack_height)"
proof (cases "stack_req op \<le> length (vm_stack s)")
  case True
  have skip: "safe (op_skip op s') (\<lambda>(_, s''). vm_inv E n g s'')"
    if "vm_inv E n g s' \<and> (\<forall>k. op = Branch k \<longrightarrow> vm_stack s' = vm_stack s)" for s' :: "('f, 'ev) vm"
    using that True by (cases op) (auto simp: safe_simps intro!: pop_cell_safe)
  show ?thesis unfolding step_op_def if_not_P [OF leD [OF True]] safe_obind
    by (rule safe_mono [OF exec_op_safe [OF assms(1) True assms(2-4)]])
      (rule safe_mono [OF skip], auto simp: safe_simps)
qed (simp add: step_op_def safe_simps)

lemma run_program_internal_safe:
  assumes "vm_inv E n g s" and "env_ok E" and "mode_ok mode" and "\<forall>op \<in> set program. op_ok (ve_crypto E) op"
    and "length (vm_stack s) \<le> H" and "max_stack_height \<le> H"
  shows "safe (run_program_internal E mode limit program s) (\<lambda>s'. vm_inv E n g s' \<and> length (vm_stack s') \<le> H)"
  using assms
proof (induction program arbitrary: s limit rule: length_induct)
  case (1 program)
  show ?case
  proof (cases program)
    case (Cons op rest)
    have "safe (step_op E mode op rest s) (\<lambda>(skip, s'). vm_inv E n g s' \<and> length (vm_stack s') \<le> max_stack_height)"
      using "1.prems" Cons by (intro step_op_safe) auto
    moreover have "safe (run_program_internal E mode lim (drop k rest) s')
        (\<lambda>s'. vm_inv E n g s' \<and> length (vm_stack s') \<le> H)"
      if "vm_inv E n g s'" "length (vm_stack s') \<le> max_stack_height" for k lim s'
      using 1 that by (intro "1.IH" [rule_format]) (auto simp: Cons dest: in_set_dropD)
    ultimately show ?thesis
      using "1.prems" unfolding Cons by (auto simp: safe_simps elim!: safe_mono)
  qed (use 1 in \<open>simp add: safe_simps\<close>)
qed

lemma initial_vm_inv:
  assumes "\<forall>v \<in> set initial. sv_ok (ve_crypto E) (vv_value v)"
  shows "vm_inv E (length initial) rc_zero (initial_vm initial)"
  using assms rc.valid_zero rc.leq_refl
  by (auto simp: vm_inv_def initial_vm_def list_all_iff entry_ok_def within_limit_def rc_zero_def in_set_enumerate_eq)

section \<open>An example environment\<close>

definition byte_crypto :: "(nat list, nat) mcrypto" where
  "byte_crypto = \<lparr>transient_hash = (\<lambda>l r. 3 * l + 5 * r + 1), hash_bytes = (\<lambda>bs. bs), fr_from_le_bytes = le_val, fr_default = 0\<rparr>"

definition example_env :: "running_cost option \<Rightarrow> nat vm_env" where
  "example_env limit = \<lparr>ve_crypto = byte_crypto, ve_sv_size = (\<lambda>_. 1), ve_log_nodes = (\<lambda>_. Some 64),
     ve_root_value = av_of_bool \<circ> odd, ve_cost = uniform_cost 10, ve_limit = limit\<rparr>"

lemma env_ok_example: "env_ok (example_env limit)"
  by (simp add: env_ok_def example_env_def)

lemma atom_small [simp]: "0 < n \<Longrightarrow> n < 256 \<Longrightarrow> atom_of_u128 n = [n]"
  using to_le_narrow [of n 1 16] va_normalize_pad [of "[n]" 15]
  by (simp add: atom_of_u128_def va_normalize_id is_in_normal_form_def)

lemma u64_of_small [simp]: "0 < n \<Longrightarrow> n < 256 \<Longrightarrow> u64_of_value (av_value (av_of_u64 n)) = Ok n"
  by (simp add: av_of_u64_def aligned_of_def u64_of_value_def prim_of_value_def uint_of_atom_def
      u128_of_atom_def u64_max_def)

lemma small_size [simp]: "0 < n \<Longrightarrow> n < 32 \<Longrightarrow> av_serialized_size (av_of_u64 n) = 2"
  by (simp add: av_of_u64_def aligned_of_def av_serialized_size_def value_serialized_size_def
      alignment_serialized_size_def alignment_size_with_def alignment_singleton_def va_serialized_size_def
      is_in_normal_form_def va_size_normal_def flagged_int_size_def)

lemma uniform_cost_simps:
  "cm_push_cell (uniform_cost c) = c" "cm_addi (uniform_cost c) = c"
  "cm_popeq_constant (uniform_cost c) = c" "cm_popeq_coeff_value_size (uniform_cost c) = c"
  by (simp_all add: uniform_cost_def)

lemmas run_defs = run_program_def run_program_step_limited_def initial_vm_def step_op_def
  exec_push_def exec_addi_def exec_popeq_def incr_gas_def incr_gas_full_def pop_cell_def vm_pop_def
  push_cell_def vm_push_def push_event_def vm_add_def decode_def max_stack_height_def Let_def rc_add_def
  rc_zero_def cd_add_def sat_add_def u64_max_def example_env_def vnew_def result_mode_gather_def
  result_mode_verify_def cd_mul_def sat_mul_def uniform_cost_simps

section \<open>Properties\<close>

text \<open>Property C1. The virtual machine never panics: started on well-formed values with a well-formed
  program, \<open>run_program_step_limited\<close> returns a result or an error, for every gas limit, step limit
  and result mode. In a result, the gas is within the limit, the stack has no more entries than the
  larger of its initial height and \<open>MAX_STACK_HEIGHT\<close>, and every value on it is well formed at every
  level: arrays have at most 16 entries, Merkle trees are rehashed and at most 32 high with 32-byte
  leaves, and cells fit their alignment and take at most two bytes more than \<open>CELL_BOUND\<close>.\<close>

theorem run_program_safe:
  assumes "env_ok E" and "mode_ok mode"
    and "\<forall>v \<in> set initial. sv_ok (ve_crypto E) (vv_value v)"
    and "\<forall>op \<in> set program. op_ok (ve_crypto E) op"
  shows "run_program_step_limited E mode initial program step_limit \<noteq> Panic \<and>
    (\<forall>r. run_program_step_limited E mode initial program step_limit = Ok r \<longrightarrow>
       (\<forall>v \<in> set (vr_stack r). sv_ok (ve_crypto E) (vv_value v)) \<and>
       length (vr_stack r) \<le> max (length initial) max_stack_height \<and>
       within_limit E (vr_gas_cost r))"
proof -
  have "safe (run_program_internal E mode step_limit program (initial_vm initial))
      (\<lambda>s'. vm_inv E (length initial) rc_zero s' \<and> length (vm_stack s') \<le> max (length initial) max_stack_height)"
    using assms by (intro run_program_internal_safe initial_vm_inv) (simp_all add: initial_vm_def)
  then show ?thesis
    by (auto simp: run_program_step_limited_def safe_iff outcome_simps vm_inv_def list_all_iff entry_ok_def)
qed

theorem run_program_safe_witness:
  "\<exists>r. run_program_step_limited (example_env (Some (rc_zero\<lparr>rc_compute_time := 40\<rparr>))) result_mode_gather
         [vnew Strong (Cell (av_of_u64 5))] [Addi 3, Popeq False ()] None = Ok r \<and>
     vr_events r = [Read (av_of_u64 8)] \<and>
     within_limit (example_env (Some (rc_zero\<lparr>rc_compute_time := 40\<rparr>))) (vr_gas_cost r)"
proof -
  let ?E = "example_env (Some (rc_zero\<lparr>rc_compute_time := 40\<rparr>))"
  have "\<exists>r. run_program_step_limited ?E result_mode_gather
      [vnew Strong (Cell (av_of_u64 5))] [Addi 3, Popeq False ()] None = Ok r \<and> vr_events r = [Read (av_of_u64 8)]"
    by (simp add: run_defs)
  then show ?thesis
    using run_program_safe [of ?E result_mode_gather "[vnew Strong (Cell (av_of_u64 5))]" "[Addi 3, Popeq False ()]" None]
    by (simp add: env_ok_example mode_ok_gather u64_max_def) blast
qed

text \<open>Property C8. Programs terminate within as many steps as they have operations, jumps included: a
  step limit that is at least the length of the program changes nothing.\<close>

theorem step_limit_program_length:
  assumes "length program \<le> k"
  shows "run_program_step_limited E mode initial program (Some k) = run_program E mode initial program"
proof -
  have "run_program_internal E mode (Some k) program s = run_program_internal E mode None program s" for s
    using assms
  proof (induction program arbitrary: s k rule: length_induct)
    case (1 program)
    show ?case
    proof (cases program)
      case (Cons op rest)
      have "run_program_internal E mode (Some (k - 1)) (drop j rest) s' =
          run_program_internal E mode None (drop j rest) s'" for j s'
        using 1 Cons by (intro "1.IH" [rule_format]) auto
      then show ?thesis using "1.prems" Cons by (cases "step_op E mode op rest s") auto
    qed simp
  qed
  then show ?thesis by (simp add: run_program_def run_program_step_limited_def)
qed

theorem step_limit_program_length_witness:
  "run_program_step_limited (example_env None) result_mode_gather [] [Jmp 1, Pop, Noop 1] (Some 3) =
   run_program (example_env None) result_mode_gather [] [Jmp 1, Pop, Noop 1]"
  by (rule step_limit_program_length) simp

end
