(* ===== verification/Onchain_Gas.thy ===== *)
theory Onchain_Gas
  imports Onchain_Safety
begin

text \<open>
  The gas limit of the machine only cuts runs short: a run with a limit does what the run without one
  does, as long as the gas stays within the limit.

  \<open>cutoff L g \<gamma> m m0\<close> relates a call \<open>m\<close> under the limit \<open>L\<close>, started with gas \<open>g\<close>, to the same call \<open>m0\<close>
  without limit; \<open>\<gamma>\<close> reads the gas from the result. The rules follow the structure of the operations.
\<close>

definition over :: "running_cost \<Rightarrow> running_cost \<Rightarrow> bool" where
  "over L g \<longleftrightarrow> rc_compute_time g > rc_compute_time L \<or> rc_read_time g > rc_read_time L"

definition cutoff :: "running_cost \<Rightarrow> running_cost \<Rightarrow> ('x \<Rightarrow> running_cost) \<Rightarrow>
    ('f vm_error, 'x) outcome \<Rightarrow> ('f vm_error, 'x) outcome \<Rightarrow> bool" where
  "cutoff L g \<gamma> m m0 \<longleftrightarrow>
     (\<not> over L g \<longrightarrow>
        m = m0 \<and> (\<forall>x. m0 = Ok x \<longrightarrow> \<not> over L (\<gamma> x)) \<or>
        m = Err OutOfGas \<and> (\<forall>x. m0 = Ok x \<longrightarrow> over L (\<gamma> x))) \<and>
     (\<forall>x. m0 = Ok x \<longrightarrow> rc_valid (\<gamma> x) \<and> rc_leq g (\<gamma> x))"

abbreviation capped :: "running_cost \<Rightarrow> 'f vm_env \<Rightarrow> 'f vm_env" where
  "capped L E \<equiv> E\<lparr>ve_limit := Some L\<rparr>"

abbreviation uncapped :: "'f vm_env \<Rightarrow> 'f vm_env" where
  "uncapped E \<equiv> E\<lparr>ve_limit := None\<rparr>"

section \<open>Rules\<close>

lemma over_leq: "over L g \<Longrightarrow> rc_leq g h \<Longrightarrow> over L h"
  by (auto simp: over_def rc_leq_def)

lemma cut_obind:
  assumes "cutoff L g \<gamma> m m0" and "\<And>x. rc_valid (\<gamma> x) \<Longrightarrow> cutoff L (\<gamma> x) \<delta> (f x) (f0 x)"
  shows "cutoff L g \<delta> (obind m f) (obind m0 f0)"
proof (cases m0)
  case (Ok x)
  then have x: "rc_valid (\<gamma> x)" "rc_leq g (\<gamma> x)" using assms(1) by (auto simp: cutoff_def)
  have c: "cutoff L (\<gamma> x) \<delta> (f x) (f0 x)" using assms(2) x(1) .
  have post: "rc_valid (\<delta> y)" "rc_leq (\<gamma> x) (\<delta> y)" if "f0 x = Ok y" for y
    using c that by (auto simp: cutoff_def)
  have mono: "rc_leq g (\<delta> y)" if "f0 x = Ok y" for y
    using rc.leq_trans [OF x(2) post(2)] that by simp
  have far: "over L (\<delta> y)" if "f0 x = Ok y" "over L (\<gamma> x)" for y
    using over_leq [OF that(2) post(2)] that by simp
  consider "over L g" | "\<not> over L g" "m = Ok x" "\<not> over L (\<gamma> x)" | "m = Err OutOfGas" "over L (\<gamma> x)"
    using assms(1) Ok by (auto simp: cutoff_def)
  then show ?thesis
    using Ok c mono far post by cases (simp_all add: cutoff_def)
qed (use assms(1) in \<open>auto simp: cutoff_def\<close>)

lemma cut_Ok: "\<gamma> x = g \<Longrightarrow> rc_valid g \<Longrightarrow> cutoff L g \<gamma> (Ok x) (Ok x)"
  by (auto simp: cutoff_def rc.leq_refl)

lemma cut_fail [simp]: "cutoff L g \<gamma> (Err e) (Err e)" "cutoff L g \<gamma> Panic Panic"
  by (simp_all add: cutoff_def)

text \<open>A call that does not touch the gas.\<close>

lemma cut_same: "(\<And>x. m = Ok x \<Longrightarrow> cutoff L g \<delta> (f x) (f0 x)) \<Longrightarrow> cutoff L g \<delta> (obind m f) (obind m f0)"
  by (cases m) simp_all

lemma cut_incr_gas_full:
  assumes "rc_valid (vm_gas s)"
  shows "cutoff L (vm_gas s) vm_gas (incr_gas_full (capped L E) by s) (incr_gas_full (uncapped E) by s)"
  using assms rc.valid_plus rc.leq_plus by (auto simp: incr_gas_full_def Let_def cutoff_def over_def)

lemma cut_incr_gas:
  "rc_valid (vm_gas s) \<Longrightarrow>
    cutoff L (vm_gas s) vm_gas (incr_gas (capped L E) by s) (incr_gas (uncapped E) by s)"
  unfolding incr_gas_def by (rule cut_incr_gas_full)

lemma pop_gas: "vm_pop s = Ok (v, s') \<Longrightarrow> vm_gas s' = vm_gas s"
  by (auto simp: vm_pop_def split: list.splits)

lemma pop_cell_gas: "pop_cell s = Ok (c, s') \<Longrightarrow> vm_gas s' = vm_gas s"
  by (auto simp: pop_cell_def outcome_simps dest: pop_gas)

lemma visit_gas: "visit_cache k s = Ok (hit, s') \<Longrightarrow> vm_gas s' = vm_gas s"
  by (auto simp: visit_cache_def outcome_simps)

lemmas same_gas = pop_gas pop_cell_gas visit_gas

lemma gas_simps [simp]: "vm_gas (vm_push v s) = vm_gas s" "vm_gas (push_cell c s) = vm_gas s"
  "vm_gas (push_event ev s) = vm_gas s"
  by (simp_all add: vm_push_def push_cell_def push_event_def split: option.splits)

text \<open>A charge starts what follows it from the gas it leaves; \<open>cut_charge\<close> is stated for a state whose
  gas is known to be \<open>g\<close>.\<close>

lemma cut_charge:
  assumes "vm_gas s = g" and "rc_valid g" and "\<And>s'. rc_valid (vm_gas s') \<Longrightarrow> cutoff L (vm_gas s') \<delta> (f s') (f0 s')"
  shows "cutoff L g \<delta> (obind (incr_gas (capped L E) by s) f) (obind (incr_gas (uncapped E) by s) f0)"
  using cut_obind [OF cut_incr_gas [of s L E "by"], of \<delta> f f0] assms by simp

lemma cut_charge_full:
  assumes "vm_gas s = g" and "rc_valid g" and "\<And>s'. rc_valid (vm_gas s') \<Longrightarrow> cutoff L (vm_gas s') \<delta> (f s') (f0 s')"
  shows "cutoff L g \<delta> (obind (incr_gas_full (capped L E) by s) f) (obind (incr_gas_full (uncapped E) by s) f0)"
  using cut_obind [OF cut_incr_gas_full [of s L E "by"], of \<delta> f f0] assms by simp

lemmas cut_rules = cut_charge cut_charge_full cut_Ok cut_same

section \<open>Operations\<close>

lemma cut_gas_only:
  assumes "rc_valid (vm_gas s)"
  shows "cutoff L (vm_gas s) vm_gas (exec_noop (capped L E) k s) (exec_noop (uncapped E) k s)"
    "cutoff L (vm_gas s) vm_gas (exec_branch (capped L E) k s) (exec_branch (uncapped E) k s)"
    "cutoff L (vm_gas s) vm_gas (exec_jmp (capped L E) k s) (exec_jmp (uncapped E) k s)"
    "cutoff L (vm_gas s) vm_gas (exec_ckpt (capped L E) s) (exec_ckpt (uncapped E) s)"
    "cutoff L (vm_gas s) vm_gas (exec_push (capped L E) storage v s) (exec_push (uncapped E) storage v s)"
  using assms unfolding exec_noop_def exec_branch_def exec_jmp_def exec_ckpt_def exec_push_def
  by (auto intro!: cut_incr_gas cut_rules)

lemma cut_binary:
  assumes "rc_valid (vm_gas s)"
  shows "cutoff L (vm_gas s) vm_gas (exec_lt (capped L E) s) (exec_lt (uncapped E) s)"
    "cutoff L (vm_gas s) vm_gas (exec_eq (capped L E) s) (exec_eq (uncapped E) s)"
    "cutoff L (vm_gas s) vm_gas (exec_and (capped L E) s) (exec_and (uncapped E) s)"
    "cutoff L (vm_gas s) vm_gas (exec_or (capped L E) s) (exec_or (uncapped E) s)"
    "cutoff L (vm_gas s) vm_gas (exec_add (capped L E) s) (exec_add (uncapped E) s)"
    "cutoff L (vm_gas s) vm_gas (exec_sub (capped L E) s) (exec_sub (uncapped E) s)"
    "cutoff L (vm_gas s) vm_gas (exec_concat (capped L E) k s) (exec_concat (uncapped E) k s)"
  using assms unfolding exec_lt_def exec_eq_def exec_and_def exec_or_def exec_add_def exec_sub_def
    exec_concat_def Let_def
  by (auto intro!: cut_rules dest!: same_gas)

lemma cut_unary:
  assumes "rc_valid (vm_gas s)"
  shows "cutoff L (vm_gas s) vm_gas (exec_neg (capped L E) s) (exec_neg (uncapped E) s)"
    "cutoff L (vm_gas s) vm_gas (exec_pop (capped L E) s) (exec_pop (uncapped E) s)"
    "cutoff L (vm_gas s) vm_gas (exec_log (capped L E) mode s) (exec_log (uncapped E) mode s)"
    "cutoff L (vm_gas s) vm_gas (exec_popeq (capped L E) mode r s) (exec_popeq (uncapped E) mode r s)"
    "cutoff L (vm_gas s) vm_gas (exec_addi (capped L E) k s) (exec_addi (uncapped E) k s)"
    "cutoff L (vm_gas s) vm_gas (exec_subi (capped L E) k s) (exec_subi (uncapped E) k s)"
  using assms unfolding exec_neg_def exec_pop_def exec_log_def exec_popeq_def exec_addi_def exec_subi_def Let_def
  by (auto intro!: cut_rules dest!: same_gas)

lemma cut_inspect:
  assumes "rc_valid (vm_gas s)"
  shows "cutoff L (vm_gas s) vm_gas (exec_type (capped L E) s) (exec_type (uncapped E) s)"
    "cutoff L (vm_gas s) vm_gas (exec_size (capped L E) s) (exec_size (uncapped E) s)"
    "cutoff L (vm_gas s) vm_gas (exec_new (capped L E) s) (exec_new (uncapped E) s)"
    "cutoff L (vm_gas s) vm_gas (exec_root (capped L E) s) (exec_root (uncapped E) s)"
    "cutoff L (vm_gas s) vm_gas (exec_member (capped L E) s) (exec_member (uncapped E) s)"
  using assms unfolding exec_type_def exec_size_def exec_new_def exec_root_def exec_member_def Let_def
  by (auto intro!: cut_rules dest!: same_gas split: state_value.splits)

lemma cut_stack:
  assumes "rc_valid (vm_gas s)"
  shows "cutoff L (vm_gas s) vm_gas (exec_dup (capped L E) k s) (exec_dup (uncapped E) k s)"
    "cutoff L (vm_gas s) vm_gas (exec_swap (capped L E) k s) (exec_swap (uncapped E) k s)"
  using assms unfolding exec_dup_def exec_swap_def Let_def by (auto intro!: cut_rules)

lemma cut_rem:
  assumes "rc_valid (vm_gas s)"
  shows "cutoff L (vm_gas s) vm_gas (exec_rem (capped L E) cached s) (exec_rem (uncapped E) cached s)"
  using assms unfolding exec_rem_def Let_def by (cases cached) (auto intro!: cut_rules dest!: same_gas)

lemma refine_path_gas: "refine_path path s = Ok (ks, s') \<Longrightarrow> vm_gas s' = vm_gas s"
proof (induction path arbitrary: ks s s')
  case (Cons k path)
  then show ?case by (cases k) (auto simp: outcome_simps dest!: same_gas Cons.IH)
qed simp

lemma step_cost_cap [simp]: "step_cost (E\<lparr>ve_limit := l\<rparr>) = step_cost E"
  by (simp add: step_cost_def fun_eq_iff)

lemma cut_idx_step:
  assumes "rc_valid (vm_gas s)"
  shows "cutoff L (vm_gas s) (\<lambda>(_, s). vm_gas s) (idx_step (capped L E) cached push_path cur key s)
    (idx_step (uncapped E) cached push_path cur key s)"
  using assms unfolding idx_step_def Let_def
  by (cases cached; cases push_path) (auto intro!: cut_rules dest!: same_gas)

lemma cut_try_fold:
  assumes "rc_valid (\<gamma> s)" and "\<And>s x. rc_valid (\<gamma> s) \<Longrightarrow> cutoff L (\<gamma> s) \<gamma> (f s x) (f0 s x)"
  shows "cutoff L (\<gamma> s) \<gamma> (try_fold f s xs) (try_fold f0 s xs)"
  using assms
proof (induction xs arbitrary: s)
  case (Cons x xs)
  then show ?case by (auto intro!: cut_obind)
qed (auto intro!: cut_Ok)

lemma cut_push_last:
  assumes "cutoff L g (\<lambda>(_, s). vm_gas s) m m0"
  shows "cutoff L g vm_gas (obind m (\<lambda>(cur, s). Ok (vm_push cur s))) (obind m0 (\<lambda>(cur, s). Ok (vm_push cur s)))"
  by (rule cut_obind [OF assms]) (auto intro!: cut_Ok)

lemma cut_idx:
  assumes "rc_valid (vm_gas s)"
  shows "cutoff L (vm_gas s) vm_gas (exec_idx (capped L E) cached push_path path s)
    (exec_idx (uncapped E) cached push_path path s)"
proof -
  let ?f = "\<lambda>E (cur, s) key. idx_step E cached push_path cur key s"
  have loop: "cutoff L (vm_gas s') (\<lambda>(_, s). vm_gas s) (try_fold (?f (capped L E)) (cur, s') keys)
      (try_fold (?f (uncapped E)) (cur, s') keys)" if "rc_valid (vm_gas s')" for cur keys and s' :: "('a, 'b) vm"
    using that by (intro cut_try_fold [of "\<lambda>(_, s). vm_gas s" "(cur, s')", simplified]) (auto intro: cut_idx_step)
  show ?thesis unfolding exec_idx_def
  proof (rule cut_same, clarify)
    fix keys s1 assume s1: "refine_path path s = Ok (keys, s1)"
    show "cutoff L (vm_gas s) vm_gas
      (obind (vm_pop s1) (\<lambda>(cur, s). obind (try_fold (?f (capped L E)) (cur, s) keys) (\<lambda>(cur, s). Ok (vm_push cur s))))
      (obind (vm_pop s1) (\<lambda>(cur, s). obind (try_fold (?f (uncapped E)) (cur, s) keys) (\<lambda>(cur, s). Ok (vm_push cur s))))"
    proof (rule cut_same, clarify)
      fix v k s2 assume "vm_pop s1 = Ok ((v, k), s2)"
      then have gas: "vm_gas s2 = vm_gas s" using refine_path_gas [OF s1] by (auto dest: pop_gas)
      then show "cutoff L (vm_gas s) vm_gas
          (obind (try_fold (?f (capped L E)) ((v, k), s2) keys) (\<lambda>(cur, s). Ok (vm_push cur s)))
          (obind (try_fold (?f (uncapped E)) ((v, k), s2) keys) (\<lambda>(cur, s). Ok (vm_push cur s)))"
        using assms loop [of s2 "(v, k)" keys] by (intro cut_push_last) simp
    qed
  qed
qed

lemma cut_ins_step:
  assumes "rc_valid (vm_gas s)"
  shows "cutoff L (vm_gas s) (\<lambda>(_, s). vm_gas s) (ins_step (capped L E) cached cur s)
    (ins_step (uncapped E) cached cur s)"
  using assms unfolding ins_step_def Let_def
  by (cases cached) (auto intro!: cut_rules dest!: same_gas)

lemma cut_ins_loop:
  assumes "rc_valid (vm_gas s)"
  shows "cutoff L (vm_gas s) (\<lambda>(_, s). vm_gas s) (ins_loop (capped L E) cached k cur s)
    (ins_loop (uncapped E) cached k cur s)"
  using assms
proof (induction k arbitrary: cur s)
  case (Suc k)
  then show ?case unfolding ins_loop.simps by (intro cut_obind [OF cut_ins_step]) auto
qed (auto intro!: cut_Ok)

lemma cut_ins:
  assumes "rc_valid (vm_gas s)"
  shows "cutoff L (vm_gas s) vm_gas (exec_ins (capped L E) cached k s) (exec_ins (uncapped E) cached k s)"
proof -
  have "cutoff L (vm_gas s) vm_gas
      (obind (ins_loop (capped L E) cached k cur s1) (\<lambda>(cur, s). Ok (vm_push cur s)))
      (obind (ins_loop (uncapped E) cached k cur s1) (\<lambda>(cur, s). Ok (vm_push cur s)))"
    if "vm_gas s1 = vm_gas s" for cur s1
    using cut_ins_loop [of s1 L E cached k cur] that assms by (intro cut_push_last) simp
  then show ?thesis unfolding exec_ins_def by (auto intro!: cut_same dest!: pop_gas)
qed

section \<open>Programs\<close>

lemma cut_exec_op:
  assumes "rc_valid (vm_gas s)"
  shows "cutoff L (vm_gas s) vm_gas (exec_op (capped L E) mode op s) (exec_op (uncapped E) mode op s)"
  by (cases op) (simp_all only: exec_op.simps cut_gas_only [OF assms] cut_binary [OF assms] cut_unary [OF assms]
      cut_inspect [OF assms] cut_stack [OF assms] cut_rem [OF assms] cut_idx [OF assms] cut_ins [OF assms])

lemma op_skip_gas: "op_skip op s = Ok (k, s') \<Longrightarrow> vm_gas s' = vm_gas s"
  by (cases op) (auto simp: outcome_simps dest!: same_gas)

lemma cut_step_op:
  assumes "rc_valid (vm_gas s)"
  shows "cutoff L (vm_gas s) (\<lambda>(_, s). vm_gas s) (step_op (capped L E) mode op rest s)
    (step_op (uncapped E) mode op rest s)"
  unfolding step_op_def
  by (auto intro!: cut_obind [OF cut_exec_op [OF assms]] cut_same cut_Ok dest!: op_skip_gas)

lemma cut_run:
  assumes "rc_valid (vm_gas s)"
  shows "cutoff L (vm_gas s) vm_gas (run_program_internal (capped L E) mode limit program s)
    (run_program_internal (uncapped E) mode limit program s)"
  using assms
proof (induction program arbitrary: s limit rule: length_induct)
  case (1 program)
  show ?case
  proof (cases program)
    case (Cons op rest)
    have "cutoff L (vm_gas s') vm_gas (run_program_internal (capped L E) mode lim (drop k rest) s')
        (run_program_internal (uncapped E) mode lim (drop k rest) s')" if "rc_valid (vm_gas s')" for lim k s'
      using that Cons by (intro "1.IH" [rule_format]) auto
    then show ?thesis using "1.prems" Cons
      by (auto intro!: cut_obind [OF cut_step_op] cut_Ok)
  qed (use "1.prems" in \<open>simp add: cut_Ok\<close>)
qed

text \<open>Only the times of a limit matter to the machine.\<close>

lemma run_program_limit_times:
  assumes "run_program (E\<lparr>ve_limit := Some L\<rparr>) mode initial program = Ok r"
    and "rc_compute_time L' = rc_compute_time L" "rc_read_time L' = rc_read_time L"
  shows "run_program (E\<lparr>ve_limit := Some L'\<rparr>) mode initial program = Ok r"
proof -
  let ?s = "initial_vm initial :: ('a, 'b) vm"
  have cut: "cutoff L (vm_gas ?s) vm_gas (run_program_internal (capped L E) mode None program ?s)
      (run_program_internal (uncapped E) mode None program ?s)" for L
    by (rule cut_run) (simp add: initial_vm_def rc.valid_zero)
  have "over L' g = over L g" for g using assms(2,3) by (simp add: over_def)
  moreover have "\<not> over L (vm_gas ?s)" for L by (simp add: initial_vm_def over_def rc_zero_def)
  ultimately have "run_program_internal (capped L' E) mode None program ?s = Ok x"
    if x: "run_program_internal (capped L E) mode None program ?s = Ok x" for x
  proof -
    have m0: "run_program_internal (uncapped E) mode None program ?s = Ok x"
      using cut [of L] x \<open>\<And>L. \<not> over L (vm_gas ?s)\<close> by (simp add: cutoff_def)
    then show ?thesis using cut [of L] cut [of L'] x \<open>\<And>L. \<not> over L (vm_gas ?s)\<close> \<open>\<And>g. over L' g = over L g\<close>
      by (auto simp: cutoff_def)
  qed
  then show ?thesis using assms(1)
    by (auto simp: run_program_def run_program_step_limited_def outcome_simps)
qed

section \<open>Property\<close>

text \<open>Property C2. The gas limit of \<open>run_program\<close> is exact: where the run without limit returns, the run
  with a limit returns the same stack, events and gas if that gas is within the limit, and otherwise
  fails with \<open>OutOfGas\<close>. So the cost a transaction is charged does not depend on the limit, and no run
  that exceeds the limit is accepted.\<close>

theorem gas_limit_exact:
  assumes "run_program (E\<lparr>ve_limit := None\<rparr>) mode initial program = Ok r"
  shows "run_program (E\<lparr>ve_limit := Some L\<rparr>) mode initial program =
    (if rc_compute_time (vr_gas_cost r) > rc_compute_time L \<or> rc_read_time (vr_gas_cost r) > rc_read_time L
     then Err OutOfGas else Ok r)"
proof -
  let ?s = "initial_vm initial :: ('a, 'b) vm"
  have "cutoff L (vm_gas ?s) vm_gas (run_program_internal (capped L E) mode None program ?s)
      (run_program_internal (uncapped E) mode None program ?s)"
    by (rule cut_run) (simp add: initial_vm_def rc.valid_zero)
  moreover have "\<not> over L (vm_gas ?s)" by (simp add: initial_vm_def over_def rc_zero_def)
  ultimately show ?thesis using assms
    by (auto simp: run_program_def run_program_step_limited_def cutoff_def over_def outcome_simps)
qed

theorem gas_limit_exact_witness:
  "run_program (example_env (Some (rc_zero\<lparr>rc_compute_time := 39\<rparr>))) result_mode_gather
     [vnew Strong (Cell (av_of_u64 5))] [Addi 3, Popeq False ()] = Err OutOfGas"
proof -
  let ?r = "\<lparr>vr_stack = [], vr_events = [Read (av_of_u64 8)], vr_gas_cost = rc_zero\<lparr>rc_compute_time := 40\<rparr>\<rparr>"
  have "run_program (example_env None\<lparr>ve_limit := None\<rparr>) result_mode_gather
      [vnew Strong (Cell (av_of_u64 5))] [Addi 3, Popeq False ()] = Ok ?r"
    by (simp add: run_defs)
  from gas_limit_exact [OF this, of "rc_zero\<lparr>rc_compute_time := 39\<rparr>"] show ?thesis
    by (simp add: example_env_def)
qed

end
