(* ===== verification/Onchain_Modes.thy ===== *)
theory Onchain_Modes
  imports Onchain_Safety
begin

text \<open>
  The two result modes of the machine. A contract call is first run in gather mode, which collects the
  values that are read; the transcript sent to the chain carries these values in its \<open>popeq\<close>
  operations and is run in verify mode. The two runs agree.

  \<open>agree\<close> relates the states of the two machines: same stack, gas and cache, and the events of the
  verifying machine are the logs among those of the gathering one.
\<close>

fun logs :: "'f gather_event list \<Rightarrow> 'f state_value list" where
  "logs [] = []"
| "logs (LogEvent v # evs) = v # logs evs"
| "logs (Read _ # evs) = logs evs"

type_synonym 'f verify_vm = "('f, 'f state_value) vm"
type_synonym 'f gather_vm = "('f, 'f gather_event) vm"

definition agree :: "'f verify_vm \<Rightarrow> 'f gather_vm \<Rightarrow> bool" where
  "agree s t \<longleftrightarrow> vm_stack s = vm_stack t \<and> vm_gas s = vm_gas t \<and> vm_cache s = vm_cache t \<and>
     vm_events s = logs (vm_events t)"

abbreviation agree2 :: "'x \<times> 'f verify_vm \<Rightarrow> 'x \<times> 'f gather_vm \<Rightarrow> bool" where
  "agree2 \<equiv> rel_prod (=) agree"

abbreviation same_outcome :: "('a \<Rightarrow> 'b \<Rightarrow> bool) \<Rightarrow> ('e, 'a) outcome \<Rightarrow> ('e, 'b) outcome \<Rightarrow> bool" where
  "same_outcome R \<equiv> rel_outcome (=) R"

section \<open>Rules\<close>

lemma same_obind:
  assumes "same_outcome R m n" and "\<And>x y. R x y \<Longrightarrow> same_outcome Q (f x) (g y)"
  shows "same_outcome Q (obind m f) (obind n g)"
  using assms by (cases m; cases n) auto

lemma same_pure: "(\<And>x. same_outcome Q (f x) (g x)) \<Longrightarrow> same_outcome Q (obind m f) (obind m g)"
  by (cases m) auto

lemma logs_append [simp]: "logs (xs @ ys) = logs xs @ logs ys"
  by (induction xs rule: logs.induct) auto

lemma same_charge_full:
  "agree s t \<Longrightarrow> same_outcome agree (incr_gas_full E by s) (incr_gas_full E by t)"
  by (simp add: incr_gas_full_def agree_def Let_def)

lemma same_charge: "agree s t \<Longrightarrow> same_outcome agree (incr_gas E by s) (incr_gas E by t)"
  unfolding incr_gas_def by (rule same_charge_full)

lemma same_pop: "agree s t \<Longrightarrow> same_outcome agree2 (vm_pop s) (vm_pop t)"
  by (auto simp: vm_pop_def agree_def split: list.splits)

lemma same_pop_cell: "agree s t \<Longrightarrow> same_outcome agree2 (pop_cell s) (pop_cell t)"
  unfolding pop_cell_def by (auto intro!: same_obind [OF same_pop] same_pure)

lemma same_visit: "agree s t \<Longrightarrow> same_outcome agree2 (visit_cache k s) (visit_cache k t)"
  by (auto simp: visit_cache_def agree_def intro!: same_pure)

lemma agree_push: "agree s t \<Longrightarrow> agree (vm_push v s) (vm_push v t)"
  and agree_push_cell: "agree s t \<Longrightarrow> agree (push_cell c s) (push_cell c t)"
  by (simp_all add: agree_def vm_push_def push_cell_def)

lemma agree_stack: "agree s t \<Longrightarrow> vm_stack s = vm_stack t"
  and agree_cache: "agree s t \<Longrightarrow> vm_cache s = vm_cache t"
  by (simp_all add: agree_def)

lemma cache_push [simp]: "vm_cache (vm_push v s) = vm_cache s"
  by (simp add: vm_push_def)

lemma agree_set_cache: "agree s t \<Longrightarrow> agree (s\<lparr>vm_cache := c\<rparr>) (t\<lparr>vm_cache := c\<rparr>)"
  by (simp add: agree_def)

lemmas same_rules = same_obind [OF same_charge] same_obind [OF same_charge_full] same_obind [OF same_pop]
  same_obind [OF same_pop_cell] same_obind [OF same_visit] same_pure agree_push agree_push_cell agree_set_cache

section \<open>Operations\<close>

lemma same_gas_only:
  assumes "agree s t"
  shows "same_outcome agree (exec_noop E k s) (exec_noop E k t)"
    "same_outcome agree (exec_branch E k s) (exec_branch E k t)"
    "same_outcome agree (exec_jmp E k s) (exec_jmp E k t)"
    "same_outcome agree (exec_ckpt E s) (exec_ckpt E t)"
    "same_outcome agree (exec_push E storage v s) (exec_push E storage v t)"
  using assms unfolding exec_noop_def exec_branch_def exec_jmp_def exec_ckpt_def exec_push_def
  by (auto intro!: same_charge same_rules)

lemma same_binary:
  assumes "agree s t"
  shows "same_outcome agree (exec_lt E s) (exec_lt E t)"
    "same_outcome agree (exec_eq E s) (exec_eq E t)"
    "same_outcome agree (exec_and E s) (exec_and E t)"
    "same_outcome agree (exec_or E s) (exec_or E t)"
    "same_outcome agree (exec_add E s) (exec_add E t)"
    "same_outcome agree (exec_sub E s) (exec_sub E t)"
    "same_outcome agree (exec_concat E k s) (exec_concat E k t)"
  using assms unfolding exec_lt_def exec_eq_def exec_and_def exec_or_def exec_add_def exec_sub_def
    exec_concat_def Let_def
  by (auto intro!: same_rules)

lemma same_unary:
  assumes "agree s t"
  shows "same_outcome agree (exec_neg E s) (exec_neg E t)"
    "same_outcome agree (exec_pop E s) (exec_pop E t)"
    "same_outcome agree (exec_addi E k s) (exec_addi E k t)"
    "same_outcome agree (exec_subi E k s) (exec_subi E k t)"
  using assms unfolding exec_neg_def exec_pop_def exec_addi_def exec_subi_def by (auto intro!: same_rules)

lemma agree_log:
  "agree s t \<Longrightarrow> agree (push_event (process_log result_mode_verify v) s) (push_event (process_log result_mode_gather v) t)"
  by (simp add: push_event_def agree_def result_mode_verify_def result_mode_gather_def)

lemma same_log:
  assumes "agree s t"
  shows "same_outcome agree (exec_log E result_mode_verify s) (exec_log E result_mode_gather t)"
  using assms unfolding exec_log_def Let_def by (auto intro!: same_rules agree_log)

lemma same_inspect:
  assumes "agree s t"
  shows "same_outcome agree (exec_type E s) (exec_type E t)"
    "same_outcome agree (exec_size E s) (exec_size E t)"
    "same_outcome agree (exec_new E s) (exec_new E t)"
    "same_outcome agree (exec_root E s) (exec_root E t)"
    "same_outcome agree (exec_member E s) (exec_member E t)"
  using assms unfolding exec_type_def exec_size_def exec_new_def exec_root_def exec_member_def Let_def
  by (auto intro!: same_rules split: state_value.splits)

lemma same_stack:
  assumes "agree s t"
  shows "same_outcome agree (exec_dup E k s) (exec_dup E k t)"
    "same_outcome agree (exec_swap E k s) (exec_swap E k t)"
  using assms unfolding exec_dup_def exec_swap_def Let_def
  by (auto intro!: same_rules dest: agree_stack) (auto simp: agree_def vm_push_def)

lemma same_rem:
  assumes "agree s t"
  shows "same_outcome agree (exec_rem E cached s) (exec_rem E cached t)"
  using assms unfolding exec_rem_def Let_def by (cases cached) (auto intro!: same_rules)

lemma same_refine_path: "agree s t \<Longrightarrow> same_outcome agree2 (refine_path path s) (refine_path path t)"
proof (induction path arbitrary: s t)
  case (Cons k path)
  then show ?case
    by (cases k) (auto intro!: same_rules same_obind [OF Cons.IH])
qed simp

lemma same_idx_step:
  assumes "agree s t"
  shows "same_outcome agree2 (idx_step E cached push_path cur key s) (idx_step E cached push_path cur key t)"
  using assms unfolding idx_step_def Let_def
  by (cases cached; cases push_path) (auto simp: agree_cache intro!: same_rules)

lemma same_try_fold:
  assumes "R s t" and "\<And>s t x. R s t \<Longrightarrow> same_outcome R (f s x) (g t x)"
  shows "same_outcome R (try_fold f s xs) (try_fold g t xs)"
  using assms
proof (induction xs arbitrary: s t)
  case (Cons x xs)
  show ?case unfolding try_fold.simps by (rule same_obind [of R]) (use Cons in auto)
qed simp

lemma same_idx:
  assumes "agree s t"
  shows "same_outcome agree (exec_idx E cached push_path path s) (exec_idx E cached push_path path t)"
proof -
  have loop: "same_outcome agree2
      (try_fold (\<lambda>(cur, s) key. idx_step E cached push_path cur key s) (cur, s') keys)
      (try_fold (\<lambda>(cur, s) key. idx_step E cached push_path cur key s) (cur, t') keys)"
    if "agree s' t'" for cur keys s' t'
    using that by (intro same_try_fold) (auto intro: same_idx_step)
  show ?thesis
    using assms unfolding exec_idx_def
    by (auto intro!: same_obind [OF same_refine_path] same_obind [OF loop] same_rules)
qed

lemma same_ins_step:
  assumes "agree s t"
  shows "same_outcome agree2 (ins_step E cached cur s) (ins_step E cached cur t)"
  using assms unfolding ins_step_def Let_def by (cases cached) (auto intro!: same_rules)

lemma same_ins_loop: "agree s t \<Longrightarrow> same_outcome agree2 (ins_loop E cached k cur s) (ins_loop E cached k cur t)"
proof (induction k arbitrary: cur s t)
  case (Suc k)
  then show ?case by (auto intro!: same_obind [OF same_ins_step])
qed simp

lemma same_ins:
  assumes "agree s t"
  shows "same_outcome agree (exec_ins E cached k s) (exec_ins E cached k t)"
  using assms unfolding exec_ins_def by (auto intro!: same_rules same_obind [OF same_ins_loop])

lemma same_exec_op:
  assumes "agree s t" and "\<And>c r. op \<noteq> Popeq c r"
  shows "same_outcome agree (exec_op E result_mode_verify op s) (exec_op E result_mode_gather (op_translate f op) t)"
proof (cases op)
  case (Popeq c r)
  then show ?thesis using assms(2) by blast
qed (simp_all add: same_gas_only [OF assms(1)] same_binary [OF assms(1)] same_unary [OF assms(1)]
      same_log [OF assms(1)] same_inspect [OF assms(1)] same_stack [OF assms(1)] same_rem [OF assms(1)]
      same_idx [OF assms(1)] same_ins [OF assms(1)])

text \<open>\<open>popeq\<close> pops the value before it asks the result mode.\<close>

definition popeq_value :: "'f vm_env \<Rightarrow> ('f, 'ev) vm \<Rightarrow> ('f vm_error, aligned_value \<times> ('f, 'ev) vm) outcome" where
  "popeq_value E s =
     obind (incr_gas E (cm_popeq_constant (ve_cost E)) s) (\<lambda>s.
     obind (pop_cell s) (\<lambda>(v, s).
     obind (incr_gas E (cd_mul (cm_popeq_coeff_value_size (ve_cost E)) (av_serialized_size v)) s) (\<lambda>s.
     Ok (v, s))))"

lemma exec_popeq_value:
  "exec_popeq E mode r s =
     obind (popeq_value E s) (\<lambda>(v, s). obind (process_read mode r v) (\<lambda>ev. Ok (push_event ev s)))"
proof (cases "incr_gas E (cm_popeq_constant (ve_cost E)) s")
  case (Ok s1)
  show ?thesis
  proof (cases "pop_cell s1")
    case (Ok p)
    then show ?thesis using \<open>incr_gas _ _ s = Ok s1\<close>
      by (cases p; cases "incr_gas E (cd_mul (cm_popeq_coeff_value_size (ve_cost E)) (av_serialized_size (fst p))) (snd p)")
        (auto simp: exec_popeq_def popeq_value_def)
  qed (use Ok in \<open>auto simp: exec_popeq_def popeq_value_def\<close>)
qed (auto simp: exec_popeq_def popeq_value_def)

lemma same_popeq_value: "agree s t \<Longrightarrow> same_outcome agree2 (popeq_value E s) (popeq_value E t)"
  unfolding popeq_value_def by (auto intro!: same_rules)

lemma popeq_iff:
  "exec_popeq E result_mode_verify r s = Ok s' \<longleftrightarrow> popeq_value E s = Ok (r, s')"
  "exec_popeq E result_mode_gather () t = Ok t' \<longleftrightarrow>
     (\<exists>v t0. popeq_value E t = Ok (v, t0) \<and> t' = push_event (Some (Read v)) t0)"
  by (auto simp: exec_popeq_value outcome_simps result_mode_verify_def result_mode_gather_def push_event_def
      split: if_splits)

lemma agree_read: "agree s t \<Longrightarrow> agree s (push_event (Some (Read v)) t)"
  by (simp add: agree_def push_event_def)

abbreviation forget :: "('f, aligned_value) op \<Rightarrow> ('f, unit) op" where
  "forget \<equiv> op_translate (\<lambda>_. ())"

lemma verify_op:
  assumes "agree s t" and "exec_op E result_mode_verify op s = Ok s'"
  obtains t' where "exec_op E result_mode_gather (forget op) t = Ok t'" and "agree s' t'"
proof (cases "\<exists>c r. op = Popeq c r")
  case True
  then obtain c r where op: "op = Popeq c r" by blast
  with assms have "popeq_value E s = Ok (r, s')" by (simp add: popeq_iff)
  then obtain t0 where "popeq_value E t = Ok (r, t0)" "agree s' t0"
    using same_popeq_value [OF assms(1), of E] by (cases "popeq_value E t") auto
  then show thesis using op by (intro that [of "push_event (Some (Read r)) t0"]) (auto simp: popeq_iff intro: agree_read)
next
  case False
  then show thesis
    using same_exec_op [OF assms(1), of op E "\<lambda>_. ()"] assms(2) that
    by (cases "exec_op E result_mode_gather (forget op) t") auto
qed

text \<open>The other way round, the transcript operation is filled in with the value that was read.\<close>

lemma gather_op:
  assumes "agree s t" and "exec_op E result_mode_gather op t = Ok t'"
  obtains op' s' where "forget op' = op" and "exec_op E result_mode_verify op' s = Ok s'" and "agree s' t'"
proof (cases "\<exists>c r. op = Popeq c r")
  case True
  then obtain c where op: "op = Popeq c ()" by auto
  with assms obtain v t0 where t0: "popeq_value E t = Ok (v, t0)" "t' = push_event (Some (Read v)) t0"
    by (auto simp: popeq_iff)
  then obtain s0 where "popeq_value E s = Ok (v, s0)" "agree s0 t0"
    using same_popeq_value [OF assms(1), of E] by (cases "popeq_value E s") auto
  then show thesis using op t0 by (intro that [of "Popeq c v" s0]) (auto simp: popeq_iff intro: agree_read)
next
  case False
  let ?op = "op_translate (\<lambda>_. av_unit) op"
  have op: "forget ?op = op" "\<And>c r. ?op \<noteq> Popeq c r" using False by (cases op; auto)+
  then show thesis
    using same_exec_op [OF assms(1) op(2), of E "\<lambda>_. ()"] assms(2) that [OF op(1)]
    by (cases "exec_op E result_mode_verify ?op s") auto
qed

section \<open>Programs\<close>

lemma stack_req_translate [simp]: "stack_req (op_translate f op) = stack_req op"
  by (cases op) auto

lemma same_op_skip: "agree s t \<Longrightarrow> same_outcome agree2 (op_skip op s) (op_skip (op_translate f op) t)"
  by (cases op) (auto intro!: same_rules)

text \<open>What \<open>step_op\<close> does after the operation itself.\<close>

definition after_op :: "('f, 'r) op \<Rightarrow> nat \<Rightarrow> ('f, 'ev) vm \<Rightarrow> ('f vm_error, nat \<times> ('f, 'ev) vm) outcome" where
  "after_op op len s = obind (op_skip op s) (\<lambda>(skip, s).
     if 1 + skip > Suc len then Err RanPastProgramEnd
     else if length (vm_stack s) > max_stack_height then Err StackOverflow
     else Ok (skip, s))"

lemma step_op_Ok:
  "step_op E mode op rest s = Ok x \<longleftrightarrow> stack_req op \<le> length (vm_stack s) \<and>
     (\<exists>s1. exec_op E mode op s = Ok s1 \<and> after_op op (length rest) s1 = Ok x)"
  by (auto simp: step_op_def after_op_def outcome_simps)

lemma same_after_op:
  "agree s t \<Longrightarrow> same_outcome agree2 (after_op op len s) (after_op (op_translate f op) len t)"
  unfolding after_op_def by (auto simp: agree_def intro!: same_obind [OF same_op_skip])

lemma verify_step:
  assumes "agree s t" and "step_op E result_mode_verify op rest s = Ok (k, s')"
  obtains t' where "step_op E result_mode_gather (forget op) (map forget rest) t = Ok (k, t')" and "agree s' t'"
proof -
  from assms(2) obtain s1 where req: "stack_req op \<le> length (vm_stack s)"
    and s1: "exec_op E result_mode_verify op s = Ok s1" "after_op op (length rest) s1 = Ok (k, s')"
    by (auto simp: step_op_Ok)
  obtain t1 where t1: "exec_op E result_mode_gather (forget op) t = Ok t1" "agree s1 t1"
    using verify_op [OF assms(1) s1(1)] by blast
  obtain t' where "after_op (forget op) (length rest) t1 = Ok (k, t')" "agree s' t'"
    using same_after_op [OF t1(2), of op "length rest" "\<lambda>_. ()"] s1(2)
    by (cases "after_op (forget op) (length rest) t1") auto
  then show thesis using req t1 agree_stack [OF assms(1)] by (intro that [of t']) (auto simp: step_op_Ok)
qed

lemma gather_step:
  assumes "agree s t" and "step_op E result_mode_gather op rest t = Ok (k, t')"
  obtains op' s' where "forget op' = op" and "agree s' t'"
    and "\<And>rest'. length rest' = length rest \<Longrightarrow> step_op E result_mode_verify op' rest' s = Ok (k, s')"
proof -
  from assms(2) obtain t1 where req: "stack_req op \<le> length (vm_stack t)"
    and t1: "exec_op E result_mode_gather op t = Ok t1" "after_op op (length rest) t1 = Ok (k, t')"
    by (auto simp: step_op_Ok)
  obtain op' s1 where op': "forget op' = op" "exec_op E result_mode_verify op' s = Ok s1" "agree s1 t1"
    using gather_op [OF assms(1) t1(1)] by blast
  obtain s' where "after_op op' (length rest) s1 = Ok (k, s')" "agree s' t'"
    using same_after_op [OF op'(3), of op' "length rest" "\<lambda>_. ()"] t1(2) op'(1)
    by (cases "after_op op' (length rest) s1") auto
  then show thesis using req op' agree_stack [OF assms(1)]
    by (intro that [of op' s']) (auto simp: step_op_Ok)
qed

lemma verify_run:
  assumes "agree s t" and "run_program_internal E result_mode_verify limit program s = Ok s'"
  shows "\<exists>t'. run_program_internal E result_mode_gather limit (map forget program) t = Ok t' \<and> agree s' t'"
  using assms
proof (induction program arbitrary: s t limit rule: length_induct)
  case (1 program)
  show ?case
  proof (cases program)
    case (Cons op rest)
    show ?thesis
    proof (cases "limit = Some 0")
      case False
      with 1 Cons obtain k s1 where s1: "step_op E result_mode_verify op rest s = Ok (k, s1)"
        and run: "run_program_internal E result_mode_verify (map_option (\<lambda>n. n - 1) limit) (drop k rest) s1 = Ok s'"
        by (auto simp: outcome_simps)
      obtain t1 where t1: "step_op E result_mode_gather (forget op) (map forget rest) t = Ok (k, t1)" "agree s1 t1"
        using verify_step [OF "1.prems"(1) s1] by blast
      have "length (drop k rest) < length program" using Cons by simp
      from "1.IH" [rule_format, OF this t1(2) run] show ?thesis using False Cons t1(1) by (auto simp: drop_map)
    qed (use 1 Cons in auto)
  qed (use 1 in auto)
qed

abbreviation fill :: "('f, unit) op list \<Rightarrow> ('f, aligned_value) op list" where
  "fill \<equiv> map (op_translate (\<lambda>_. av_unit))"

lemma forget_fill: "map forget (fill p) = p"
proof (induction p)
  case (Cons x p)
  then show ?case by (cases x) auto
qed simp

lemma gather_run:
  assumes "agree s t" and "run_program_internal E result_mode_gather limit program t = Ok t'"
  shows "\<exists>program' s'. map forget program' = program \<and>
    run_program_internal E result_mode_verify limit program' s = Ok s' \<and> agree s' t'"
  using assms
proof (induction program arbitrary: s t limit rule: length_induct)
  case (1 program)
  show ?case
  proof (cases program)
    case (Cons op rest)
    show ?thesis
    proof (cases "limit = Some 0")
      case True
      then show ?thesis using 1 Cons forget_fill [of program] by (intro exI [of _ "fill program"]) auto
    next
      case False
      with 1 Cons obtain k t1 where t1: "step_op E result_mode_gather op rest t = Ok (k, t1)"
        and run: "run_program_internal E result_mode_gather (map_option (\<lambda>n. n - 1) limit) (drop k rest) t1 = Ok t'"
        by (auto simp: outcome_simps)
      obtain op' s1 where op': "forget op' = op" "agree s1 t1"
        "\<And>rest'. length rest' = length rest \<Longrightarrow> step_op E result_mode_verify op' rest' s = Ok (k, s1)"
        using gather_step [OF "1.prems"(1) t1] by blast
      have "length (drop k rest) < length program" using Cons by simp
      from "1.IH" [rule_format, OF this op'(2) run] obtain p' s' where p': "map forget p' = drop k rest"
        "run_program_internal E result_mode_verify (map_option (\<lambda>n. n - 1) limit) p' s1 = Ok s'" "agree s' t'"
        by blast
      let ?rest = "fill (take k rest) @ p'"
      have rest: "map forget ?rest = rest" using forget_fill [of "take k rest"] p'(1) by simp
      then have "length ?rest = length rest" by (metis length_map)
      moreover have "drop k ?rest = p'" using p'(1) by (cases "k \<le> length rest") auto
      ultimately show ?thesis using False Cons op' p' rest
        by (intro exI [of _ "op' # ?rest"] exI [of _ s']) auto
    qed
  qed (use 1 in auto)
qed

section \<open>Properties\<close>

lemma agree_initial: "agree (initial_vm initial) (initial_vm initial)"
  by (simp add: agree_def initial_vm_def)

text \<open>Property C6. A transcript that verifies describes the call it claims to: when \<open>run_program\<close> accepts a
  program in verify mode, the program with the expected results removed runs in gather mode, to the same
  stack and the same gas, and logs the same values.\<close>

theorem verified_program_gathers:
  assumes "run_program E result_mode_verify initial program = Ok r"
  shows "\<exists>r'. run_program E result_mode_gather initial (map (op_translate (\<lambda>_. ())) program) = Ok r' \<and>
    vr_stack r' = vr_stack r \<and> vr_gas_cost r' = vr_gas_cost r \<and> vr_events r = logs (vr_events r')"
proof -
  from assms obtain s where s: "run_program_internal E result_mode_verify None program (initial_vm initial) = Ok s"
    and r: "r = \<lparr>vr_stack = rev (map fst (vm_stack s)), vr_events = vm_events s, vr_gas_cost = vm_gas s\<rparr>"
    by (auto simp: run_program_def run_program_step_limited_def outcome_simps)
  from verify_run [OF agree_initial s] show ?thesis
    by (auto simp: run_program_def run_program_step_limited_def r agree_def)
qed

theorem verified_program_gathers_witness:
  "\<exists>r'. run_program (example_env None) result_mode_gather [vnew Strong (Cell (av_of_u64 5))]
      (map (op_translate (\<lambda>_. ())) [Addi 3, Popeq False (av_of_u64 8)]) = Ok r' \<and> vr_stack r' = []"
proof -
  have "\<exists>r. run_program (example_env None) result_mode_verify [vnew Strong (Cell (av_of_u64 5))]
      [Addi 3, Popeq False (av_of_u64 8)] = Ok r \<and> vr_stack r = []"
    by (simp add: run_defs)
  then obtain r where r: "run_program (example_env None) result_mode_verify [vnew Strong (Cell (av_of_u64 5))]
      [Addi 3, Popeq False (av_of_u64 8)] = Ok r" "vr_stack r = []" by blast
  from verified_program_gathers [OF r(1)] show ?thesis unfolding r(2) by blast
qed

text \<open>Property C7. A gathered run has a transcript that verifies: when a program runs in gather mode, its
  \<open>popeq\<close> operations can be given results such that the program is accepted in verify mode, with the same
  stack and gas and the logged values as events.\<close>

theorem gathered_program_verifies:
  assumes "run_program E result_mode_gather initial program = Ok r'"
  shows "\<exists>program' r. map (op_translate (\<lambda>_. ())) program' = program \<and>
    run_program E result_mode_verify initial program' = Ok r \<and>
    vr_stack r = vr_stack r' \<and> vr_gas_cost r = vr_gas_cost r' \<and> vr_events r = logs (vr_events r')"
proof -
  from assms obtain t where t: "run_program_internal E result_mode_gather None program (initial_vm initial) = Ok t"
    and r': "r' = \<lparr>vr_stack = rev (map fst (vm_stack t)), vr_events = vm_events t, vr_gas_cost = vm_gas t\<rparr>"
    by (auto simp: run_program_def run_program_step_limited_def outcome_simps)
  from gather_run [OF agree_initial t] obtain p' s where p': "map forget p' = program"
    and s: "run_program_internal E result_mode_verify None p' (initial_vm initial) = Ok s" "agree s t"
    by blast
  show ?thesis
    by (rule exI [of _ p']) (use p' s in \<open>simp add: run_program_def run_program_step_limited_def r' agree_def\<close>)
qed

theorem gathered_program_verifies_witness:
  "\<exists>program' r. map (op_translate (\<lambda>_. ())) program' = [Addi 3, Popeq False ()] \<and>
     run_program (example_env None) result_mode_verify [vnew Strong (Cell (av_of_u64 5))] program' = Ok r \<and>
     vr_stack r = []"
proof -
  have "\<exists>r. run_program (example_env None) result_mode_gather [vnew Strong (Cell (av_of_u64 5))]
      [Addi 3, Popeq False ()] = Ok r \<and> vr_stack r = []"
    by (simp add: run_defs)
  then obtain r where r: "run_program (example_env None) result_mode_gather [vnew Strong (Cell (av_of_u64 5))]
      [Addi 3, Popeq False ()] = Ok r" "vr_stack r = []" by blast
  from gathered_program_verifies [OF r(1)] show ?thesis unfolding r(2)
    by (elim exE conjE) (intro exI conjI)
qed

end
