(* ===== verification/Onchain_Laws.thy ===== *)
theory Onchain_Laws
  imports Onchain_Safety
begin

text \<open>
  What individual operations of the virtual machine compute: the cache of visited keys, reading back
  what was inserted, the type tags of new containers, the checked arithmetic, and the size of
  concatenated cells.
\<close>

section \<open>The cache\<close>

lemma visit_again: "snd (visit_inner (fst (visit_inner c p)) p)"
proof (induction p arbitrary: c)
  case (Cons k p)
  obtain m where c: "c = InnerCache m" by (cases c)
  show ?case
  proof (cases m)
    case (Some f)
    show ?thesis using Cons.IH by (auto simp: c Some Let_def split: option.splits prod.splits) (metis fst_conv snd_conv)+
  qed (simp add: c)
qed simp

lemma visit_keeps: "snd (visit_inner c p) \<Longrightarrow> snd (visit_inner (fst (visit_inner c q)) p)"
proof (induction p arbitrary: c q)
  case (Cons k p)
  obtain m where c: "c = InnerCache m" by (cases c)
  show ?case
  proof (cases m)
    case (Some f)
    then obtain sub where sub: "fmlookup f k = Some sub" "snd (visit_inner sub p)"
      using Cons.prems by (auto simp: c Let_def split: option.splits prod.splits)
    show ?thesis
    proof (cases q)
      case (Cons j q')
      then show ?thesis
        using sub Cons.IH [of sub q'] by (auto simp: c Some Let_def split: option.splits prod.splits)
    qed (use Cons.prems in simp)
  qed (use c in \<open>cases q; simp\<close>)
qed simp

text \<open>The cache only grows: after \<open>Cache::visit\<close> of a key of the initial stack, visiting the
  same key again is a hit, and every key that was a hit before still is one. Hence a \<open>cached\<close> operation
  on a key that has been read does not fail with \<open>CacheMiss\<close>.\<close>

theorem cache_visit_grows:
  assumes "key_ok (length cache) k" and "cache_visit cache k = (Ok (cache', hit) :: ('f vm_error, _) outcome)"
  shows "(\<exists>c. cache_visit cache' k = (Ok (c, True) :: ('f vm_error, _) outcome)) \<and>
    (\<forall>k' c. cache_visit cache k' = (Ok (c, True) :: ('f vm_error, _) outcome) \<longrightarrow>
       (\<exists>c'. cache_visit cache' k' = (Ok (c', True) :: ('f vm_error, _) outcome)))"
proof (cases k)
  case (Some np)
  obtain n p where k: "k = Some (n, p)" using Some by (cases np) auto
  have n: "n < length cache" using assms(1) k by simp
  have cache': "cache' = cache[n := fst (visit_inner (cache ! n) p)]"
    using assms(2) n by (auto simp: k Let_def split: prod.splits)
  have again: "\<exists>c. cache_visit cache' k = (Ok (c, True) :: ('f vm_error, _) outcome)"
    using n visit_again [of "cache ! n" p] by (auto simp: k cache' Let_def split: prod.splits)
  have keeps: "\<exists>c'. cache_visit cache' k' = (Ok (c', True) :: ('f vm_error, _) outcome)"
    if hit: "cache_visit cache k' = (Ok (c, True) :: ('f vm_error, _) outcome)" for k' c
  proof (cases k')
    case (Some mq)
    obtain m q where k': "k' = Some (m, q)" using Some by (cases mq) auto
    have m: "m < length cache" "snd (visit_inner (cache ! m) q)"
      using hit by (auto simp: k' Let_def split: if_splits prod.splits)
    then have "snd (visit_inner (cache' ! m) q)"
      using visit_keeps [of "cache ! m" q p] n by (cases "m = n") (simp_all add: cache')
    moreover have "m < length cache'" using m by (simp add: cache')
    ultimately show ?thesis by (auto simp: k' Let_def split: prod.splits)
  qed simp
  show ?thesis using again keeps by blast
qed (use assms in simp)

theorem cache_visit_grows_witness:
  "\<exists>cache' c. cache_visit [InnerCache (Some fmempty)] (Some (0, [av_of_u64 1])) =
       (Ok (cache', False) :: (nat vm_error, _) outcome) \<and>
     cache_visit cache' (Some (0, [av_of_u64 1])) = (Ok (c, True) :: (nat vm_error, _) outcome)"
proof -
  let ?c = "[InnerCache (Some (fmupd (av_of_u64 1) (InnerCache (Some fmempty)) fmempty))]"
  have "cache_visit [InnerCache (Some fmempty)] (Some (0, [av_of_u64 1])) =
      (Ok (?c, False) :: (nat vm_error, _) outcome)"
    by simp
  moreover from this have "\<exists>c. cache_visit ?c (Some (0, [av_of_u64 1])) = (Ok (c, True) :: (nat vm_error, _) outcome)"
    using cache_visit_grows [of "[InnerCache (Some fmempty)]" "Some (0, [av_of_u64 1])" ?c False] by simp
  ultimately show ?thesis by blast
qed

section \<open>Insertion and lookup\<close>

lemma cache_visit_Ok: "key_ok (length cache) k \<Longrightarrow> \<exists>c hit. cache_visit cache k = Ok (c, hit)"
  by (cases k) (auto simp: Let_def split: prod.splits)

text \<open>Property C22. \<open>idx\<close> reads what \<open>ins\<close> wrote: after a successful insertion, indexing the new container at
  the same key returns the inserted value (for a bounded Merkle tree, the inserted hash as a cell),
  whatever the cache holds.\<close>

theorem ins_then_idx:
  assumes "ins_key C key container v = Ok container'" and "sv_ok C container"
    and "key_ok (length cache) ck"
  shows "\<exists>w cache'. vm_idx (vnew str container', ck) key cache False = Ok ((vnew str w, push_key ck key), cache') \<and>
    (case container of
       BoundedMerkleTree _ \<Rightarrow> \<exists>c h. v = Cell c \<and> hash_of_value (av_value c) = Ok h \<and> w = Cell (av_of_hash h)
     | _ \<Rightarrow> w = v)"
proof -
  obtain c hit where visit: "cache_visit cache (push_key ck key) = (Ok (c, hit) :: ('a vm_error, _) outcome)"
    using cache_visit_Ok [of cache "push_key ck key"] assms(3) by auto
  show ?thesis
  proof (cases container)
    case (BoundedMerkleTree t)
    with assms obtain i c h t' where i: "u64_of_value (av_value key) = Ok i" "i < 2 ^ mt_height t"
      and h: "v = Cell c" "hash_of_value (av_value c) = Ok h"
      and t': "mt_try_update_hash t i h () = Ok t'" "container' = BoundedMerkleTree (mt_rehash C t')"
      by (auto simp: outcome_simps decode_def bmt_update_def shl_bound_def tree_ok_def split: if_splits elim!: as_cell.elims)
    have wf: "mt_wf t" "mt_height t \<le> 32" using assms(2) BoundedMerkleTree by (auto simp: tree_ok_def)
    have "mt_cell t' i = Filled h ()" using mt_update_cell [OF t'(1) wf(1) i(2)] by simp
    then have "mt_index (mt_rehash C t') i = Some (h, ())" by (simp add: mt_index_cell del: mt_rehash.simps)
    moreover have "mt_height (mt_rehash C t') = mt_height t" using mt_update_height [OF t'(1) wf(1)] by simp
    ultimately show ?thesis using i h t' wf visit BoundedMerkleTree
      by (simp add: vm_idx_def decode_def shl_bound_def del: mt_rehash.simps)
  qed (use assms(1) visit in \<open>auto simp: vm_idx_def decode_def outcome_simps split: if_splits\<close>)
qed

theorem ins_then_idx_witness:
  "\<exists>w cache'. vm_idx (vnew Strong (Array [Null, Cell (av_of_u64 7)]), None) (av_of_u64 1) [] False =
     (Ok ((vnew Strong w, None), cache') :: (nat vm_error, _) outcome) \<and> w = Cell (av_of_u64 7)"
  using ins_then_idx [of byte_crypto "av_of_u64 1" "Array [Null, Null]" "Cell (av_of_u64 7)"
      "Array [Null, Cell (av_of_u64 7)]" "[]" None Strong]
  by (simp add: u8_of_value_def prim_of_value_def uint_of_atom_def u128_of_atom_def av_of_u64_def aligned_of_def
      decode_def u8_max_def push_key_def)

section \<open>Types of containers\<close>

lemma u8_roundtrip: "n < 256 \<Longrightarrow> u8_of_value (av_value (av_of_u8 n)) = Ok n"
  using u128_of_atom_of_u128 [of n]
  by (simp add: av_of_u8_def aligned_of_def u8_of_value_def prim_of_value_def uint_of_atom_def int_bounds_defs)

lemma u64_roundtrip: "n \<le> u64_max \<Longrightarrow> u64_of_value (av_value (av_of_u64 n)) = Ok n"
  using u128_of_atom_of_u128 [of n]
  by (simp add: av_of_u64_def aligned_of_def u64_of_value_def prim_of_value_def uint_of_atom_def int_bounds_defs)

text \<open>\<open>type\<close> is the inverse of \<open>new\<close>: for every type tag of a new value (a cell, null, an empty
  map, an array of at most 16 entries, a Merkle tree of height 1 to 32), \<open>new\<close> followed by \<open>type\<close> pushes
  the tag back.\<close>

theorem type_of_new:
  assumes "ve_limit E = None" and "vm_stack s = (vnew str (Cell (av_of_u8 tag)), ck) # rest"
    and "tag < 3 \<or> tag mod 8 = 3 \<and> tag div 8 \<le> 16 \<or> tag mod 8 = 4 \<and> tag < 256"
  shows "\<exists>s1 s2. exec_new E s = Ok s1 \<and> exec_type E s1 = Ok s2 \<and>
    vm_stack s2 = (vnew Strong (Cell (av_of_u8 tag)), None) # rest"
proof -
  have tag: "tag < 256" using assms(3) by presburger
  have "tag = 0 \<or> tag = 1 \<or> tag = 2 \<or> tag mod 8 = 3 \<and> tag div 8 \<le> 16 \<and> 3 + tag div 8 * 8 = tag \<or>
      tag mod 8 = 4 \<and> 4 + tag div 8 * 8 = tag"
    using assms(3) by presburger
  then consider (cell) "tag = 0" | (null) "tag = 1" | (map) "tag = 2"
    | (array) "tag mod 8 = 3" "tag div 8 \<le> 16" "3 + tag div 8 * 8 = tag"
    | (bmt) "tag mod 8 = 4" "4 + tag div 8 * 8 = tag"
    by blast
  then show ?thesis
    using assms(2) tag
    by cases (auto simp: exec_new_def exec_type_def pop_cell_def vm_pop_def vm_push_def push_cell_def
        decode_def u8_roundtrip mt_blank_def Let_def incr_gas_def incr_gas_full_def assms(1))
qed

theorem type_of_new_witness:
  "\<exists>s1 s2. exec_new (example_env None) (initial_vm [vnew Strong (Cell (av_of_u8 27))] :: (nat, unit) vm) = Ok s1 \<and>
     exec_type (example_env None) s1 = Ok s2 \<and> vm_stack s2 = [(vnew Strong (Cell (av_of_u8 27)), None)]"
  using type_of_new [of "example_env None" "initial_vm [vnew Strong (Cell (av_of_u8 27))] :: (nat, unit) vm" Strong 27]
  by (simp add: example_env_def initial_vm_def)

section \<open>Arithmetic\<close>

text \<open>The arithmetic of the machine is exact or fails: on \<open>u64\<close> cells, \<open>add\<close> pushes the sum and
  \<open>sub\<close> the difference of the lower and the upper operand, and both fail with \<open>ArithmeticOverflow\<close> when
  the result is not a \<open>u64\<close>.\<close>

theorem arithmetic_exact:
  assumes "ve_limit E = None" and "a \<le> u64_max" and "b \<le> u64_max"
    and "vm_stack s = (vnew sa (Cell (av_of_u64 a)), ka) # (vnew sb (Cell (av_of_u64 b)), kb) # rest"
  shows "(case exec_add E s of
        Ok s' \<Rightarrow> b + a \<le> u64_max \<and> vm_stack s' = (vnew Strong (Cell (av_of_u64 (b + a))), None) # rest
      | Err e \<Rightarrow> e = ArithmeticOverflow \<and> b + a > u64_max
      | Panic \<Rightarrow> False) \<and>
    (case exec_sub E s of
        Ok s' \<Rightarrow> a \<le> b \<and> vm_stack s' = (vnew Strong (Cell (av_of_u64 (b - a))), None) # rest
      | Err e \<Rightarrow> e = ArithmeticOverflow \<and> a > b
      | Panic \<Rightarrow> False)"
  using assms
  by (auto simp: exec_add_def exec_sub_def vm_add_def vm_sub_def pop_cell_def vm_pop_def vm_push_def push_cell_def
      decode_def u64_roundtrip incr_gas_def incr_gas_full_def Let_def add.commute)

theorem arithmetic_exact_witness:
  "\<exists>s'. exec_sub (example_env None)
       (initial_vm [vnew Strong (Cell (av_of_u64 9)), vnew Strong (Cell (av_of_u64 7))] :: (nat, unit) vm) = Ok s' \<and>
     vm_stack s' = [(vnew Strong (Cell (av_of_u64 2)), None)]"
  using arithmetic_exact [of "example_env None" 7 9
      "initial_vm [vnew Strong (Cell (av_of_u64 9)), vnew Strong (Cell (av_of_u64 7))] :: (nat, unit) vm" Strong "Some (1, [])"
      Strong "Some (0, [])" "[]"]
  by (auto simp: example_env_def initial_vm_def u64_max_def split: outcome.splits)

section \<open>The size of concatenated cells\<close>

abbreviation big_cell :: aligned_value where
  "big_cell \<equiv> \<lparr>av_value = [replicate 16380 1], av_alignment = [Atom Compress]\<rparr>"

lemmas size_defs = av_serialized_size_def value_serialized_size_def alignment_serialized_size_def
  alignment_size_with_def va_serialized_size_def va_size_normal_def flagged_int_size_def is_in_normal_form_def

text \<open>\<open>concat\<close> checks the sizes of its operands, not of its result: two cells within
  \<open>CELL_BOUND\<close> whose sizes add up to it are concatenated to a cell that is larger, and that
  \<open>StateValue::invariant\<close> rejects when the state is read back from storage.\<close>

theorem concat_exceeds_cell_bound:
  "\<exists>c. vm_concat big_cell big_cell cell_bound = Ok c \<and> sv_invariant C (Cell big_cell) \<and> \<not> sv_invariant C (Cell c)"
proof -
  let ?c = "\<lparr>av_value = [replicate 16380 1, replicate 16380 1], av_alignment = [Atom Compress, Atom Compress]\<rparr>"
  have "vm_concat big_cell big_cell cell_bound = Ok ?c"
    by (simp add: vm_concat_def value_concat_def alignment_concat_def av_new_def alignment_fits_def
        alignment_consume_def cell_bound_def size_defs)
  moreover have "sv_invariant C (Cell big_cell)" by (simp add: cell_bound_def size_defs)
  moreover have "\<not> sv_invariant C (Cell ?c)" by (simp add: cell_bound_def size_defs)
  ultimately show ?thesis by blast
qed

end
