(* ===== verification/Zswap_Offer.thy ===== *)
theory Zswap_Offer
  imports Merkle_Paths "HOL-Library.Product_Lexorder" "HOL-Library.Option_ord" "HOL-Library.Multiset"
begin

text \<open>
  \<open>zswap/src/structure.rs\<close> and \<open>zswap/src/verify.rs\<close>: the offers of the shielded token protocol, their normal
  form, merging, and the check that gives the value commitment of an offer.

  Hash outputs (nullifiers, commitments, addresses, token types) are 32 bytes, read here as numbers; they are
  only compared. Field elements \<open>'f\<close>, group elements \<open>'g\<close>, ciphertexts \<open>'c\<close> and proofs \<open>'p\<close> are type
  parameters. The Pedersen commitment to a value and the proof verifier come from outside and are arguments.
  Arrays are lists. The derived order of a struct is the lexicographic order of its fields.
\<close>

section \<open>Offers\<close>

definition zswap_tree_height :: nat where
  "zswap_tree_height = 32"

type_synonym hash_output = nat
type_synonym contract_address = hash_output

datatype ('f, 'g, 'p) zswap_input = Input
  (in_nullifier: hash_output) (in_value_commitment: 'g) (in_contract_address: "contract_address option")
  (in_merkle_tree_root: 'f) (in_proof: 'p)

datatype ('g, 'c, 'p) zswap_output = Output
  (out_coin_com: hash_output) (out_value_commitment: 'g) (out_contract_address: "contract_address option")
  (out_ciphertext: "'c option") (out_proof: 'p)

datatype ('g, 'c, 'p) transient = Transient
  (tr_nullifier: hash_output) (tr_coin_com: hash_output) (value_commitment_input: 'g) (value_commitment_output: 'g)
  (tr_contract_address: "contract_address option") (tr_ciphertext: "'c option") (proof_input: 'p) (proof_output: 'p)

datatype delta = Delta (token_type: hash_output) (delta_value: int)

record ('f, 'g, 'c, 'p) offer =
  offer_inputs :: "('f, 'g, 'p) zswap_input list"
  offer_outputs :: "('g, 'c, 'p) zswap_output list"
  offer_transient :: "('g, 'c, 'p) transient list"
  offer_deltas :: "delta list"

datatype 'c malformed_offer =
    InvalidProof
  | ContractSentCiphertext contract_address 'c
  | NonDisjointCoinMerge
  | NotNormalized

subsection \<open>The derived orders\<close>

definition input_key :: "('f, 'g, 'p) zswap_input \<Rightarrow> hash_output \<times> 'g \<times> contract_address option \<times> 'f \<times> 'p" where
  "input_key i = (in_nullifier i, in_value_commitment i, in_contract_address i, in_merkle_tree_root i, in_proof i)"

definition output_key :: "('g, 'c, 'p) zswap_output \<Rightarrow> hash_output \<times> 'g \<times> contract_address option \<times> 'c option \<times> 'p" where
  "output_key i = (out_coin_com i, out_value_commitment i, out_contract_address i, out_ciphertext i, out_proof i)"

definition transient_key :: "('g, 'c, 'p) transient \<Rightarrow>
    hash_output \<times> hash_output \<times> 'g \<times> 'g \<times> contract_address option \<times> 'c option \<times> 'p \<times> 'p" where
  "transient_key t = (tr_nullifier t, tr_coin_com t, value_commitment_input t, value_commitment_output t,
     tr_contract_address t, tr_ciphertext t, proof_input t, proof_output t)"

lemma key_inj:
  shows "input_key i = input_key j \<longleftrightarrow> i = j" and "output_key u = output_key w \<longleftrightarrow> u = w"
    and "transient_key s = transient_key t \<longleftrightarrow> s = t"
  by (cases i; cases j; simp add: input_key_def) (cases u; cases w; cases s; cases t; auto simp: output_key_def transient_key_def)+

instantiation zswap_input :: (linorder, linorder, linorder) linorder
begin
definition less_eq_zswap_input :: "('a, 'b, 'c) zswap_input \<Rightarrow> ('a, 'b, 'c) zswap_input \<Rightarrow> bool" where
  "i \<le> j \<longleftrightarrow> input_key i \<le> input_key j"
definition less_zswap_input :: "('a, 'b, 'c) zswap_input \<Rightarrow> ('a, 'b, 'c) zswap_input \<Rightarrow> bool" where
  "i < j \<longleftrightarrow> input_key i < input_key j"
instance
  by standard (auto simp: less_eq_zswap_input_def less_zswap_input_def less_le_not_le dest: antisym simp flip: key_inj)
end

instantiation zswap_output :: (linorder, linorder, linorder) linorder
begin
definition less_eq_zswap_output :: "('a, 'b, 'c) zswap_output \<Rightarrow> ('a, 'b, 'c) zswap_output \<Rightarrow> bool" where
  "i \<le> j \<longleftrightarrow> output_key i \<le> output_key j"
definition less_zswap_output :: "('a, 'b, 'c) zswap_output \<Rightarrow> ('a, 'b, 'c) zswap_output \<Rightarrow> bool" where
  "i < j \<longleftrightarrow> output_key i < output_key j"
instance
  by standard (auto simp: less_eq_zswap_output_def less_zswap_output_def less_le_not_le dest: antisym simp flip: key_inj)
end

instantiation transient :: (linorder, linorder, linorder) linorder
begin
definition less_eq_transient :: "('a, 'b, 'c) transient \<Rightarrow> ('a, 'b, 'c) transient \<Rightarrow> bool" where
  "i \<le> j \<longleftrightarrow> transient_key i \<le> transient_key j"
definition less_transient :: "('a, 'b, 'c) transient \<Rightarrow> ('a, 'b, 'c) transient \<Rightarrow> bool" where
  "i < j \<longleftrightarrow> transient_key i < transient_key j"
instance
  by standard (auto simp: less_eq_transient_def less_transient_def less_le_not_le dest: antisym simp flip: key_inj)
end

section \<open>Normal form and merging\<close>

text \<open>\<open>*entry = (*entry).saturating_add(v)\<close> on a \<open>BTreeMap\<close>, a list sorted by strictly increasing keys.\<close>

fun delta_add :: "('t :: linorder \<times> int) list \<Rightarrow> 't \<Rightarrow> int \<Rightarrow> ('t \<times> int) list" where
  "delta_add [] k v = [(k, clamp_i128 (0 + v))]"
| "delta_add ((k', v') # m) k v =
     (if k < k' then (k, clamp_i128 (0 + v)) # (k', v') # m
      else if k = k' then (k, clamp_i128 (v' + v)) # m
      else (k', v') # delta_add m k v)"

definition normalize_deltas :: "('t :: linorder \<times> int) list \<Rightarrow> ('t \<times> int) list" where
  "normalize_deltas deltas =
     sort (filter (\<lambda>d. snd d \<noteq> 0) (foldl (\<lambda>m d. delta_add m (fst d) (snd d)) [] deltas))"

definition offer_normalize :: "('f :: linorder, 'g :: linorder, 'c :: linorder, 'p :: linorder) offer \<Rightarrow> ('f, 'g, 'c, 'p) offer" where
  "offer_normalize off =
     \<lparr>offer_inputs = sort (offer_inputs off), offer_outputs = sort (offer_outputs off), offer_transient = sort (offer_transient off),
      offer_deltas = map (\<lambda>d. Delta (fst d) (snd d))
        (normalize_deltas (map (\<lambda>d. (token_type d, delta_value d)) (offer_deltas off)))\<rparr>"

definition offer_merge :: "('f :: linorder, 'g :: linorder, 'c :: linorder, 'p :: linorder) offer \<Rightarrow> ('f, 'g, 'c, 'p) offer \<Rightarrow>
    ('c malformed_offer, ('f, 'g, 'c, 'p) offer) outcome" where
  "offer_merge self other =
     (let inputs1 = set (offer_inputs self); inputs2 = set (offer_inputs other);
          outputs1 = set (offer_outputs self); outputs2 = set (offer_outputs other);
          transient1 = set (offer_transient self); transient2 = set (offer_transient other) in
      if inputs1 \<inter> inputs2 = {} \<and> outputs1 \<inter> outputs2 = {} \<and> transient1 \<inter> transient2 = {}
      then Ok (offer_normalize
        \<lparr>offer_inputs = sorted_list_of_set inputs1 @ sorted_list_of_set inputs2,
         offer_outputs = sorted_list_of_set outputs1 @ sorted_list_of_set outputs2,
         offer_transient = sorted_list_of_set transient1 @ sorted_list_of_set transient2,
         offer_deltas = offer_deltas self @ offer_deltas other\<rparr>)
      else Err NonDisjointCoinMerge)"

section \<open>Well-formedness\<close>

text \<open>A transient coin is an output and an input that spends it, against the tree that holds only this coin.\<close>

definition as_input :: "(hash_output, 'f) mcrypto \<Rightarrow> ('g, 'c, 'p) transient \<Rightarrow> ('e, ('f, 'g, 'p) zswap_input) outcome" where
  "as_input C t =
     (case mt_try_update_hash (mt_blank zswap_tree_height) 0 (tr_coin_com t) () of
        Ok tree \<Rightarrow> (case mt_root C (mt_rehash C tree) of
            Some root \<Rightarrow> Ok (Input (tr_nullifier t) (value_commitment_input t) (tr_contract_address t) root (proof_input t))
          | None \<Rightarrow> Panic)
      | _ \<Rightarrow> Panic)"

definition as_output :: "('g, 'c, 'p) transient \<Rightarrow> ('g, 'c, 'p) zswap_output" where
  "as_output t = Output (tr_coin_com t) (value_commitment_output t) (tr_contract_address t) (tr_ciphertext t) (proof_output t)"

text \<open>The verifiers of the spend and output circuits, as functions of the public data and the segment.\<close>

record ('f, 'g, 'c, 'p) zswap_verifier =
  spend_verifies :: "('f, 'g, 'p) zswap_input \<Rightarrow> nat \<Rightarrow> bool"
  output_verifies :: "('g, 'c, 'p) zswap_output \<Rightarrow> nat \<Rightarrow> bool"

definition input_well_formed :: "('f, 'g, 'c, 'p) zswap_verifier \<Rightarrow> ('f, 'g, 'p) zswap_input \<Rightarrow> nat \<Rightarrow> ('c malformed_offer, unit) outcome" where
  "input_well_formed V i segment = ensure (spend_verifies V i segment) InvalidProof"

definition output_well_formed :: "('f, 'g, 'c, 'p) zswap_verifier \<Rightarrow> ('g, 'c, 'p) zswap_output \<Rightarrow> nat \<Rightarrow> ('c malformed_offer, unit) outcome" where
  "output_well_formed V u segment = (case (out_contract_address u, out_ciphertext u) of
       (Some address, Some ciphertext) \<Rightarrow> Err (ContractSentCiphertext address ciphertext)
     | _ \<Rightarrow> ensure (output_verifies V u segment) InvalidProof)"

definition transient_well_formed :: "(hash_output, 'f) mcrypto \<Rightarrow> ('f, 'g, 'c, 'p) zswap_verifier \<Rightarrow> ('g, 'c, 'p) transient \<Rightarrow> nat \<Rightarrow>
    ('c malformed_offer, unit) outcome" where
  "transient_well_formed C V t segment = obind (as_input C t) (\<lambda>i.
     obind (input_well_formed V i segment) (\<lambda>_. output_well_formed V (as_output t) segment))"

definition offer_normal :: "('f :: linorder, 'g :: linorder, 'c :: linorder, 'p :: linorder) offer \<Rightarrow> bool" where
  "offer_normal off \<longleftrightarrow> sorted (offer_inputs off) \<and> sorted (offer_outputs off) \<and> sorted (offer_transient off) \<and>
     list_all (\<lambda>i. token_type (offer_deltas off ! i) < token_type (offer_deltas off ! (i + 1))) [0..<length (offer_deltas off) - 1] \<and>
     list_all (\<lambda>d. delta_value d \<noteq> 0) (offer_deltas off)"

definition offer_well_formed_common ::
  "(hash_output \<times> nat \<Rightarrow> int \<Rightarrow> 'g) \<Rightarrow> ('f :: linorder, 'g :: {linorder, ab_group_add}, 'c :: linorder, 'p :: linorder) offer \<Rightarrow> nat \<Rightarrow>
     ('c malformed_offer, 'g) outcome" where
  "offer_well_formed_common commit off segment =
     (if \<not> offer_normal off then Err NotNormalized
      else let
        io_com = foldl (+) 0 (map in_value_commitment (offer_inputs off) @ map (\<lambda>u. - out_value_commitment u) (offer_outputs off) @
          map (\<lambda>t. value_commitment_input t - value_commitment_output t) (offer_transient off));
        deltas_com = foldl (+) 0 (map (\<lambda>d. commit (token_type d, segment) (delta_value d)) (offer_deltas off)) in
      Ok (io_com - deltas_com))"

definition offer_well_formed ::
  "(hash_output \<times> nat \<Rightarrow> int \<Rightarrow> 'g) \<Rightarrow> (hash_output, 'f) mcrypto \<Rightarrow> ('f, 'g, 'c, 'p) zswap_verifier \<Rightarrow>
     ('f :: linorder, 'g :: {linorder, ab_group_add}, 'c :: linorder, 'p :: linorder) offer \<Rightarrow> nat \<Rightarrow> ('c malformed_offer, 'g) outcome" where
  "offer_well_formed commit C V off segment =
     obind (try_fold (\<lambda>_ i. input_well_formed V i segment) () (offer_inputs off)) (\<lambda>_.
     obind (try_fold (\<lambda>_ u. output_well_formed V u segment) () (offer_outputs off)) (\<lambda>_.
     obind (try_fold (\<lambda>_ t. transient_well_formed C V t segment) () (offer_transient off)) (\<lambda>_.
       offer_well_formed_common commit off segment)))"

section \<open>Normalized deltas\<close>

definition delta_of :: "('t \<times> int) list \<Rightarrow> 't \<Rightarrow> int" where
  "delta_of m k = (case map_of m k of Some v \<Rightarrow> v | None \<Rightarrow> 0)"

lemma delta_of_simps [simp]:
  "delta_of [] k = 0" "delta_of (d # m) k = (if k = fst d then snd d else delta_of m k)"
  by (auto simp: delta_of_def split: option.splits)

lemma delta_of_outside: "k \<notin> fst ` set m \<Longrightarrow> delta_of m k = 0"
  by (induction m) auto

lemma delta_add_keys: "fst ` set (delta_add m k v) = insert k (fst ` set m)"
  by (induction m k v rule: delta_add.induct) auto

lemma delta_add_sorted: "sorted_wrt (<) (map fst m) \<Longrightarrow> sorted_wrt (<) (map fst (delta_add m k v))"
proof (induction m k v rule: delta_add.induct)
  case (2 k' v' m k v)
  have "k' < x" if "k' < k" "x \<in> set (map fst (delta_add m k v))" for x
    using that 2 delta_add_keys [of m k v] by auto
  then show ?case using 2 by auto
qed simp

lemma delta_add_of:
  "sorted_wrt (<) (map fst m) \<Longrightarrow> delta_of (delta_add m k v) j = (if j = k then clamp_i128 (delta_of m k + v) else delta_of m j)"
proof (induction m k v rule: delta_add.induct)
  case (2 k' v' m k v)
  moreover have "delta_of m k = 0" if "k < k'" using that 2 by (intro delta_of_outside) auto
  ultimately show ?case by auto
qed auto

abbreviation add_all :: "('t :: linorder \<times> int) list \<Rightarrow> ('t \<times> int) list \<Rightarrow> ('t \<times> int) list" where
  "add_all \<equiv> foldl (\<lambda>m d. delta_add m (fst d) (snd d))"

lemma add_all_sorted: "sorted_wrt (<) (map fst m) \<Longrightarrow> sorted_wrt (<) (map fst (add_all m ds))"
  by (induction ds arbitrary: m) (auto simp: delta_add_sorted)

lemma add_all_of:
  assumes "sorted_wrt (<) (map fst m)" "distinct (map fst ds)" "\<And>k. is_i128 (delta_of m k + delta_of ds k)"
  shows "delta_of (add_all m ds) k = delta_of m k + delta_of ds k"
  using assms
proof (induction ds arbitrary: m)
  case (Cons d ds)
  let ?m = "delta_add m (fst d) (snd d)"
  have out: "delta_of ds (fst d) = 0" using Cons.prems(2) by (intro delta_of_outside) auto
  have of: "delta_of ?m j = (if j = fst d then delta_of m (fst d) + snd d else delta_of m j)" for j
    using delta_add_of [OF Cons.prems(1), of "fst d" "snd d" j] Cons.prems(3) [of "fst d"] by (simp add: clamp_i128_id)
  have "is_i128 (delta_of ?m j + delta_of ds j)" for j
    using Cons.prems(3) [of j] of [of j] out by (auto split: if_splits)
  then show ?case using Cons.IH [of ?m] Cons.prems delta_add_sorted [OF Cons.prems(1), of "fst d" "snd d"] of out by auto
qed simp

lemma sorted_pairs: "sorted_wrt (<) (map fst m) \<Longrightarrow> sorted (m :: ('t :: linorder \<times> int) list)"
  unfolding sorted_wrt_map by (rule sorted_wrt_mono_rel [of _ "\<lambda>x y. fst x < fst y"]) (auto simp: less_eq_prod_def)

lemma sorted_filter_keys: "sorted_wrt (<) (map fst m) \<Longrightarrow> sorted_wrt (<) (map fst (filter P m))"
  unfolding sorted_wrt_map by (rule sorted_wrt_filter)

lemma normalize_deltas_sort: "normalize_deltas ds = filter (\<lambda>d. snd d \<noteq> 0) (add_all [] ds)"
  unfolding normalize_deltas_def by (intro sort_key_id_if_sorted [of "\<lambda>x. x", simplified] sorted_pairs sorted_filter_keys add_all_sorted) simp

lemma normalize_deltas_normal:
  "sorted_wrt (<) (map fst (normalize_deltas ds))" "list_all (\<lambda>d. snd d \<noteq> 0) (normalize_deltas ds)"
  unfolding normalize_deltas_sort by (auto intro!: sorted_filter_keys add_all_sorted simp: list_all_iff)

lemma delta_of_filter: "distinct (map fst m) \<Longrightarrow> delta_of (filter (\<lambda>d. snd d \<noteq> 0) m) k = delta_of m k"
proof (induction m)
  case (Cons d m)
  moreover have "delta_of (filter (\<lambda>d. snd d \<noteq> 0) m) (fst d) = 0" using Cons.prems by (intro delta_of_outside) auto
  ultimately show ?case by auto
qed simp

lemma sorted_keys_distinct: "sorted_wrt (<) (map fst m) \<Longrightarrow> distinct (map fst (m :: ('t :: linorder \<times> int) list))"
  using strict_sorted_iff by blast

text \<open>A normalized list of deltas is determined by the value of each token type.\<close>

lemma normal_deltas_unique:
  assumes m: "sorted_wrt (<) (map fst m)" "list_all (\<lambda>d. snd d \<noteq> 0) m" and m': "sorted_wrt (<) (map fst m')" "list_all (\<lambda>d. snd d \<noteq> 0) m'"
    and eq: "\<And>k. delta_of m k = delta_of m' k"
  shows "m = (m' :: ('t :: linorder \<times> int) list)"
proof -
  have mem: "(k, v) \<in> set l \<longleftrightarrow> v \<noteq> 0 \<and> delta_of l k = v" if "sorted_wrt (<) (map fst l)" "list_all (\<lambda>d. snd d \<noteq> 0) l" for l :: "('t \<times> int) list" and k v
  proof -
    have "map_of l k = Some v \<longleftrightarrow> (k, v) \<in> set l" using sorted_keys_distinct [OF that(1)] by simp
    then show ?thesis using that(2) by (auto simp: delta_of_def list_all_iff split: option.splits dest: map_of_SomeD)
  qed
  have "set m = set m'" using mem [OF m] mem [OF m'] eq by auto
  moreover have "distinct m" "distinct m'" using sorted_keys_distinct [OF m(1)] sorted_keys_distinct [OF m'(1)] by (auto simp: distinct_map)
  ultimately show ?thesis using sorted_pairs m(1) m'(1) by (intro sorted_distinct_set_unique)
qed

lemma com_sum:
  fixes f :: "'t \<Rightarrow> int \<Rightarrow> 'g :: ab_group_add"
  assumes "distinct (map fst m)" "finite K" "fst ` set m \<subseteq> K" "\<And>k. f k 0 = 0"
  shows "sum_list (map (\<lambda>d. f (fst d) (snd d)) m) = (\<Sum>k\<in>K. f k (delta_of m k))"
  using assms(1,3)
proof (induction m)
  case (Cons d m)
  have "(\<Sum>k\<in>K. f k (delta_of m k)) = (\<Sum>k\<in>K - {fst d}. f k (delta_of m k))"
    using Cons.prems assms(2,4) delta_of_outside [of "fst d" m] by (subst sum.remove [of K "fst d"]) auto
  moreover have "(\<Sum>k\<in>K. f k (delta_of (d # m) k)) = f (fst d) (snd d) + (\<Sum>k\<in>K - {fst d}. f k (delta_of m k))"
    using Cons.prems assms(2) by (subst sum.remove [of K "fst d"]) auto
  ultimately show ?case using Cons by simp
qed (simp add: assms(4))

section \<open>Merging\<close>

abbreviation delta_pairs :: "('f, 'g, 'c, 'p) offer \<Rightarrow> (hash_output \<times> int) list" where
  "delta_pairs off \<equiv> map (\<lambda>d. (token_type d, delta_value d)) (offer_deltas off)"

lemma windows_sorted:
  "list_all (\<lambda>i. (f (xs ! i) :: 'a :: linorder) < f (xs ! (i + 1))) [0..<length xs - 1] \<longleftrightarrow> sorted_wrt (<) (map f xs)"
  by (auto simp: list_all_iff sorted_wrt_iff_nth_Suc_transp)

lemma offer_normal_iff:
  "offer_normal off \<longleftrightarrow> sorted (offer_inputs off) \<and> sorted (offer_outputs off) \<and> sorted (offer_transient off) \<and>
     sorted_wrt (<) (map fst (delta_pairs off)) \<and> list_all (\<lambda>d. snd d \<noteq> 0) (delta_pairs off)"
  unfolding offer_normal_def windows_sorted by (simp add: comp_def list_all_iff)

lemma foldl_sum_list: "foldl (+) a xs = (a :: 'g :: ab_group_add) + sum_list xs"
  by (induction xs arbitrary: a) (auto simp: algebra_simps)

lemma sum_list_neg: "sum_list (map (\<lambda>x. - f x) xs) = - sum_list (map f xs :: 'g :: ab_group_add list)"
  by (induction xs) auto

definition offer_value :: "(hash_output \<times> nat \<Rightarrow> int \<Rightarrow> 'g) \<Rightarrow> ('f, 'g :: ab_group_add, 'c, 'p) offer \<Rightarrow> nat \<Rightarrow> 'g" where
  "offer_value commit off segment =
     sum_list (map in_value_commitment (offer_inputs off)) - sum_list (map out_value_commitment (offer_outputs off)) +
     sum_list (map (\<lambda>t. value_commitment_input t - value_commitment_output t) (offer_transient off)) -
     sum_list (map (\<lambda>d. commit (fst d, segment) (snd d)) (delta_pairs off))"

lemma well_formed_common_eq:
  "offer_well_formed_common commit off segment =
     (if offer_normal off then Ok (offer_value commit off segment) else Err NotNormalized)"
  by (simp add: offer_well_formed_common_def foldl_sum_list offer_value_def comp_def sum_list_neg)

lemma sum_list_sort: "sum_list (map f (sort xs)) = (sum_list (map f xs) :: 'g :: ab_group_add)"
  by (metis mset_map mset_sort sum_mset_sum_list)

lemma sort_append_comm: "sort (xs @ ys) = sort (ys @ xs)"
  by (intro properties_for_sort) (auto simp: ac_simps)

text \<open>What \<open>merge\<close> returns for offers in normal form without repeated coins.\<close>

definition coins_distinct :: "('f, 'g, 'c, 'p) offer \<Rightarrow> bool" where
  "coins_distinct off \<longleftrightarrow> distinct (offer_inputs off) \<and> distinct (offer_outputs off) \<and> distinct (offer_transient off)"

lemma sorted_set_id: "sorted xs \<Longrightarrow> distinct xs \<Longrightarrow> sorted_list_of_set (set xs) = xs"
  by (simp add: sorted_list_of_set_sort_remdups distinct_remdups_id sort_key_id_if_sorted [of "\<lambda>x. x", simplified])

lemma merge_result:
  assumes "offer_normal a" "offer_normal b" "coins_distinct a" "coins_distinct b" "offer_merge a b = Ok c"
  shows "c = \<lparr>offer_inputs = sort (offer_inputs a @ offer_inputs b), offer_outputs = sort (offer_outputs a @ offer_outputs b),
    offer_transient = sort (offer_transient a @ offer_transient b),
    offer_deltas = map (\<lambda>d. Delta (fst d) (snd d)) (normalize_deltas (delta_pairs a @ delta_pairs b))\<rparr>"
  using assms by (simp add: offer_merge_def Let_def offer_normalize_def offer_normal_def coins_distinct_def sorted_set_id split: if_splits)

lemma merged_deltas:
  assumes "offer_normal a" "offer_normal b" "\<And>k. is_i128 (delta_of (delta_pairs a) k)"
    and "\<And>k. is_i128 (delta_of (delta_pairs a) k + delta_of (delta_pairs b) k)"
  shows "delta_of (normalize_deltas (delta_pairs a @ delta_pairs b)) k = delta_of (delta_pairs a) k + delta_of (delta_pairs b) k"
proof -
  have d: "distinct (map fst (delta_pairs a))" "distinct (map fst (delta_pairs b))"
    using assms(1,2) sorted_keys_distinct unfolding offer_normal_iff by blast+
  have a: "delta_of (add_all [] (delta_pairs a)) k = delta_of (delta_pairs a) k" for k
    using add_all_of [of "[]" "delta_pairs a" k] d assms(3) by simp
  have s: "sorted_wrt (<) (map fst (add_all [] (delta_pairs a)))" by (rule add_all_sorted) simp
  have "delta_of (add_all (add_all [] (delta_pairs a)) (delta_pairs b)) k = delta_of (delta_pairs a) k + delta_of (delta_pairs b) k"
    using add_all_of [OF s d(2), of k] assms(4) a by simp
  moreover have "distinct (map fst (add_all [] (delta_pairs a @ delta_pairs b)))"
    by (intro sorted_keys_distinct add_all_sorted) simp
  ultimately show ?thesis by (simp add: normalize_deltas_sort delta_of_filter)
qed

lemma merge_normal:
  "offer_normal \<lparr>offer_inputs = sort is, offer_outputs = sort us, offer_transient = sort ts,
     offer_deltas = map (\<lambda>d. Delta (fst d) (snd d)) (normalize_deltas ds)\<rparr>"
  using normalize_deltas_normal [of ds] by (simp add: offer_normal_iff comp_def list_all_iff)

text \<open>
  Property C35. Merging two well-formed offers without repeated coins, whose values for each token type stay within \<open>i128\<close> when
  added, gives a well-formed offer, and its value commitment is the sum of theirs when Pedersen commitments
  are additive. So balanced offers merge into balanced offers. The order of the two does not matter.
\<close>

theorem merge_adds_values:
  assumes additive: "\<And>k x y. commit k (x + y) = commit k x + commit k y"
    and a: "offer_well_formed_common commit a segment = Ok v" "coins_distinct a"
    and b: "offer_well_formed_common commit b segment = Ok w" "coins_distinct b"
    and range: "\<And>k. is_i128 (delta_of (delta_pairs a) k)" "\<And>k. is_i128 (delta_of (delta_pairs b) k)"
      "\<And>k. is_i128 (delta_of (delta_pairs a) k + delta_of (delta_pairs b) k)"
    and merge: "offer_merge a b = Ok c"
  shows "offer_well_formed_common commit c segment = Ok (v + w) \<and> offer_merge b a = Ok c"
proof -
  have n: "offer_normal a" "offer_normal b" and v: "v = offer_value commit a segment" "w = offer_value commit b segment"
    using a(1) b(1) by (auto simp: well_formed_common_eq split: if_splits)
  note c = merge_result [OF n a(2) b(2) merge]
  let ?n = "normalize_deltas (delta_pairs a @ delta_pairs b)"
  have range': "\<And>k. is_i128 (delta_of (delta_pairs b) k + delta_of (delta_pairs a) k)" using range(3) by (simp add: add.commute)
  have "normalize_deltas (delta_pairs b @ delta_pairs a) = ?n"
    using merged_deltas [OF n range(1,3)] merged_deltas [OF n(2,1) range(2) range']
    by (intro normal_deltas_unique normalize_deltas_normal) simp
  moreover obtain c' where "offer_merge b a = Ok c'" using merge by (auto simp: offer_merge_def Let_def Int_commute split: if_splits)
  ultimately have comm: "offer_merge b a = Ok c" using c merge_result [OF n(2,1) b(2) a(2), of c']
    sort_append_comm [of "offer_inputs a"] sort_append_comm [of "offer_outputs a"] sort_append_comm [of "offer_transient a"]
    by simp
  let ?K = "fst ` set ?n \<union> fst ` set (delta_pairs a) \<union> fst ` set (delta_pairs b)"
  have zero: "commit k 0 = 0" for k using additive [of k 0 0] by simp
  have d: "distinct (map fst ?n)" "distinct (map fst (delta_pairs a))" "distinct (map fst (delta_pairs b))"
    using n sorted_keys_distinct normalize_deltas_normal(1) unfolding offer_normal_iff by blast+
  have sub: "fst ` set ?n \<subseteq> ?K" "fst ` set (delta_pairs a) \<subseteq> ?K" "fst ` set (delta_pairs b) \<subseteq> ?K" by blast+
  have sums: "sum_list (map (\<lambda>d. commit (fst d, segment) (snd d)) m) = (\<Sum>k\<in>?K. commit (k, segment) (delta_of m k))"
    if "distinct (map fst m)" "fst ` set m \<subseteq> ?K" for m
    using com_sum [of m ?K "\<lambda>k. commit (k, segment)"] that zero by simp
  have "sum_list (map (\<lambda>d. commit (fst d, segment) (snd d)) ?n) =
      sum_list (map (\<lambda>d. commit (fst d, segment) (snd d)) (delta_pairs a)) + sum_list (map (\<lambda>d. commit (fst d, segment) (snd d)) (delta_pairs b))"
    unfolding sums [OF d(1) sub(1)] sums [OF d(2) sub(2)] sums [OF d(3) sub(3)] merged_deltas [OF n range(1,3)]
    by (simp add: additive sum.distrib)
  then have "offer_value commit c segment = v + w" unfolding v offer_value_def c by (simp add: sum_list_sort comp_def algebra_simps)
  then show ?thesis using comm merge_normal by (simp add: well_formed_common_eq c)
qed

definition example_spend :: "(nat, int, nat, nat) offer" where
  "example_spend = \<lparr>offer_inputs = [Input 1 5 None 0 0], offer_outputs = [], offer_transient = [], offer_deltas = [Delta 2 5]\<rparr>"

definition example_receive :: "(nat, int, nat, nat) offer" where
  "example_receive = \<lparr>offer_inputs = [], offer_outputs = [Output 3 5 None None 0], offer_transient = [], offer_deltas = [Delta 2 (- 5)]\<rparr>"

definition example_commit :: "hash_output \<times> nat \<Rightarrow> int \<Rightarrow> int" where
  "example_commit k x = int (fst k) * x"

lemma example_merge:
  "offer_merge example_spend example_receive = Ok \<lparr>offer_inputs = [Input 1 5 None 0 0], offer_outputs = [Output 3 5 None None 0],
     offer_transient = [], offer_deltas = []\<rparr>"
  by (simp add: offer_merge_def example_spend_def example_receive_def offer_normalize_def normalize_deltas_def clamp_i128_def
    i128_min_def i128_max_def)

theorem merge_adds_values_witness:
  "offer_well_formed_common example_commit example_spend 0 = Ok (- 5) \<and> offer_well_formed_common example_commit example_receive 0 = Ok 5 \<and>
    (\<exists>c. offer_merge example_spend example_receive = Ok c \<and> offer_well_formed_common example_commit c 0 = Ok 0)"
proof -
  have wf: "offer_well_formed_common example_commit example_spend 0 = Ok (- 5)"
    "offer_well_formed_common example_commit example_receive 0 = Ok 5"
    by (simp_all add: offer_well_formed_common_def offer_normal_def example_spend_def example_receive_def example_commit_def)
  have d: "coins_distinct example_spend" "coins_distinct example_receive"
    by (simp_all add: coins_distinct_def example_spend_def example_receive_def)
  have "is_i128 (delta_of (delta_pairs example_spend) k)" "is_i128 (delta_of (delta_pairs example_receive) k)"
    "is_i128 (delta_of (delta_pairs example_spend) k + delta_of (delta_pairs example_receive) k)" for k
    by (simp_all add: example_spend_def example_receive_def is_i128_def i128_min_def i128_max_def)
  from merge_adds_values [OF _ wf(1) d(1) wf(2) d(2) this example_merge] show ?thesis
    using wf example_merge by (auto simp: example_commit_def algebra_simps)
qed

end
