(* ===== verification/Mpt.thy ===== *)
theory Mpt
  imports Prelude "HOL-Library.Sublist" "HOL-Library.Word"
begin

text \<open>
  \<open>storage/src/merkle_patricia_trie.rs\<close>: the Merkle Patricia trie behind every map, set and array of
  the ledger state.

  Paths are lists of nibbles. A storage pointer \<open>Sp<T>\<close> is the value it points to. The annotation
  type \<open>A\<close> of the code is a type \<open>'a\<close> with the operations of its trait in an \<open>ann_ops\<close> record.
  Indexing the sixteen children of a branch with a larger nibble panics, and so does removing the
  empty path at a branch.
\<close>

section \<open>Data\<close>

record ('v, 'a) ann_ops =
  ann_empty :: 'a
  ann_append :: "'a \<Rightarrow> 'a \<Rightarrow> 'a"
  ann_from_value :: "'v \<Rightarrow> 'a"

datatype ('v, 'a) node =
    Empty
  | Leaf 'a 'v
  | Branch 'a "('v, 'a) node list"
  | Extension 'a "nat list" "('v, 'a) node"
  | MidBranchLeaf 'a 'v "('v, 'a) node"

text \<open>\<open>SizeAnn\<close>, the default annotation: the number of leaves, a \<open>u64\<close>.\<close>

definition size_ann :: "('v, 64 word) ann_ops" where
  "size_ann = \<lparr>ann_empty = 0, ann_append = (+), ann_from_value = (\<lambda>_. 1)\<rparr>"

fun node_ann :: "('v, 'a) ann_ops \<Rightarrow> ('v, 'a) node \<Rightarrow> 'a" where
  "node_ann A Empty = ann_empty A"
| "node_ann A (Leaf a _) = a"
| "node_ann A (Branch a _) = a"
| "node_ann A (Extension a _ _) = a"
| "node_ann A (MidBranchLeaf a _ _) = a"

fun is_empty :: "('v, 'a) node \<Rightarrow> bool" where
  "is_empty Empty = True"
| "is_empty _ = False"

text \<open>The fold of the annotations of the children of a branch.\<close>

definition sum_children :: "('v, 'a) ann_ops \<Rightarrow> ('v, 'a) node list \<Rightarrow> 'a" where
  "sum_children A cs = foldl (\<lambda>acc c. ann_append A acc (node_ann A c)) (ann_empty A) cs"

lemma size_nth [termination_simp]: "i < length cs \<Longrightarrow> size (cs ! i) < Suc (size_list size cs)"
  using size_list_estimation' [of "cs ! i" cs "size (cs ! i)" size] by (simp add: less_Suc_eq_le)

section \<open>Lookup and iteration\<close>

fun mpt_lookup :: "('v, 'a) node \<Rightarrow> nat list \<Rightarrow> (unit, 'v option) outcome" where
  "mpt_lookup Empty path = Ok None"
| "mpt_lookup (Leaf _ v) path = Ok (if path = [] then Some v else None)"
| "mpt_lookup (Branch _ cs) path = (case path of
       [] \<Rightarrow> Ok None
     | i # path' \<Rightarrow> if i < length cs then mpt_lookup (cs ! i) path' else Panic)"
| "mpt_lookup (Extension _ cp child) path =
     (if length path < length cp then Ok None
      else if take (length cp) path \<noteq> cp then Ok None
      else mpt_lookup child (drop (length cp) path))"
| "mpt_lookup (MidBranchLeaf _ v child) path =
     (if path = [] then Ok (Some v) else mpt_lookup child path)"

fun mpt_iter :: "('v, 'a) node \<Rightarrow> 'v list" where
  "mpt_iter Empty = []"
| "mpt_iter (Leaf _ v) = [v]"
| "mpt_iter (Branch _ cs) = concat (map mpt_iter cs)"
| "mpt_iter (Extension _ _ child) = mpt_iter child"
| "mpt_iter (MidBranchLeaf _ v child) = v # mpt_iter child"

fun mpt_leaves :: "('v, 'a) node \<Rightarrow> nat list \<Rightarrow> (nat list \<times> 'v) list" where
  "mpt_leaves Empty cur = []"
| "mpt_leaves (Leaf _ v) cur = [(cur, v)]"
| "mpt_leaves (Extension _ cp child) cur = mpt_leaves child (cur @ cp)"
| "mpt_leaves (Branch _ cs) cur =
     concat (map (\<lambda>i. if i < length cs then mpt_leaves (cs ! i) (cur @ [i]) else []) [0..<length cs])"
| "mpt_leaves (MidBranchLeaf _ v child) cur = mpt_leaves child cur @ [(cur, v)]"

section \<open>Extensions\<close>

text \<open>\<open>extension\<close> absorbs the extensions below as long as the path is not a multiple of 255 long, and cuts
  the path into pieces of 255 nibbles.\<close>

fun absorb :: "nat list \<Rightarrow> ('v, 'a) node \<Rightarrow> nat list \<times> ('v, 'a) node" where
  "absorb path (Extension a cp child) =
     (if length path mod 255 \<noteq> 0 then absorb (path @ cp) child else (path, Extension a cp child))"
| "absorb path t = (path, t)"

function chunks :: "nat \<Rightarrow> 'x list \<Rightarrow> 'x list list" where
  "chunks n xs = (if xs = [] \<or> n = 0 then [] else take n xs # chunks n (drop n xs))"
  by auto
termination
  by (relation "measure (\<lambda>(n, xs). length xs)") auto

declare chunks.simps [simp del]

definition mpt_extension :: "('v, 'a) ann_ops \<Rightarrow> nat list \<Rightarrow> ('v, 'a) node \<Rightarrow> ('v, 'a) node" where
  "mpt_extension A path child = (case absorb path child of (path, cur) \<Rightarrow>
     foldr (\<lambda>working_path cur. Extension (node_ann A cur) working_path cur) (chunks 255 path) cur)"

section \<open>Insertion\<close>

text \<open>Insertion at the end of the path.\<close>

fun insert_here :: "('v, 'a) ann_ops \<Rightarrow> ('v, 'a) node \<Rightarrow> 'v \<Rightarrow> ('v, 'a) node \<times> 'v option" where
  "insert_here A Empty v = (Leaf (ann_from_value A v) v, None)"
| "insert_here A (Leaf _ old) v = (Leaf (ann_from_value A v) v, Some old)"
| "insert_here A (MidBranchLeaf _ old child) v =
     (MidBranchLeaf (ann_append A (node_ann A child) (ann_from_value A v)) v child, Some old)"
| "insert_here A t v = (MidBranchLeaf (ann_append A (node_ann A t) (ann_from_value A v)) v t, None)"

definition match_len :: "nat list \<Rightarrow> nat list \<Rightarrow> nat" where
  "match_len xs ys = length (takeWhile (\<lambda>(a, b). a = b) (zip xs ys))"

text \<open>The branch that replaces an extension whose path is left at \<open>index\<close>.\<close>

definition split_extension :: "('v, 'a) ann_ops \<Rightarrow> nat list \<Rightarrow> ('v, 'a) node \<Rightarrow> nat \<Rightarrow> ('v, 'a) node" where
  "split_extension A cp child index =
     (let remaining = (if index = length cp - 1 then child
                       else Extension (node_ann A child) (drop (index + 1) cp) child);
          children = (replicate 16 Empty)[cp ! index := remaining]
      in Branch (sum_children A children) children)"

fun weight :: "('v, 'a) node \<Rightarrow> nat" where
  "weight (Extension _ _ child) = Suc (weight child)"
| "weight (MidBranchLeaf _ _ child) = Suc (weight child)"
| "weight _ = 0"

lemma weight_split [simp]: "weight (split_extension A cp child i) = 0"
  by (simp add: split_extension_def Let_def)

function (sequential) mpt_insert ::
  "('v, 'a) ann_ops \<Rightarrow> ('v, 'a) node \<Rightarrow> nat list \<Rightarrow> 'v \<Rightarrow> (unit, ('v, 'a) node \<times> 'v option) outcome" where
  "mpt_insert A t [] v = Ok (insert_here A t v)"
| "mpt_insert A Empty path v = Ok (mpt_extension A path (Leaf (ann_from_value A v) v), None)"
| "mpt_insert A (Leaf a old) path v =
     Ok (MidBranchLeaf (ann_append A (ann_from_value A v) a) old
           (mpt_extension A path (Leaf (ann_from_value A v) v)), None)"
| "mpt_insert A (Branch a cs) (i # path) v =
     (if i < length cs
      then obind (mpt_insert A (cs ! i) path v) (\<lambda>(c, existing).
        let cs' = cs[i := c] in Ok (Branch (sum_children A cs') cs', existing))
      else Panic)"
| "mpt_insert A (Extension a cp child) path v =
     (let index = match_len cp (take 255 path) in
      if index = length cp
      then obind (mpt_insert A child (drop index path) v) (\<lambda>(c, existing).
        Ok (Extension (node_ann A c) cp c, existing))
      else if cp ! index \<ge> 16 then Panic
      else obind (mpt_insert A (split_extension A cp child index) (drop index path) v) (\<lambda>(b, existing).
        if index = 0 then Ok (b, existing)
        else Ok (Extension (node_ann A b) (take index cp) b, existing)))"
| "mpt_insert A (MidBranchLeaf a leaf child) path v =
     obind (mpt_insert A child path v) (\<lambda>(c, existing).
       Ok (MidBranchLeaf (ann_append A (ann_from_value A leaf) (node_ann A c)) leaf c, existing))"
  by pat_completeness auto
termination
  by (relation "measures [\<lambda>(A, t, path, v). length path, \<lambda>(A, t, path, v). weight t]") auto

section \<open>Removal\<close>

text \<open>\<open>children.iter().enumerate().find(|(_, child)| !is_empty(child))\<close> on a branch with one child left.\<close>

fun first_filled :: "nat \<Rightarrow> ('v, 'a) node list \<Rightarrow> (nat \<times> ('v, 'a) node) option" where
  "first_filled i [] = None"
| "first_filled i (c # cs) = (if is_empty c then first_filled (Suc i) cs else Some (i, c))"

definition filled :: "('v, 'a) node list \<Rightarrow> nat" where
  "filled cs = length (filter (\<lambda>c. \<not> is_empty c) cs)"

text \<open>A branch with a single child becomes an extension.\<close>

definition lone_child :: "('v, 'a) ann_ops \<Rightarrow> nat \<Rightarrow> ('v, 'a) node \<Rightarrow> ('v, 'a) node" where
  "lone_child A i c = (case c of
       Extension _ cp child \<Rightarrow> mpt_extension A (i # cp) child
     | _ \<Rightarrow> mpt_extension A [i] c)"

function (sequential) mpt_remove ::
  "('v, 'a) ann_ops \<Rightarrow> ('v, 'a) node \<Rightarrow> nat list \<Rightarrow> (unit, ('v, 'a) node \<times> 'v option) outcome" where
  "mpt_remove A Empty path = Ok (Empty, None)"
| "mpt_remove A (Leaf a v) path = (if path = [] then Ok (Empty, Some v) else Ok (Leaf a v, None))"
| "mpt_remove A (Branch a cs) path = (case path of
       [] \<Rightarrow> Panic
     | i # path' \<Rightarrow>
         if i < length cs
         then obind (mpt_remove A (cs ! i) path') (\<lambda>(c, removed).
           let cs' = cs[i := c] in
           if filled cs' = 1
           then (case first_filled 0 cs' of
                   Some (j, only) \<Rightarrow> Ok (lone_child A j only, removed)
                 | None \<Rightarrow> Panic)
           else Ok (Branch (sum_children A cs') cs', removed))
         else Panic)"
| "mpt_remove A (Extension a cp child) path =
     (if length path < length cp \<or> take (length cp) path \<noteq> cp then Ok (Extension a cp child, None)
      else obind (mpt_remove A child (drop (length cp) path)) (\<lambda>(c, removed).
        case c of
          Empty \<Rightarrow> Ok (Empty, removed)
        | Extension _ p c' \<Rightarrow> Ok (mpt_extension A (cp @ p) c', removed)
        | _ \<Rightarrow> Ok (Extension (node_ann A c) cp c, removed)))"
| "mpt_remove A (MidBranchLeaf a v child) path =
     (if path = [] then Ok (child, Some v)
      else obind (mpt_remove A child path) (\<lambda>(c, removed).
        let ann = ann_append A (node_ann A c) (ann_from_value A v) in
        case c of
          Empty \<Rightarrow> Ok (Leaf ann v, removed)
        | _ \<Rightarrow> Ok (MidBranchLeaf ann v c, removed)))"
  by pat_completeness auto
termination
  by (relation "measure (\<lambda>(A, t, path). size t)") (auto simp: size_nth)

end
