(* ===== verification/Mpt_Laws.thy ===== *)
theory Mpt_Laws
  imports Mpt
begin

text \<open>
  The trie of \<open>Mpt\<close> implements a finite map from paths to values: \<open>mpt_get\<close> is the map a trie stands for,
  and lookup, insertion, removal and iteration act on it as on a map. \<open>mpt_wf\<close> is what the operations
  need of a trie; canonical tries are the subject of \<open>Mpt_Canonical\<close>.
\<close>

section \<open>The map of a trie\<close>

definition nibbles :: "nat list \<Rightarrow> bool" where
  "nibbles p \<longleftrightarrow> (\<forall>x \<in> set p. x < 16)"

lemma nibbles_simps [simp]: "nibbles []" "nibbles (x # p) \<longleftrightarrow> x < 16 \<and> nibbles p"
  "nibbles (p @ q) \<longleftrightarrow> nibbles p \<and> nibbles q"
  by (auto simp: nibbles_def)

lemma nibbles_drop: "nibbles p \<Longrightarrow> nibbles (drop n p)"
  and nibbles_take: "nibbles p \<Longrightarrow> nibbles (take n p)"
  by (auto simp: nibbles_def dest: in_set_dropD in_set_takeD)

text \<open>What is found below a path.\<close>

definition below :: "nat list \<Rightarrow> (nat list \<Rightarrow> 'v option) \<Rightarrow> nat list \<Rightarrow> 'v option" where
  "below cp m p = (if take (length cp) p = cp then m (drop (length cp) p) else None)"

fun mpt_get :: "('v, 'a) node \<Rightarrow> nat list \<Rightarrow> 'v option" where
  "mpt_get Empty p = None"
| "mpt_get (Leaf _ v) p = (if p = [] then Some v else None)"
| "mpt_get (Branch _ cs) p = (case p of
       [] \<Rightarrow> None
     | i # p' \<Rightarrow> if i < length cs then mpt_get (cs ! i) p' else None)"
| "mpt_get (Extension _ cp child) p = (if take (length cp) p = cp then mpt_get child (drop (length cp) p) else None)"
| "mpt_get (MidBranchLeaf _ v child) p = (if p = [] then Some v else mpt_get child p)"

fun inner :: "('v, 'a) node \<Rightarrow> bool" where
  "inner (Branch _ _) = True"
| "inner (Extension _ _ _) = True"
| "inner _ = False"

fun mpt_wf :: "('v, 'a) node \<Rightarrow> bool" where
  "mpt_wf Empty = True"
| "mpt_wf (Leaf _ _) = True"
| "mpt_wf (Branch _ cs) = (length cs = 16 \<and> list_all mpt_wf cs)"
| "mpt_wf (Extension _ cp child) = (cp \<noteq> [] \<and> nibbles cp \<and> mpt_wf child)"
| "mpt_wf (MidBranchLeaf _ _ child) = (inner child \<and> mpt_wf child)"

lemma get_extension: "mpt_get (Extension a cp child) = below cp (mpt_get child)"
  by (simp add: fun_eq_iff below_def)

lemma below_append: "below (p @ q) m = below p (below q m)"
proof
  fix r
  show "below (p @ q) m r = below p (below q m) r"
  proof (cases "take (length p) r = p")
    case True
    then obtain s where "r = p @ s" by (metis append_take_drop_id)
    then show ?thesis by (simp add: below_def)
  next
    case False
    have "take (length (p @ q)) r \<noteq> p @ q"
    proof
      assume "take (length (p @ q)) r = p @ q"
      then have "take (length p) (take (length p + length q) r) = p" by simp
      then show False using False by (simp add: min_def)
    qed
    then show ?thesis using False by (simp add: below_def)
  qed
qed

lemma below_Nil [simp]: "below [] m = m"
  by (simp add: below_def fun_eq_iff)

lemma below_None [simp]: "below p (\<lambda>_. None) = (\<lambda>_. None)"
  by (simp add: below_def fun_eq_iff)

lemma below_at [simp]: "below p m (p @ q) = m q"
  by (simp add: below_def)

lemma lookup_get:
  "mpt_wf t \<Longrightarrow> nibbles p \<Longrightarrow> mpt_lookup t p = Ok (mpt_get t p)"
proof (induction t p rule: mpt_lookup.induct)
  case (3 a cs p)
  then show ?case by (auto simp: list_all_length split: list.splits)
next
  case (4 a cp child p)
  then show ?case by (auto simp: nibbles_drop)
qed auto

section \<open>Extensions\<close>

lemma absorb_get:
  assumes "absorb p t = (q, u)"
  shows "below q (mpt_get u) = below p (mpt_get t)"
  using assms
  by (induction p t rule: absorb.induct) (auto simp: get_extension below_append split: if_splits)

lemma absorb_wf:
  assumes "absorb p t = (q, u)" and "mpt_wf t" and "nibbles p"
  shows "mpt_wf u \<and> nibbles q \<and> (p \<noteq> [] \<longrightarrow> q \<noteq> [])"
  using assms by (induction p t rule: absorb.induct) (auto split: if_splits)

lemma concat_chunks: "0 < n \<Longrightarrow> concat (chunks n xs) = xs"
  by (induction n xs rule: chunks.induct) (subst chunks.simps, simp)

lemma chunks_nonempty: "c \<in> set (chunks n xs) \<Longrightarrow> c \<noteq> []"
  by (induction n xs rule: chunks.induct) (subst (asm) (2) chunks.simps, auto split: if_splits)

lemma fold_extension_get:
  "mpt_get (foldr (\<lambda>wp cur. Extension (node_ann A cur) wp cur) ws u) = below (concat ws) (mpt_get u)"
  by (induction ws) (auto simp: get_extension below_append simp del: mpt_get.simps)

lemma fold_extension_wf:
  "mpt_wf u \<Longrightarrow> \<forall>w \<in> set ws. w \<noteq> [] \<and> nibbles w \<Longrightarrow>
    mpt_wf (foldr (\<lambda>wp cur. Extension (node_ann A cur) wp cur) ws u)"
  by (induction ws) auto

lemma extension_get: "mpt_get (mpt_extension A p t) = below p (mpt_get t)"
  using absorb_get [of p t] by (auto simp: mpt_extension_def fold_extension_get concat_chunks split: prod.splits)

lemma extension_wf: "mpt_wf t \<Longrightarrow> nibbles p \<Longrightarrow> mpt_wf (mpt_extension A p t)"
proof -
  assume "mpt_wf t" "nibbles p"
  moreover obtain q u where qu: "absorb p t = (q, u)" by fastforce
  ultimately have "mpt_wf u" "nibbles (concat (chunks 255 q))" using absorb_wf [OF qu] by (auto simp: concat_chunks)
  then show ?thesis
    using chunks_nonempty by (auto simp: mpt_extension_def qu nibbles_def intro!: fold_extension_wf) blast
qed

lemma extension_inner:
  assumes "p \<noteq> []"
  shows "inner (mpt_extension A p t)"
proof -
  obtain q u where qu: "absorb p t = (q, u)" by fastforce
  have "q \<noteq> []" using qu assms by (induction p t rule: absorb.induct) (auto split: if_splits)
  then have "chunks 255 q = take 255 q # chunks 255 (drop 255 q)" by (subst chunks.simps) simp
  then show ?thesis by (simp add: mpt_extension_def qu)
qed

section \<open>Insertion\<close>

lemma match_len_le: "match_len xs ys \<le> length xs" "match_len xs ys \<le> length ys"
  using length_takeWhile_le [of "\<lambda>(a, b). a = b" "zip xs ys"] by (auto simp: match_len_def)

lemma match_len_take: "take (match_len xs ys) xs = take (match_len xs ys) ys"
proof (induction xs arbitrary: ys)
  case (Cons x xs)
  then show ?case by (cases ys) (auto simp: match_len_def)
qed (simp add: match_len_def)

lemma match_len_prefix: "take (match_len cp (take n p)) p = take (match_len cp (take n p)) cp"
  using match_len_take [of cp "take n p"] match_len_le(2) [of cp "take n p"]
  by (simp add: min_absorb1)

lemma split_get:
  assumes "index < length cp" and "nibbles cp"
  shows "mpt_get (split_extension A cp child index) = below (drop index cp) (mpt_get child)"
proof
  fix p
  have n: "cp ! index < 16" using assms by (simp add: nibbles_def)
  have d: "drop index cp = cp ! index # drop (Suc index) cp" using assms(1) by (simp add: Cons_nth_drop_Suc)
  have get: "mpt_get (if index = length cp - 1 then child else Extension (node_ann A child) (drop (index + 1) cp) child) =
      below (drop (Suc index) cp) (mpt_get child)"
    using assms(1) by (auto simp: get_extension simp del: mpt_get.simps)
  show "mpt_get (split_extension A cp child index) p = below (drop index cp) (mpt_get child) p"
  proof (cases p)
    case (Cons x q)
    show ?thesis
    proof (cases "x = cp ! index")
      case True
      then show ?thesis using n get by (simp add: split_extension_def Let_def Cons d below_def)
    next
      case False
      then show ?thesis using n by (auto simp: split_extension_def Let_def Cons d below_def)
    qed
  qed (simp add: split_extension_def Let_def d below_def)
qed

lemma list_all_update: "list_all P xs \<Longrightarrow> P x \<Longrightarrow> list_all P (xs[i := x])"
  by (auto simp: list_all_iff dest!: set_update_subset_insert [THEN subsetD])

lemma inner_split: "inner (split_extension A cp child i)"
  by (simp add: split_extension_def Let_def)

lemma split_wf:
  assumes "index < length cp" and "nibbles cp" and "mpt_wf child"
  shows "mpt_wf (split_extension A cp child index)"
proof -
  let ?r = "if index = length cp - 1 then child else Extension (node_ann A child) (drop (index + 1) cp) child"
  have "mpt_wf ?r" using assms by (auto simp: nibbles_drop)
  then have "list_all mpt_wf ((replicate 16 Empty)[cp ! index := ?r])"
    by (intro list_all_update) (simp_all add: list_all_iff)
  then show ?thesis by (simp add: split_extension_def Let_def)
qed

definition insert_post :: "('v, 'a) node \<Rightarrow> nat list \<Rightarrow> 'v \<Rightarrow> (unit, ('v, 'a) node \<times> 'v option) outcome \<Rightarrow> bool" where
  "insert_post t p v r \<longleftrightarrow> (\<exists>t'. r = Ok (t', mpt_get t p) \<and> mpt_wf t' \<and>
     mpt_get t' = (mpt_get t)(p := Some v) \<and> (p \<noteq> [] \<and> inner t \<longrightarrow> inner t'))"

lemma insert_here_post: "mpt_wf t \<Longrightarrow> insert_post t [] v (Ok (insert_here A t v))"
  by (cases t) (auto simp: insert_post_def fun_eq_iff)

lemma below_update: "below p (m(q := x)) = (below p m)(p @ q := x)"
proof
  fix r
  show "below p (m(q := x)) r = ((below p m)(p @ q := x)) r"
  proof (cases "take (length p) r = p")
    case True
    then obtain s where "r = p @ s" by (metis append_take_drop_id)
    then show ?thesis by (simp add: below_def)
  next
    case False
    then have "r \<noteq> p @ q" by auto
    then show ?thesis using False by (simp add: below_def)
  qed
qed

lemma extension_leaf_get: "mpt_get (mpt_extension A p (Leaf a v)) = (\<lambda>_. None)(p := Some v)"
proof -
  have leaf: "mpt_get (Leaf a v) = (\<lambda>_. None)([] := Some v)" by (auto simp: fun_eq_iff)
  show ?thesis unfolding extension_get leaf below_update by simp
qed

lemma insert_extension_post:
  assumes wf: "nibbles cp" "cp \<noteq> []" "mpt_wf child" "nibbles p" and i: "i = match_len cp (take 255 p)"
    and full: "i = length cp \<Longrightarrow> insert_post child (drop i p) v (mpt_insert A child (drop i p) v)"
    and split: "i < length cp \<Longrightarrow> mpt_wf (split_extension A cp child i) \<Longrightarrow>
      insert_post (split_extension A cp child i) (drop i p) v (mpt_insert A (split_extension A cp child i) (drop i p) v)"
  shows "insert_post (Extension a cp child) p v
      (if i = length cp then obind (mpt_insert A child (drop i p) v) (\<lambda>(c, existing). Ok (Extension (node_ann A c) cp c, existing))
       else if cp ! i \<ge> 16 then Panic
       else obind (mpt_insert A (split_extension A cp child i) (drop i p) v) (\<lambda>(b, existing).
         if i = 0 then Ok (b, existing) else Ok (Extension (node_ann A b) (take i cp) b, existing)))"
proof -
  have "take i p = take i cp" unfolding i by (rule match_len_prefix)
  then have p: "take i cp @ drop i p = p" by (metis append_take_drop_id)
  show ?thesis
  proof (cases "i = length cp")
    case True
    then obtain c where c: "mpt_insert A child (drop i p) v = Ok (c, mpt_get child (drop i p))" "mpt_wf c"
      "mpt_get c = (mpt_get child)(drop i p := Some v)"
      using full by (auto simp: insert_post_def)
    have "mpt_get (Extension b cp c) = (mpt_get (Extension a cp child))(p := Some v)" for b
      using p True by (simp add: get_extension c(3) below_update del: mpt_get.simps)
    moreover have "mpt_get (Extension a cp child) p = mpt_get child (drop i p)"
      using p True by (metis below_at get_extension take_all le_refl)
    ultimately show ?thesis using True c wf by (simp add: insert_post_def del: mpt_get.simps)
  next
    case False
    then have i: "i < length cp" using match_len_le(1) [of cp "take 255 p"] by (simp add: i)
    let ?b = "split_extension A cp child i"
    have n: "\<not> cp ! i \<ge> 16" using nth_mem [OF i] wf(1) by (auto simp: nibbles_def)
    obtain b where b: "mpt_insert A ?b (drop i p) v = Ok (b, mpt_get ?b (drop i p))" "mpt_wf b"
      "mpt_get b = (mpt_get ?b)(drop i p := Some v)" "drop i p \<noteq> [] \<longrightarrow> inner b"
      using split [OF i split_wf [OF i wf(1,3)]]
      by (auto simp: insert_post_def inner_split)
    have ext: "mpt_get (Extension a cp child) = below (take i cp) (mpt_get ?b)"
      unfolding get_extension split_get [OF i wf(1)] by (metis append_take_drop_id below_append)
    have new: "below (take i cp) (mpt_get b) = (mpt_get (Extension a cp child))(p := Some v)"
      unfolding b(3) below_update p ext ..
    have old: "mpt_get (Extension a cp child) p = mpt_get ?b (drop i p)"
      unfolding ext by (metis below_at p)
    have "mpt_wf (Extension c (take i cp) b)" if "i \<noteq> 0" for c
      using that b(2) wf(1) i by (auto simp: nibbles_take)
    then show ?thesis
      using False n b(1,2,4) new old
      by (cases "i = 0") (auto simp: insert_post_def get_extension simp del: mpt_get.simps)
  qed
qed

lemma mpt_insert_correct:
  "mpt_wf t \<Longrightarrow> nibbles p \<Longrightarrow> insert_post t p v (mpt_insert A t p v)"
proof (induction A t p v rule: mpt_insert.induct)
  case (1 A t v)
  then show ?case by (simp add: insert_here_post)
next
  case (4 A a cs i path v)
  then have wf: "mpt_wf (cs ! i)" "i < 16" "length cs = 16" by (auto simp: list_all_length)
  then obtain c where c: "mpt_insert A (cs ! i) path v = Ok (c, mpt_get (cs ! i) path)" "mpt_wf c"
    "mpt_get c = (mpt_get (cs ! i))(path := Some v)"
    using 4 by (auto simp: insert_post_def)
  have "list_all mpt_wf (cs[i := c])" using 4 c(2) by (simp add: list_all_update)
  moreover have "mpt_get (Branch b (cs[i := c])) = (mpt_get (Branch a cs))(i # path := Some v)" for b
    using wf c(3) by (auto simp: fun_eq_iff nth_list_update split: list.splits)
  moreover have "mpt_get (Branch a cs) (i # path) = mpt_get (cs ! i) path" using wf by simp
  ultimately show ?case using wf c(1) by (auto simp: insert_post_def Let_def simp del: mpt_get.simps)
next
  case (5 A a cp child x xs v)
  show ?case unfolding mpt_insert.simps Let_def
  proof (rule insert_extension_post)
    let ?i = "match_len cp (take 255 (x # xs))"
    have d: "nibbles (drop ?i (x # xs))" using "5.prems"(2) by (rule nibbles_drop)
    show "insert_post child (drop ?i (x # xs)) v (mpt_insert A child (drop ?i (x # xs)) v)" if "?i = length cp"
      using "5.IH"(1) [OF refl that] "5.prems"(1) d by auto
    show "insert_post (split_extension A cp child ?i) (drop ?i (x # xs)) v
        (mpt_insert A (split_extension A cp child ?i) (drop ?i (x # xs)) v)"
      if i: "?i < length cp" and wf: "mpt_wf (split_extension A cp child ?i)"
    proof -
      have "cp ! ?i < 16" using nth_mem [OF i] "5.prems"(1) by (auto simp: nibbles_def)
      then show ?thesis using "5.IH"(2) [OF refl less_imp_neq [OF i] _ wf d] by linarith
    qed
  qed (use "5.prems" in auto)
qed (auto simp: insert_post_def extension_wf extension_inner extension_leaf_get fun_eq_iff split: if_splits)

section \<open>Removal\<close>

lemma is_empty_iff: "is_empty t \<longleftrightarrow> t = Empty"
  by (cases t) auto

lemma first_filled_Some:
  assumes "filled cs = 1"
  obtains j where "j < length cs" and "first_filled k cs = Some (k + j, cs ! j)"
    and "\<And>m. m < length cs \<Longrightarrow> m \<noteq> j \<Longrightarrow> cs ! m = Empty"
  using assms
proof (induction cs arbitrary: k thesis)
  case (Cons c cs)
  show ?case
  proof (cases "is_empty c")
    case True
    with Cons.prems(2) have "filled cs = 1" by (simp add: filled_def)
    with Cons.IH [of "Suc k"] obtain j where j: "j < length cs" "first_filled (Suc k) cs = Some (Suc k + j, cs ! j)"
      "\<And>m. m < length cs \<Longrightarrow> m \<noteq> j \<Longrightarrow> cs ! m = Empty" by blast
    have "(c # cs) ! m = Empty" if "m < length (c # cs)" "m \<noteq> Suc j" for m
      using that j(3) True by (cases m) (auto simp: is_empty_iff)
    with j True show ?thesis by (intro Cons.prems(1) [of "Suc j"]) auto
  next
    case False
    with Cons.prems(2) have "\<forall>d \<in> set cs. is_empty d" by (auto simp: filled_def filter_empty_conv)
    then have "(c # cs) ! m = Empty" if "m < length (c # cs)" "m \<noteq> 0" for m
      using that by (cases m) (auto simp: is_empty_iff)
    with False show ?thesis by (intro Cons.prems(1) [of 0]) auto
  qed
qed (simp add: filled_def)

lemma lone_child_get: "mpt_get (lone_child A i c) = below [i] (mpt_get c)"
proof (cases c)
  case (Extension a cp child)
  have "below [i] (mpt_get c) = below ([i] @ cp) (mpt_get child)"
    unfolding below_append Extension get_extension ..
  then show ?thesis by (simp add: lone_child_def extension_get Extension)
qed (simp_all add: lone_child_def extension_get)

lemma lone_child_wf: "mpt_wf c \<Longrightarrow> i < 16 \<Longrightarrow> mpt_wf (lone_child A i c)"
  by (cases c) (auto simp: lone_child_def intro!: extension_wf)

lemma lone_child_inner: "inner (lone_child A i c)"
  by (cases c) (simp_all add: lone_child_def extension_inner)

lemma branch_lone_get:
  assumes "j < length cs" and "\<And>m. m < length cs \<Longrightarrow> m \<noteq> j \<Longrightarrow> cs ! m = Empty"
  shows "mpt_get (Branch a cs) = below [j] (mpt_get (cs ! j))"
proof
  fix p
  show "mpt_get (Branch a cs) p = below [j] (mpt_get (cs ! j)) p"
    using assms by (cases p) (auto simp: below_def)
qed

text \<open>Where the path ends at a branch: removing such a path indexes the empty path and panics.\<close>

fun at_branch :: "('v, 'a) node \<Rightarrow> nat list \<Rightarrow> bool" where
  "at_branch (Branch _ cs) p = (case p of [] \<Rightarrow> True | i # p' \<Rightarrow> i < length cs \<and> at_branch (cs ! i) p')"
| "at_branch (Extension _ cp child) p = (take (length cp) p = cp \<and> at_branch child (drop (length cp) p))"
| "at_branch (MidBranchLeaf _ _ child) p = (p \<noteq> [] \<and> at_branch child p)"
| "at_branch _ p = False"

definition remove_post :: "('v, 'a) node \<Rightarrow> nat list \<Rightarrow> (unit, ('v, 'a) node \<times> 'v option) outcome \<Rightarrow> bool" where
  "remove_post t p r \<longleftrightarrow>
     (if at_branch t p then r = Panic
      else \<exists>t'. r = Ok (t', mpt_get t p) \<and> mpt_wf t' \<and> mpt_get t' = (mpt_get t)(p := None) \<and>
             (inner t \<longrightarrow> inner t' \<or> is_empty t'))"

lemma remove_branch_post:
  assumes cs: "length cs = 16" "list_all mpt_wf cs" "i < 16"
    and c: "mpt_wf c" "mpt_get c = (mpt_get (cs ! i))(p := None)"
  shows "\<exists>t'. (let cs' = cs[i := c] in
      if filled cs' = 1
      then (case first_filled 0 cs' of Some (j, only) \<Rightarrow> Ok (lone_child A j only, r) | None \<Rightarrow> Panic)
      else Ok (Branch (sum_children A cs') cs', r)) = Ok (t', r) \<and>
    mpt_wf t' \<and> mpt_get t' = (mpt_get (Branch a cs))(i # p := None) \<and> (inner t' \<or> is_empty t')"
proof -
  let ?cs = "cs[i := c]"
  have wf: "list_all mpt_wf ?cs" using cs(2) c(1) by (rule list_all_update)
  have get: "mpt_get (Branch b ?cs) = (mpt_get (Branch a cs))(i # p := None)" for b
    using cs c(2) by (auto simp: fun_eq_iff nth_list_update split: list.splits)
  show ?thesis
  proof (cases "filled ?cs = 1")
    case True
    from first_filled_Some [OF True, of 0] obtain j where j: "j < length ?cs" "first_filled 0 ?cs = Some (j, ?cs ! j)"
      "\<And>m. m < length ?cs \<Longrightarrow> m \<noteq> j \<Longrightarrow> ?cs ! m = Empty" by (metis add_0)
    have "mpt_wf (?cs ! j)" using wf j(1) by (simp add: list_all_length)
    then show ?thesis
      using True j cs(1) get [of a] branch_lone_get [OF j(1,3), of a]
      by (simp add: lone_child_get lone_child_wf lone_child_inner del: mpt_get.simps)
  qed (use wf get cs in \<open>simp add: Let_def del: mpt_get.simps\<close>)
qed

lemma remove_extension_post:
  assumes "cp \<noteq> []" "nibbles cp" and c: "mpt_wf c" "mpt_get c = (mpt_get child)(q := None)"
  shows "\<exists>t'. (case c of
      Empty \<Rightarrow> Ok (Empty, r)
    | Extension _ p c' \<Rightarrow> Ok (mpt_extension A (cp @ p) c', r)
    | _ \<Rightarrow> Ok (Extension (node_ann A c) cp c, r)) = Ok (t', r) \<and>
    mpt_wf t' \<and> mpt_get t' = (mpt_get (Extension a cp child))(cp @ q := None) \<and> (inner t' \<or> is_empty t')"
proof -
  have get: "below cp (mpt_get c) = (mpt_get (Extension a cp child))(cp @ q := None)"
    unfolding get_extension c(2) below_update ..
  show ?thesis
  proof (cases c)
    case Empty
    then have "below cp (mpt_get c) = mpt_get c" by (simp add: fun_eq_iff below_def)
    then show ?thesis using get Empty by simp
  next
    case (Extension b p d)
    have "mpt_get (mpt_extension A (cp @ p) d) = below cp (mpt_get c)"
      unfolding extension_get below_append Extension get_extension ..
    then show ?thesis using get Extension c(1) assms(1,2) by (simp add: extension_wf extension_inner del: mpt_get.simps)
  qed (use get c(1) assms in \<open>simp_all add: get_extension del: mpt_get.simps\<close>)
qed

lemma remove_mid_branch_post:
  assumes "inner c \<or> is_empty c" "mpt_wf c" "mpt_get c = (mpt_get child)(p := None)" "p \<noteq> []"
  shows "\<exists>t'. (case c of Empty \<Rightarrow> Ok (Leaf b v, r) | _ \<Rightarrow> Ok (MidBranchLeaf b v c, r)) = Ok (t', r) \<and>
    mpt_wf t' \<and> mpt_get t' = (mpt_get (MidBranchLeaf a v child))(p := None)"
proof (cases c)
  case Empty
  have "mpt_get (Leaf b v) x = ((mpt_get (MidBranchLeaf a v child))(p := None)) x" for x
    using fun_cong [OF assms(3), of x] assms(4) Empty by auto
  then show ?thesis using Empty by auto
next
  case (Branch d cs)
  then show ?thesis using assms by (simp add: fun_eq_iff del: mpt_get.simps(3))
next
  case (Extension d cp u)
  then show ?thesis using assms by (simp add: fun_eq_iff del: mpt_get.simps(4))
qed (use assms in auto)

lemma mpt_remove_correct:
  "mpt_wf t \<Longrightarrow> nibbles p \<Longrightarrow> remove_post t p (mpt_remove A t p)"
proof (induction A t p rule: mpt_remove.induct)
  case (3 A a cs p)
  show ?case
  proof (cases p)
    case (Cons i q)
    have i: "i < 16" "length cs = 16" "mpt_wf (cs ! i)" "nibbles q" using 3 Cons by (auto simp: list_all_length)
    then have IH: "remove_post (cs ! i) q (mpt_remove A (cs ! i) q)" using "3.IH" Cons by auto
    have at: "at_branch (Branch a cs) p = at_branch (cs ! i) q" using i Cons by simp
    have get: "mpt_get (Branch a cs) p = mpt_get (cs ! i) q" using i Cons by simp
    show ?thesis
    proof (cases "at_branch (cs ! i) q")
      case True
      then show ?thesis using IH at i Cons by (simp add: remove_post_def)
    next
      case False
      then obtain c where c: "mpt_remove A (cs ! i) q = Ok (c, mpt_get (cs ! i) q)" "mpt_wf c"
        "mpt_get c = (mpt_get (cs ! i))(q := None)" using IH by (auto simp: remove_post_def)
      from remove_branch_post [OF i(2) _ i(1) c(2,3), of A "mpt_get (cs ! i) q" a] show ?thesis
        using "3.prems" False at get c(1) i Cons
        by (simp add: remove_post_def del: mpt_get.simps at_branch.simps)
    qed
  qed (simp add: remove_post_def)
next
  case (4 A a cp child p)
  show ?case
  proof (cases "take (length cp) p = cp")
    case True
    then obtain q where q: "p = cp @ q" by (metis append_take_drop_id)
    have IH: "remove_post child q (mpt_remove A child q)" using 4 q by auto
    show ?thesis
    proof (cases "at_branch child q")
      case True
      then show ?thesis using IH q by (simp add: remove_post_def)
    next
      case False
      then obtain c where c: "mpt_remove A child q = Ok (c, mpt_get child q)" "mpt_wf c"
        "mpt_get c = (mpt_get child)(q := None)" using IH by (auto simp: remove_post_def)
      from remove_extension_post [OF _ _ c(2,3), of cp "mpt_get child q" A a] show ?thesis
        using "4.prems" False q c(1) by (simp add: remove_post_def fun_upd_def)
    qed
  next
    case False
    then show ?thesis using "4.prems"(1) by (auto simp: remove_post_def)
  qed
next
  case (5 A a v child p)
  show ?case
  proof (cases "p = []")
    case True
    have "mpt_get child [] = None" using "5.prems"(1) by (cases child) auto
    then show ?thesis using True "5.prems"(1) by (auto simp: remove_post_def fun_eq_iff)
  next
    case False
    have IH: "remove_post child p (mpt_remove A child p)" using 5 False by auto
    show ?thesis
    proof (cases "at_branch child p")
      case True
      then show ?thesis using IH \<open>p \<noteq> []\<close> by (simp add: remove_post_def)
    next
      case at: False
      then obtain c where c: "mpt_remove A child p = Ok (c, mpt_get child p)" "mpt_wf c"
        "mpt_get c = (mpt_get child)(p := None)" "inner c \<or> is_empty c"
        using IH "5.prems"(1) by (auto simp: remove_post_def)
      from remove_mid_branch_post [OF c(4,2,3) False] show ?thesis
        using False at c(1) by (simp add: remove_post_def Let_def del: mpt_get.simps(5)) simp
    qed
  qed
qed (auto simp: remove_post_def fun_eq_iff)

section \<open>The map laws\<close>

text \<open>
  Property C26. On a trie whose branches have sixteen children, and for paths of nibbles, \<open>insert\<close> never
  panics. It returns the value that was stored at the path, and afterwards lookup finds the new value there
  and what it found before at every other path. The new trie is well formed again.
\<close>

theorem mpt_insert_lookup:
  assumes "mpt_wf t" and "nibbles p"
  shows "\<exists>t' old. mpt_insert A t p v = Ok (t', old) \<and> mpt_wf t' \<and> mpt_lookup t p = Ok old \<and>
    (\<forall>q. nibbles q \<longrightarrow> mpt_lookup t' q = (if q = p then Ok (Some v) else mpt_lookup t q))"
  using mpt_insert_correct [OF assms, where A = A and v = v] assms
  by (auto simp: insert_post_def lookup_get)

theorem mpt_insert_lookup_witness:
  "mpt_wf (Extension 1 [1, 2, 3] (Leaf 1 (7 :: nat))) \<and> nibbles [1, 4] \<and>
    mpt_lookup (Extension 1 [1, 2, 3] (Leaf 1 (7 :: nat))) [1, 4] = Ok None \<and>
    (\<exists>t'. mpt_insert size_ann (Extension 1 [1, 2, 3] (Leaf 1 7)) [1, 4] 9 = Ok (t', None) \<and>
      mpt_lookup t' [1, 4] = Ok (Some 9) \<and> mpt_lookup t' [1, 2, 3] = Ok (Some 7))"
  using mpt_insert_lookup [where t = "Extension 1 [1, 2, 3] (Leaf 1 7)" and p = "[1, 4]" and A = size_ann and v = 9] by auto

definition example_branch :: "(nat, 64 word) node" where
  "example_branch = Extension 2 [1] (Branch 2 ((replicate 16 Empty)[2 := Leaf 1 7, 4 := Leaf 1 9]))"

text \<open>
  Property C27. \<open>remove\<close> panics exactly when the path ends at a branch. Otherwise it returns the value that
  was stored at the path, and afterwards lookup finds nothing there and what it found before at every other
  path. The new trie is well formed again.
\<close>

theorem mpt_remove_lookup:
  assumes "mpt_wf t" and "nibbles p"
  shows "if at_branch t p then mpt_remove A t p = Panic
    else \<exists>t' old. mpt_remove A t p = Ok (t', old) \<and> mpt_wf t' \<and> mpt_lookup t p = Ok old \<and>
      (\<forall>q. nibbles q \<longrightarrow> mpt_lookup t' q = (if q = p then Ok None else mpt_lookup t q))"
  using mpt_remove_correct [OF assms, where A = A] assms
  by (auto simp: remove_post_def lookup_get)

theorem mpt_remove_lookup_witness:
  "mpt_wf example_branch \<and> at_branch example_branch [1] \<and> mpt_remove size_ann example_branch [1] = Panic \<and>
    (\<exists>t'. mpt_remove size_ann example_branch [1, 2] = Ok (t', Some 7) \<and>
      mpt_lookup t' [1, 2] = Ok None \<and> mpt_lookup t' [1, 4] = Ok (Some 9))"
proof -
  have wf: "mpt_wf example_branch" by (simp add: example_branch_def numeral_eq_Suc)
  have at: "at_branch example_branch [1]" "\<not> at_branch example_branch [1, 2]"
    by (simp_all add: example_branch_def)
  have look: "mpt_lookup example_branch [1, 2] = Ok (Some 7)" "mpt_lookup example_branch [1, 4] = Ok (Some 9)"
    by (simp_all add: example_branch_def)
  show ?thesis
    using mpt_remove_lookup [OF wf, where p = "[1]" and A = size_ann] mpt_remove_lookup [OF wf, where p = "[1, 2]" and A = size_ann] wf at look
    by auto
qed

end
