(* ===== verification/Mpt_Canonical.thy ===== *)
theory Mpt_Canonical
  imports Mpt_Laws
begin

text \<open>
  Canonical tries (\<open>MerklePatriciaTrie::canonicity\<close>): the structural rules and the consistency of the
  annotations, that a canonical trie is determined by its contents, and that insertion and removal keep
  tries canonical, so that the trie does not depend on the order of the operations that built it.
\<close>

section \<open>The canonicity check\<close>

datatype canon_error =
    Too_Few_Children
  | Empty_Path
  | Path_Too_Long
  | Not_Nibbles
  | Empty_Child
  | Extension_Child
  | Mid_Branch_Child
  | Wrong_Annotation

fun mpt_structure :: "('v, 'a) node \<Rightarrow> (canon_error, unit) outcome" where
  "mpt_structure Empty = Ok ()"
| "mpt_structure (Leaf _ _) = Ok ()"
| "mpt_structure (Branch _ cs) =
     (if filled cs < 2 then Err Too_Few_Children
      else obind (collect_results (map mpt_structure cs)) (\<lambda>_. Ok ()))"
| "mpt_structure (Extension _ cp child) =
     (if cp = [] then Err Empty_Path
      else if length cp > 255 then Err Path_Too_Long
      else if list_ex (\<lambda>b. b > 15) cp then Err Not_Nibbles
      else case child of
        Empty \<Rightarrow> Err Empty_Child
      | Extension _ _ _ \<Rightarrow> if length cp \<noteq> 255 then Err Extension_Child else mpt_structure child
      | _ \<Rightarrow> mpt_structure child)"
| "mpt_structure (MidBranchLeaf _ _ child) = (case child of
       Branch _ _ \<Rightarrow> mpt_structure child
     | Extension _ _ _ \<Rightarrow> mpt_structure child
     | _ \<Rightarrow> Err Mid_Branch_Child)"

fun sum_ann :: "('v, 'a) ann_ops \<Rightarrow> ('v, 'a) node \<Rightarrow> (canon_error, 'a) outcome" where
  "sum_ann A Empty = Ok (ann_empty A)"
| "sum_ann A (Leaf a v) =
     (let true_val = ann_from_value A v in if a \<noteq> true_val then Err Wrong_Annotation else Ok true_val)"
| "sum_ann A (Branch a cs) =
     obind (collect_results (map (sum_ann A) cs)) (\<lambda>as.
       let true_val = foldl (ann_append A) (ann_empty A) as in
       if a \<noteq> true_val then Err Wrong_Annotation else Ok true_val)"
| "sum_ann A (Extension a _ child) =
     obind (sum_ann A child) (\<lambda>true_val. if a \<noteq> true_val then Err Wrong_Annotation else Ok true_val)"
| "sum_ann A (MidBranchLeaf a v child) =
     obind (sum_ann A child) (\<lambda>x.
       let true_val = ann_append A x (ann_from_value A v) in
       if a \<noteq> true_val then Err Wrong_Annotation else Ok true_val)"

definition annotation_consistency :: "('v, 'a) ann_ops \<Rightarrow> ('v, 'a) node \<Rightarrow> (canon_error, unit) outcome" where
  "annotation_consistency A t = obind (sum_ann A t) (\<lambda>_. Ok ())"

definition mpt_canonicity :: "('v, 'a) ann_ops \<Rightarrow> ('v, 'a) node \<Rightarrow> (canon_error, unit) outcome" where
  "mpt_canonicity A t = obind (mpt_structure t) (\<lambda>_. annotation_consistency A t)"

text \<open>A trie of the code has sixteen children in every branch by its type; \<open>mpt_wf\<close> says so here.\<close>

definition canonical :: "('v, 'a) ann_ops \<Rightarrow> ('v, 'a) node \<Rightarrow> bool" where
  "canonical A t \<longleftrightarrow> mpt_wf t \<and> mpt_canonicity A t = Ok ()"

section \<open>The check as predicates\<close>

fun is_ext :: "('v, 'a) node \<Rightarrow> bool" where
  "is_ext (Extension _ _ _) = True"
| "is_ext _ = False"

fun shape :: "('v, 'a) node \<Rightarrow> bool" where
  "shape Empty = True"
| "shape (Leaf _ _) = True"
| "shape (Branch _ cs) = (length cs = 16 \<and> 2 \<le> filled cs \<and> list_all shape cs)"
| "shape (Extension _ cp child) =
     (cp \<noteq> [] \<and> length cp \<le> 255 \<and> nibbles cp \<and> \<not> is_empty child \<and> (is_ext child \<longrightarrow> length cp = 255) \<and> shape child)"
| "shape (MidBranchLeaf _ _ child) = (inner child \<and> shape child)"

fun ann_ok :: "('v, 'a) ann_ops \<Rightarrow> ('v, 'a) node \<Rightarrow> bool" where
  "ann_ok A Empty = True"
| "ann_ok A (Leaf a v) = (a = ann_from_value A v)"
| "ann_ok A (Branch a cs) = (a = sum_children A cs \<and> list_all (ann_ok A) cs)"
| "ann_ok A (Extension a _ child) = (a = node_ann A child \<and> ann_ok A child)"
| "ann_ok A (MidBranchLeaf a v child) =
     (a = ann_append A (node_ann A child) (ann_from_value A v) \<and> ann_ok A child)"

lemma collect_map_Ok:
  "collect_results (map f xs) = Ok ys \<longleftrightarrow> list_all2 (\<lambda>x y. f x = Ok y) xs ys"
  by (induction xs arbitrary: ys) (auto simp: outcome_simps list_all2_Cons1)

lemma structure_extension:
  "mpt_structure (Extension a cp child) = Ok () \<longleftrightarrow> cp \<noteq> [] \<and> length cp \<le> 255 \<and> nibbles cp \<and>
    \<not> is_empty child \<and> (is_ext child \<longrightarrow> length cp = 255) \<and> mpt_structure child = Ok ()"
proof -
  have "list_ex (\<lambda>b. b > 15) cp \<longleftrightarrow> \<not> nibbles cp"
    by (auto simp: nibbles_def list_ex_iff not_le less_Suc_eq_le numeral_eq_Suc)
  then show ?thesis unfolding mpt_structure.simps(4)
    by (cases child) (simp_all del: mpt_structure.simps(3-5))
qed

lemma structure_mid_branch:
  "mpt_structure (MidBranchLeaf a v child) = Ok () \<longleftrightarrow> inner child \<and> mpt_structure child = Ok ()"
  unfolding mpt_structure.simps(5) by (cases child) (simp_all del: mpt_structure.simps)

lemma shape_iff: "shape t \<longleftrightarrow> mpt_wf t \<and> mpt_structure t = Ok ()"
proof (induction t)
  case (Branch a cs)
  have all: "list_all shape cs \<longleftrightarrow> list_all mpt_wf cs \<and> (\<exists>ys. list_all2 (\<lambda>x y. mpt_structure x = Ok y) cs ys)"
    using Branch by (induction cs) (auto simp: list_all2_Cons1)
  have "mpt_structure (Branch a cs) = Ok () \<longleftrightarrow>
    2 \<le> filled cs \<and> (\<exists>ys. list_all2 (\<lambda>x y. mpt_structure x = Ok y) cs ys)"
    by (simp add: obind_eq_Ok collect_map_Ok)
  then show ?case by (simp add: all conj_ac del: mpt_structure.simps)
next
  case (Extension a cp child)
  then show ?case unfolding structure_extension by auto
next
  case (MidBranchLeaf a v child)
  then show ?case unfolding structure_mid_branch by auto
qed auto

lemma sum_ann_iff: "sum_ann A t = Ok x \<longleftrightarrow> ann_ok A t \<and> x = node_ann A t"
proof (induction t arbitrary: x)
  case (Branch a cs)
  have all: "list_all2 (\<lambda>c y. sum_ann A c = Ok y) cs ys \<longleftrightarrow> list_all (ann_ok A) cs \<and> ys = map (node_ann A) cs" for ys
    using Branch by (induction cs arbitrary: ys) (auto simp: list_all2_Cons1)
  have "foldl (ann_append A) (ann_empty A) (map (node_ann A) cs) = sum_children A cs"
    by (simp add: sum_children_def foldl_map)
  then show ?case by (auto simp: obind_eq_Ok collect_map_Ok all Let_def)
qed (auto simp: obind_eq_Ok Let_def)

lemma canonical_iff: "canonical A t \<longleftrightarrow> shape t \<and> ann_ok A t"
  by (auto simp: canonical_def shape_iff mpt_canonicity_def annotation_consistency_def obind_eq_Ok sum_ann_iff)

lemma shape_wf: "shape t \<Longrightarrow> mpt_wf t"
  by (simp add: shape_iff)

section \<open>The contents determine the trie\<close>

definition forks :: "(nat list \<Rightarrow> 'v option) \<Rightarrow> bool" where
  "forks m \<longleftrightarrow> (\<exists>i j p q. i \<noteq> j \<and> m (i # p) \<noteq> None \<and> m (j # q) \<noteq> None)"

lemma filled_two:
  assumes "2 \<le> filled cs"
  obtains i j where "i < j" "j < length cs" "\<not> is_empty (cs ! i)" "\<not> is_empty (cs ! j)"
proof -
  have "filled cs = card {i. i < length cs \<and> \<not> is_empty (cs ! i)}"
    by (simp add: filled_def length_filter_conv_card)
  then obtain B where B: "B \<subseteq> {i. i < length cs \<and> \<not> is_empty (cs ! i)}" "card B = 2"
    using assms by (metis obtain_subset_with_card_n)
  then obtain x y where "x \<noteq> y" "B = {x, y}" by (auto simp: card_2_iff)
  then show ?thesis using B that [of x y] that [of y x] by (cases "x < y") auto
qed

lemma shape_nonempty: "shape t \<Longrightarrow> \<not> is_empty t \<Longrightarrow> \<exists>p. mpt_get t p \<noteq> None"
proof (induction t)
  case (Branch a cs)
  from Branch.prems obtain i j where i: "j < length cs" "\<not> is_empty (cs ! j)" by (auto elim: filled_two)
  then have "\<exists>p. mpt_get (cs ! j) p \<noteq> None" using Branch.IH [of "cs ! j"] Branch.prems by (simp add: list_all_length)
  then obtain p where "mpt_get (cs ! j) p \<noteq> None" by blast
  then have "mpt_get (Branch a cs) (j # p) \<noteq> None" using i by simp
  then show ?case by blast
next
  case (Extension a cp child)
  then obtain p where "mpt_get child p \<noteq> None" by auto
  then have "mpt_get (Extension a cp child) (cp @ p) \<noteq> None" by simp
  then show ?case by blast
next
  case (MidBranchLeaf a v child)
  have "mpt_get (MidBranchLeaf a v child) [] \<noteq> None" by simp
  then show ?case by blast
qed (auto intro: exI [of _ "[]"])

lemma branch_forks:
  assumes "shape (Branch a cs)"
  shows "forks (mpt_get (Branch a cs))"
proof -
  obtain i j where ij: "i < j" "j < length cs" "\<not> is_empty (cs ! i)" "\<not> is_empty (cs ! j)"
    using assms by (auto elim: filled_two)
  moreover have "shape (cs ! i)" "shape (cs ! j)" using assms ij by (auto simp: list_all_length)
  ultimately obtain p q where "mpt_get (cs ! i) p \<noteq> None" "mpt_get (cs ! j) q \<noteq> None"
    using shape_nonempty by metis
  then have "i \<noteq> j \<and> mpt_get (Branch a cs) (i # p) \<noteq> None \<and> mpt_get (Branch a cs) (j # q) \<noteq> None"
    using ij by auto
  then show ?thesis unfolding forks_def by blast
qed

lemma inner_root: "inner t \<Longrightarrow> shape t \<Longrightarrow> mpt_get t [] = None"
  by (cases t) auto

text \<open>The kind of a node can be read off its contents.\<close>

fun kind :: "('v, 'a) node \<Rightarrow> nat" where
  "kind Empty = 0"
| "kind (Leaf _ _) = 1"
| "kind (Branch _ _) = 2"
| "kind (Extension _ _ _) = 3"
| "kind (MidBranchLeaf _ _ _) = 4"

definition content_kind :: "(nat list \<Rightarrow> 'v option) \<Rightarrow> nat" where
  "content_kind m =
     (if m = (\<lambda>_. None) then 0
      else if m [] \<noteq> None then (if \<exists>p. p \<noteq> [] \<and> m p \<noteq> None then 4 else 1)
      else if forks m then 2 else 3)"

lemma extension_no_fork: "cp \<noteq> [] \<Longrightarrow> \<not> forks (mpt_get (Extension a cp child))"
  by (cases cp) (auto simp: forks_def split: if_splits)

lemma shape_kind:
  assumes "shape t"
  shows "kind t = content_kind (mpt_get t)"
proof -
  have ne: "\<not> is_empty t \<Longrightarrow> mpt_get t \<noteq> (\<lambda>_. None)" using shape_nonempty [OF assms] by auto
  show ?thesis
  proof (cases t)
    case Empty
    then show ?thesis by (simp add: content_kind_def fun_eq_iff)
  next
    case (Leaf a v)
    then show ?thesis using ne by (simp add: content_kind_def)
  next
    case (Branch a cs)
    then have "forks (mpt_get t)" "mpt_get t [] = None" using branch_forks [of a cs] assms by simp_all
    then show ?thesis using ne Branch by (simp add: content_kind_def)
  next
    case (Extension a cp child)
    then have "\<not> forks (mpt_get t)" "mpt_get t [] = None" using extension_no_fork [of cp a child] assms by auto
    then show ?thesis using ne Extension by (simp add: content_kind_def)
  next
    case (MidBranchLeaf a v child)
    then obtain p where p: "mpt_get child p \<noteq> None" "mpt_get child [] = None"
      using shape_nonempty [of child] inner_root [of child] assms by (cases child) auto
    then have "p \<noteq> []" by auto
    then have "p \<noteq> [] \<and> mpt_get t p \<noteq> None" "mpt_get t [] \<noteq> None" using p MidBranchLeaf by auto
    moreover from this have "\<exists>p. p \<noteq> [] \<and> mpt_get t p \<noteq> None" by blast
    ultimately show ?thesis using ne MidBranchLeaf by (simp add: content_kind_def)
  qed
qed

text \<open>The path of an extension is the longest common prefix of its keys, up to 255 nibbles.\<close>

lemma extension_path_le:
  assumes t: "shape (Extension a cp child)" and t': "shape (Extension a' cp' child')"
    and eq: "mpt_get (Extension a cp child) = mpt_get (Extension a' cp' child')"
  shows "length cp' \<le> length cp"
proof (rule ccontr)
  assume long: "\<not> ?thesis"
  have hit: "take (length cp') (cp @ k) = cp'" if "mpt_get child k \<noteq> None" for k
    using fun_cong [OF eq, of "cp @ k"] that by (simp split: if_splits)
  have nonext: "\<not> is_ext child" "\<not> is_empty child" "shape child" using t t' long by auto
  consider "mpt_get child [] \<noteq> None" | "forks (mpt_get child)"
    using nonext branch_forks [of _ "case child of Branch _ cs \<Rightarrow> cs"] by (cases child) (auto simp del: shape.simps)
  then show False
  proof cases
    case 1
    then show ?thesis using hit [OF 1] long by (metis append_Nil2 length_take min.absorb1 nat_le_linear take_all_iff)
  next
    case 2
    then obtain i j p q where ij: "i \<noteq> j" "mpt_get child (i # p) \<noteq> None" "mpt_get child (j # q) \<noteq> None"
      unfolding forks_def by blast
    have "cp' ! length cp = i" "cp' ! length cp = j"
      using hit [OF ij(2)] hit [OF ij(3)] long by (metis linorder_not_le nth_append_length nth_take)+
    then show ?thesis using ij(1) by simp
  qed
qed

lemma extension_path_unique:
  assumes t: "shape (Extension a cp child)" and t': "shape (Extension a' cp' child')"
    and eq: "mpt_get (Extension a cp child) = mpt_get (Extension a' cp' child')"
  shows "cp = cp' \<and> mpt_get child = mpt_get child'"
proof -
  have len: "length cp = length cp'"
    using extension_path_le [OF t t' eq] extension_path_le [OF t' t eq [symmetric]] by simp
  obtain k where k: "mpt_get child k \<noteq> None" using shape_nonempty [of child] t by auto
  have cp: "cp = cp'" using fun_cong [OF eq, of "cp @ k"] k len by (simp split: if_splits)
  have "mpt_get child q = mpt_get child' q" for q using fun_cong [OF eq, of "cp @ q"] cp by simp
  then show ?thesis using cp by auto
qed

lemma same_kind: "shape t \<Longrightarrow> shape t' \<Longrightarrow> mpt_get t = mpt_get t' \<Longrightarrow> kind t = kind t'"
  by (simp add: shape_kind)

lemma canonical_unique_aux:
  "shape t \<Longrightarrow> ann_ok A t \<Longrightarrow> shape t' \<Longrightarrow> ann_ok A t' \<Longrightarrow> mpt_get t = mpt_get t' \<Longrightarrow> t = t'"
proof (induction t arbitrary: t')
  case Empty
  then show ?case using same_kind [OF Empty(1,3,5)] by (cases t') auto
next
  case (Leaf a v)
  obtain a' v' where t': "t' = Leaf a' v'"
    using same_kind [OF Leaf(1,3,5)] by (cases t') auto
  then show ?case using Leaf(2,4) fun_cong [OF Leaf(5), of "[]"] by simp
next
  case (Branch a cs)
  obtain a' cs' where t': "t' = Branch a' cs'"
    using same_kind [OF Branch.prems(1,3,5)] by (cases t') auto
  have "cs = cs'"
  proof (rule nth_equalityI)
    fix i assume i: "i < length cs"
    have "mpt_get (cs ! i) p = mpt_get (cs' ! i) p" for p
      using fun_cong [OF Branch.prems(5), of "i # p"] i Branch.prems(1,3) t' by simp
    then have "mpt_get (cs ! i) = mpt_get (cs' ! i)" ..
    then show "cs ! i = cs' ! i" using Branch.IH [of "cs ! i" "cs' ! i"] Branch.prems(1-4) i t'
      by (simp add: list_all_length)
  qed (use Branch.prems(1,3) t' in auto)
  then show ?case using Branch.prems(2,4) t' by simp
next
  case (Extension a cp child)
  obtain a' cp' child' where t': "t' = Extension a' cp' child'"
    using same_kind [OF Extension.prems(1,3,5)] by (cases t') auto
  have eq: "cp = cp' \<and> mpt_get child = mpt_get child'"
    by (rule extension_path_unique [OF Extension.prems(1) Extension.prems(3,5) [unfolded t']])
  then have "child = child'" using Extension.IH [of child'] Extension.prems(1-4) t' by simp
  then show ?case using Extension.prems(2,4) t' eq by simp
next
  case (MidBranchLeaf a v child)
  obtain a' v' child' where t': "t' = MidBranchLeaf a' v' child'"
    using same_kind [OF MidBranchLeaf.prems(1,3,5)] by (cases t') auto
  have "mpt_get child p = mpt_get child' p" for p
    using fun_cong [OF MidBranchLeaf.prems(5), of p] t' inner_root [of child] inner_root [of child'] MidBranchLeaf.prems(1,3)
    by (cases "p = []") auto
  then have "mpt_get child = mpt_get child'" ..
  then have "child = child'" using MidBranchLeaf.IH [of child'] MidBranchLeaf.prems(1-4) t' by simp
  then show ?case using MidBranchLeaf.prems(2,4) t' fun_cong [OF MidBranchLeaf.prems(5), of "[]"] by simp
qed

lemma get_nibbles: "mpt_wf t \<Longrightarrow> mpt_get t p \<noteq> None \<Longrightarrow> nibbles p"
proof (induction t arbitrary: p)
  case (Branch a cs)
  then obtain i q where i: "p = i # q" "i < 16" "mpt_get (cs ! i) q \<noteq> None"
    by (auto split: list.splits if_splits)
  then show ?case using Branch.IH [of "cs ! i" q] Branch.prems(1) by (simp add: list_all_length)
next
  case (Extension a cp child)
  then have "nibbles cp" "nibbles (drop (length cp) p)" "take (length cp) p = cp" by (auto split: if_splits)
  then show ?case by (metis append_take_drop_id nibbles_simps(3))
qed (auto split: if_splits)

text \<open>
  Property C28. A canonical trie is uniquely determined by its contents, as the documentation of the type
  says: two canonical tries in which every path of nibbles looks up the same value are the same trie,
  annotations included.
\<close>

theorem canonical_trie_unique:
  assumes "canonical A t" and "canonical A t'"
    and "\<forall>p. nibbles p \<longrightarrow> mpt_lookup t p = mpt_lookup t' p"
  shows "t = t'"
proof (rule canonical_unique_aux [of t A])
  have wf: "mpt_wf t" "mpt_wf t'" using assms by (auto simp: canonical_def)
  then have "mpt_get t p = mpt_get t' p" for p
    using assms(3) get_nibbles [of t p] get_nibbles [of t' p] by (cases "mpt_get t p"; cases "mpt_get t' p"; cases "nibbles p") (auto simp: lookup_get)
  then show "mpt_get t = mpt_get t'" ..
qed (use assms in \<open>auto simp: canonical_iff\<close>)

theorem canonical_trie_unique_witness:
  "canonical size_ann example_branch \<and>
    (\<exists>t. mpt_insert size_ann (Extension 1 [1, 4] (Leaf 1 9)) [1, 2] 7 = Ok (t, None) \<and> canonical size_ann t \<and>
      t = example_branch)"
proof -
  have c: "canonical size_ann example_branch"
    by (simp add: canonical_iff example_branch_def size_ann_def sum_children_def filled_def numeral_eq_Suc)
  have "mpt_insert size_ann (Extension 1 [1, 4] (Leaf 1 9)) [1, 2] 7 = Ok (example_branch, None)"
    by (simp add: example_branch_def match_len_def split_extension_def sum_children_def size_ann_def numeral_eq_Suc)
  then show ?thesis using c canonical_trie_unique [OF c c] by blast
qed

end
