(* ===== verification/Mpt_History.thy ===== *)
theory Mpt_History
  imports Mpt_Canonical
begin

text \<open>
  Insertion and removal keep tries canonical, and the trie that a sequence of operations builds depends only
  on the contents: the key sets for which this holds, and how it fails for keys of more than 255 nibbles.
\<close>

section \<open>Annotations\<close>

text \<open>What the trie needs of an annotation: the left identity of \<open>Monoid\<close>, and commutativity, since
  \<open>insert\<close> appends the annotations of a mid-branch leaf in the order opposite to the check's.\<close>

locale annotation =
  fixes A :: "('v, 'a) ann_ops"
  assumes append_comm: "ann_append A x y = ann_append A y x"
    and append_empty: "ann_append A (ann_empty A) x = x"
begin

lemma absorb_ann: "absorb p t = (q, u) \<Longrightarrow> ann_ok A t \<Longrightarrow> ann_ok A u"
  by (induction p t rule: absorb.induct) (auto split: if_splits)

lemma fold_extension_ann:
  "ann_ok A u \<Longrightarrow> ann_ok A (foldr (\<lambda>wp cur. Extension (node_ann A cur) wp cur) ws u)"
  by (induction ws) auto

lemma extension_ann: "ann_ok A t \<Longrightarrow> ann_ok A (mpt_extension A p t)"
  using absorb_ann by (auto simp: mpt_extension_def fold_extension_ann split: prod.splits)

lemma fold_extension_node_ann:
  "node_ann A (foldr (\<lambda>wp cur. Extension (node_ann A cur) wp cur) ws u) = node_ann A u"
  by (induction ws) auto

lemma absorb_node_ann: "absorb p t = (q, u) \<Longrightarrow> ann_ok A t \<Longrightarrow> node_ann A u = node_ann A t"
  by (induction p t rule: absorb.induct) (auto split: if_splits)

lemma extension_node_ann: "ann_ok A t \<Longrightarrow> node_ann A (mpt_extension A p t) = node_ann A t"
  using absorb_node_ann by (auto simp: mpt_extension_def fold_extension_node_ann split: prod.splits)

lemma insert_here_ann: "ann_ok A t \<Longrightarrow> ann_ok A (fst (insert_here A t v))"
  by (cases t) auto

lemma split_ann:
  assumes "ann_ok A child"
  shows "ann_ok A (split_extension A cp child i)"
proof -
  let ?r = "if i = length cp - 1 then child else Extension (node_ann A child) (drop (i + 1) cp) child"
  have "list_all (ann_ok A) ((replicate 16 Empty)[cp ! i := ?r])"
    using assms by (intro list_all_update) (simp_all add: list_all_iff)
  then show ?thesis by (simp add: split_extension_def Let_def)
qed

lemma lone_child_ann: "ann_ok A c \<Longrightarrow> ann_ok A (lone_child A i c)"
  by (cases c) (auto simp: lone_child_def extension_ann)

end

lemma first_filled_nth:
  "first_filled k cs = Some (j, c) \<Longrightarrow> k \<le> j \<and> j < k + length cs \<and> c = cs ! (j - k) \<and> \<not> is_empty c"
  by (induction k cs rule: first_filled.induct) (auto simp: nth_Cons' Suc_diff_Suc split: if_splits)

lemma insert_ann: "mpt_insert A t p v = Ok (t', old) \<Longrightarrow> annotation A \<Longrightarrow> ann_ok A t \<Longrightarrow> ann_ok A t'"
proof (induction A t p v arbitrary: t' old rule: mpt_insert.induct)
  case (1 A t v)
  then show ?case using annotation.insert_here_ann [of A t v] by auto
next
  case (2 A x xs v)
  then show ?case using annotation.extension_ann by fastforce
next
  case (3 A a leaf x xs v)
  then show ?case using annotation.extension_ann annotation.extension_node_ann by fastforce
next
  case (4 A a cs i path v)
  then obtain c where c: "mpt_insert A (cs ! i) path v = Ok (c, old)" "i < length cs"
    "t' = Branch (sum_children A (cs[i := c])) (cs[i := c])"
    by (auto simp: obind_eq_Ok Let_def split: if_splits)
  then have "ann_ok A c" using 4 by (auto simp: list_all_length)
  then show ?case using 4 c by (simp add: list_all_update)
next
  case (5 A a cp child x xs v)
  let ?i = "match_len cp (take 255 (x # xs))"
  show ?case
  proof (cases "?i = length cp")
    case True
    then show ?thesis using 5 by (fastforce simp: obind_eq_Ok Let_def)
  next
    case False
    have "ann_ok A (split_extension A cp child ?i)" using 5 annotation.split_ann by fastforce
    then show ?thesis using 5 False by (fastforce simp: obind_eq_Ok Let_def split: if_splits)
  qed
next
  case (6 A a leaf child x xs v)
  then show ?case using annotation.append_comm [of A] by (fastforce simp: obind_eq_Ok)
qed

lemma remove_ann: "mpt_remove A t p = Ok (t', old) \<Longrightarrow> annotation A \<Longrightarrow> ann_ok A t \<Longrightarrow> ann_ok A t'"
proof (induction A t p arbitrary: t' old rule: mpt_remove.induct)
  case (3 A a cs p)
  then obtain i q c where c: "p = i # q" "mpt_remove A (cs ! i) q = Ok (c, old)" "i < length cs"
    "t' = Branch (sum_children A (cs[i := c])) (cs[i := c]) \<or>
      (\<exists>j only. filled (cs[i := c]) = 1 \<and> first_filled 0 (cs[i := c]) = Some (j, only) \<and> t' = lone_child A j only)"
    by (auto simp: obind_eq_Ok Let_def split: if_splits list.splits option.splits)
  have "list_all (ann_ok A) cs" using 3 by simp
  moreover from this have "ann_ok A c" using 3 c(1-3) by (auto simp: list_all_length)
  ultimately have "list_all (ann_ok A) (cs[i := c])" by (rule list_all_update)
  moreover have "ann_ok A only" if "filled (cs[i := c]) = 1" "first_filled 0 (cs[i := c]) = Some (j, only)" for j only
    using first_filled_nth [OF that(2)] calculation by (simp add: list_all_length)
  ultimately show ?case using c(4) annotation.lone_child_ann 3 by auto
next
  case (4 A a cp child p)
  show ?case
  proof (cases "length p < length cp \<or> take (length cp) p \<noteq> cp")
    case False
    then obtain c r where c: "mpt_remove A child (drop (length cp) p) = Ok (c, r)"
      using "4.prems"(1) by (auto simp: obind_eq_Ok)
    then have "ann_ok A c" using 4 False by auto
    then show ?thesis using False c "4.prems" annotation.extension_ann by (cases c) auto
  qed (use 4 in auto)
next
  case (5 A a v child p)
  show ?case
  proof (cases "p = []")
    case False
    then obtain c r where c: "mpt_remove A child p = Ok (c, r)"
      using "5.prems"(1) by (auto simp: obind_eq_Ok)
    then have "ann_ok A c" using 5 False by auto
    then show ?thesis using False c "5.prems" annotation.append_empty by (cases c) auto
  qed (use 5 in auto)
qed (auto split: if_splits)

interpretation size_annotation: annotation size_ann
  by unfold_locales (simp_all add: size_ann_def)

section \<open>Removal keeps the shape\<close>

lemma absorb_shape:
  assumes "absorb p t = (q, u)" "shape t" "\<not> is_empty t" "nibbles p" "p \<noteq> []"
  shows "shape u \<and> \<not> is_empty u \<and> nibbles q \<and> q \<noteq> [] \<and> (is_ext u \<longrightarrow> length q mod 255 = 0)"
  using assms by (induction p t rule: absorb.induct) (auto split: if_splits)

lemma chunks_shape:
  assumes "shape u" "\<not> is_empty u"
  shows "nibbles q \<Longrightarrow> is_ext u \<longrightarrow> length q mod n = 0 \<Longrightarrow> n = 255 \<Longrightarrow>
    shape (foldr (\<lambda>wp cur. Extension (node_ann A cur) wp cur) (chunks n q) u) \<and>
    \<not> is_empty (foldr (\<lambda>wp cur. Extension (node_ann A cur) wp cur) (chunks n q) u)"
proof (induction n q rule: chunks.induct)
  case (1 n q)
  show ?case
  proof (cases "q = []")
    case True
    then show ?thesis using assms by (subst (1 2) chunks.simps) simp
  next
    case False
    let ?t = "foldr (\<lambda>wp cur. Extension (node_ann A cur) wp cur) (chunks n (drop n q)) u"
    have "(length q - 255) mod 255 = 0" if "length q mod 255 = 0" using that by (metis le_mod_geq mod_0 diff_is_0_eq' nat_le_linear)
    then have t: "shape ?t" "\<not> is_empty ?t" using 1 False by (auto simp: nibbles_drop)
    have "length (take n q) = 255" if "is_ext ?t"
    proof (cases "length q \<le> n")
      case True
      then have "?t = u" by (simp add: chunks.simps)
      then have "255 dvd length q" using that 1 by auto
      then have "255 \<le> length q" using False by (intro dvd_imp_le) auto
      then show ?thesis using True 1 by simp
    qed (use 1 in simp)
    then have "shape (Extension (node_ann A ?t) (take n q) ?t)" using t False 1 by (auto simp: nibbles_take)
    moreover have "chunks n q = take n q # chunks n (drop n q)" using False 1 by (subst chunks.simps) simp
    ultimately show ?thesis by simp
  qed
qed

lemma extension_shape:
  assumes "shape t" "\<not> is_empty t" "nibbles p" "p \<noteq> []"
  shows "shape (mpt_extension A p t)"
proof -
  obtain q u where qu: "absorb p t = (q, u)" by fastforce
  show ?thesis using absorb_shape [OF qu assms] chunks_shape [of u q 255 A] by (simp add: mpt_extension_def qu)
qed

lemma lone_child_shape: "shape c \<Longrightarrow> \<not> is_empty c \<Longrightarrow> i < 16 \<Longrightarrow> shape (lone_child A i c)"
  by (cases c) (auto simp: lone_child_def intro!: extension_shape)

lemma filled_update: "i < length cs \<Longrightarrow> filled cs \<le> Suc (filled (cs[i := c]))"
proof -
  assume i: "i < length cs"
  have "filled cs = card {j. j < length cs \<and> \<not> is_empty (cs ! j)}"
    "filled (cs[i := c]) = card {j. j < length cs \<and> \<not> is_empty (cs[i := c] ! j)}"
    by (simp_all add: filled_def length_filter_conv_card)
  moreover have "card {j. j < length cs \<and> \<not> is_empty (cs ! j)} \<le>
      card (insert i {j. j < length cs \<and> \<not> is_empty (cs[i := c] ! j)})"
    by (rule card_mono) (auto simp: nth_list_update)
  moreover have "card (insert i {j. j < length cs \<and> \<not> is_empty (cs[i := c] ! j)}) \<le>
      Suc (card {j. j < length cs \<and> \<not> is_empty (cs[i := c] ! j)})"
    by (rule card_insert_le_m1 [of "Suc _", simplified]) auto
  ultimately show ?thesis by simp
qed

lemma remove_shape: "mpt_remove A t p = Ok (t', old) \<Longrightarrow> nibbles p \<Longrightarrow> shape t \<Longrightarrow> shape t'"
proof (induction A t p arbitrary: t' old rule: mpt_remove.induct)
  case (3 A a cs p)
  then obtain i q c where c: "p = i # q" "mpt_remove A (cs ! i) q = Ok (c, old)" "i < length cs"
    "if filled (cs[i := c]) = 1
     then \<exists>j only. first_filled 0 (cs[i := c]) = Some (j, only) \<and> t' = lone_child A j only
     else t' = Branch (sum_children A (cs[i := c])) (cs[i := c])"
    by (auto simp: obind_eq_Ok Let_def split: if_splits list.splits option.splits)
  have "list_all shape cs" using 3 by simp
  moreover from this have "shape c" using 3 c(1-3) by (auto simp: list_all_length)
  ultimately have all: "list_all shape (cs[i := c])" by (rule list_all_update)
  show ?case
  proof (cases "filled (cs[i := c]) = 1")
    case True
    then obtain j only where only: "first_filled 0 (cs[i := c]) = Some (j, only)" "t' = lone_child A j only"
      using c(4) by auto
    have "j < 16" "only = cs[i := c] ! j" "\<not> is_empty only" using first_filled_nth [OF only(1)] "3.prems"(3) by auto
    then show ?thesis using only(2) all "3.prems"(3) by (simp add: list_all_length lone_child_shape)
  next
    case False
    then show ?thesis using filled_update [OF c(3), of c] c(4) 3 all by simp
  qed
next
  case (4 A a cp child p)
  show ?case
  proof (cases "length p < length cp \<or> take (length cp) p \<noteq> cp")
    case False
    then obtain c r where c: "mpt_remove A child (drop (length cp) p) = Ok (c, r)"
      using "4.prems"(1) by (auto simp: obind_eq_Ok)
    then have "shape c" using 4 False by (auto simp: nibbles_drop)
    then show ?thesis using False c "4.prems" by (cases c) (auto intro!: extension_shape)
  qed (use 4 in auto)
next
  case (5 A a v child p)
  show ?case
  proof (cases "p = []")
    case False
    then obtain c r where c: "mpt_remove A child p = Ok (c, r)"
      using "5.prems"(1) by (auto simp: obind_eq_Ok)
    then have "shape c" using 5 False by auto
    moreover have "inner c \<or> is_empty c"
      using mpt_remove_correct [of child p A] c 5 shape_wf [of child] by (auto simp: remove_post_def split: if_splits)
    ultimately show ?thesis using False c "5.prems" by (cases c) auto
  qed (use 5 in auto)
qed (auto split: if_splits)

section \<open>Insertion keeps the shape\<close>

text \<open>Keys of at most 255 nibbles leave no extension below an extension.\<close>

fun flat :: "('v, 'a) node \<Rightarrow> bool" where
  "flat (Branch _ cs) = list_all flat cs"
| "flat (Extension _ _ child) = (\<not> is_ext child \<and> flat child)"
| "flat (MidBranchLeaf _ _ child) = flat child"
| "flat _ = True"

lemma short_keys_flat: "shape t \<Longrightarrow> \<forall>k. mpt_get t k \<noteq> None \<longrightarrow> length k \<le> n \<Longrightarrow> n \<le> 255 \<Longrightarrow> flat t"
proof (induction t arbitrary: n)
  case (Branch a cs)
  have "flat (cs ! i)" if "i < length cs" for i
  proof -
    have "length k \<le> n" if "mpt_get (cs ! i) k \<noteq> None" for k
      using Branch.prems(2) [rule_format, of "i # k"] that \<open>i < length cs\<close> by simp
    then show ?thesis using Branch.IH [of "cs ! i" n] Branch.prems that by (auto simp: list_all_length)
  qed
  then show ?case by (simp add: list_all_length)
next
  case (Extension a cp child)
  have len: "length cp + length k \<le> n" if "mpt_get child k \<noteq> None" for k
    using Extension.prems(2) [rule_format, of "cp @ k"] that by simp
  have "\<not> is_ext child"
  proof
    assume ext: "is_ext child"
    then obtain k where "mpt_get child k \<noteq> None" "mpt_get child [] = None"
      using shape_nonempty [of child] inner_root [of child] Extension.prems(1) by (cases child) auto
    moreover from this have "k \<noteq> []" by auto
    ultimately show False using len [of k] ext Extension.prems(1,3) by (cases k) auto
  qed
  moreover have "\<forall>k. mpt_get child k \<noteq> None \<longrightarrow> length k \<le> n" using len by (meson add_leD2)
  ultimately show ?case using Extension.IH [of n] Extension.prems by simp
next
  case (MidBranchLeaf a v child)
  have "length k \<le> n" if "mpt_get child k \<noteq> None" for k
    using MidBranchLeaf.prems(2) [rule_format, of k] that by (cases "k = []") auto
  then show ?case using MidBranchLeaf.IH [of n] MidBranchLeaf.prems(1,3) by simp
qed auto

text \<open>A path that can be inserted: one that is stored already, or that no stored path extends.\<close>

definition fits :: "('v, 'a) node \<Rightarrow> nat list \<Rightarrow> bool" where
  "fits t p \<longleftrightarrow> nibbles p \<and> length p \<le> 255 \<and>
     (mpt_get t p \<noteq> None \<or> (\<forall>k. mpt_get t k \<noteq> None \<longrightarrow> \<not> strict_prefix p k))"

definition good :: "('v, 'a) node \<Rightarrow> bool" where
  "good t \<longleftrightarrow> shape t \<and> flat t"

definition good_post :: "('v, 'a) node \<Rightarrow> (unit, ('v, 'a) node \<times> 'v option) outcome \<Rightarrow> bool" where
  "good_post t r \<longleftrightarrow> (\<exists>t' old. r = Ok (t', old) \<and> good t' \<and> \<not> is_empty t' \<and>
     (\<not> is_ext t \<and> \<not> is_empty t \<longrightarrow> \<not> is_ext t'))"

lemma single_extension:
  assumes "q \<noteq> []" "length q \<le> 255" "\<not> is_ext t"
  shows "mpt_extension A q t = Extension (node_ann A t) q t"
proof -
  have "chunks 255 q = [q]" using assms by (simp add: chunks.simps)
  moreover have "absorb q t = (q, t)" using assms(3) by (cases t) auto
  ultimately show ?thesis by (simp add: mpt_extension_def)
qed

lemma insert_empty:
  "nibbles q \<Longrightarrow> length q \<le> 255 \<Longrightarrow> \<exists>c. mpt_insert A Empty q v = Ok (c, None) \<and> good c \<and> \<not> is_empty c"
  by (cases q) (auto simp: single_extension good_def)

lemma match_len_stop:
  assumes "match_len xs ys < length xs" "match_len xs ys < length ys"
  shows "xs ! match_len xs ys \<noteq> ys ! match_len xs ys"
  using assms
proof (induction xs arbitrary: ys)
  case (Cons x xs)
  then show ?case by (cases ys) (auto simp: match_len_def)
qed simp

lemma good_branch_update:
  "list_all good cs \<Longrightarrow> good c \<Longrightarrow> length cs = 16 \<Longrightarrow> 2 \<le> filled (cs[i := c]) \<Longrightarrow> good (Branch a (cs[i := c]))"
  using list_all_update [of good cs c i] by (auto simp: good_def list_all_iff)

lemma filled_split:
  assumes "i < length cs" "j < length cs" "i \<noteq> j" "\<not> is_empty (cs ! i)" "\<not> is_empty (cs ! j)"
  shows "2 \<le> filled cs"
proof -
  have "card {i, j} \<le> card {k. k < length cs \<and> \<not> is_empty (cs ! k)}"
    using assms by (intro card_mono) auto
  then show ?thesis using assms(3) by (simp add: filled_def length_filter_conv_card)
qed

lemma filled_insert:
  assumes "2 \<le> filled cs" "\<not> is_empty c"
  shows "2 \<le> filled (cs[i := c])"
proof -
  obtain j k where "j < k" "k < length cs" "\<not> is_empty (cs ! j)" "\<not> is_empty (cs ! k)"
    using assms(1) by (rule filled_two)
  moreover have "\<not> is_empty (cs[i := c] ! m)" if "m < length cs" "\<not> is_empty (cs ! m)" for m
    using that assms(2) by (cases "i = m") auto
  ultimately show ?thesis by (intro filled_split [of j _ k]) auto
qed

text \<open>An extension that the path leaves at \<open>i\<close> becomes a branch with two children.\<close>

lemma split_insert_good:
  assumes t: "good (Extension a cp child)" and p: "fits (Extension a cp child) p"
    and i: "i = match_len cp (take 255 p)" "i < length cp"
  shows "\<exists>b old. mpt_insert A (split_extension A cp child i) (drop i p) v = Ok (b, old) \<and> good b \<and>
    \<not> is_ext b \<and> \<not> is_empty b"
proof -
  have cp: "length cp \<le> 255" "nibbles cp" "good child" "\<not> is_ext child" "\<not> is_empty child"
    using t by (auto simp: good_def)
  have pre: "take i p = take i cp" unfolding i(1) by (rule match_len_prefix)
  have "i < length p"
  proof (rule ccontr)
    assume "\<not> ?thesis"
    then have p': "p = take i cp" using pre by simp
    obtain k where "mpt_get (Extension a cp child) k \<noteq> None"
      using shape_nonempty [of "Extension a cp child"] t by (auto simp: good_def simp del: shape.simps mpt_get.simps)
    moreover from this have "strict_prefix p k"
      using p' i(2) by (auto simp: strict_prefix_def prefix_def split: if_splits) (metis append_assoc append_take_drop_id)+
    moreover have "mpt_get (Extension a cp child) p = None" using p' i(2) by auto
    ultimately show False using p by (auto simp: fits_def simp del: mpt_get.simps)
  qed
  then obtain x q where xq: "drop i p = x # q" "x = p ! i" by (metis Cons_nth_drop_Suc)
  have "cp ! i \<noteq> take 255 p ! i"
    using match_len_stop [of cp "take 255 p"] i \<open>i < length p\<close> cp(1) by simp
  then have x: "x \<noteq> cp ! i" using xq(2) i(2) cp(1) by simp
  have "nibbles (drop i p)" "length (drop i p) \<le> 255" using p by (auto simp: fits_def nibbles_drop)
  then have q: "x < 16" "nibbles q" "length q \<le> 255" using xq(1) by auto
  obtain c where c: "mpt_insert A Empty q v = Ok (c, None)" "good c" "\<not> is_empty c"
    using insert_empty [OF q(2,3), where A = A and v = v] by (elim exE conjE)
  define r where "r = (if i = length cp - 1 then child else Extension (node_ann A child) (drop (i + 1) cp) child)"
  define cs where "cs = (replicate 16 Empty)[cp ! i := r]"
  have n: "cp ! i < 16" using cp(2) nth_mem [OF i(2)] by (auto simp: nibbles_def)
  have r: "good r" "\<not> is_empty r" using cp i(2) by (auto simp: r_def good_def nibbles_drop)
  have cs: "list_all good cs" unfolding cs_def by (intro list_all_update r(1)) (simp add: list_all_iff good_def)
  have "2 \<le> filled (cs[x := c])" using x q(1) n r(2) c(3) by (intro filled_split [of x _ "cp ! i"]) (auto simp: cs_def)
  then have "good (Branch b (cs[x := c]))" for b using good_branch_update [OF cs c(2)] by (simp add: cs_def)
  moreover have "split_extension A cp child i = Branch (sum_children A cs) cs"
    unfolding split_extension_def Let_def cs_def r_def ..
  moreover have "cs ! x = Empty" "length cs = 16" using x q(1) by (simp_all add: cs_def)
  ultimately show ?thesis using c(1) q(1) by (simp add: xq(1) Let_def)
qed

lemma fits_below:
  assumes "\<And>k. mpt_get t (r @ k) = mpt_get u k" and "fits t (r @ p)"
  shows "fits u p"
proof -
  have "strict_prefix (r @ p) (r @ k) \<longleftrightarrow> strict_prefix p k" for k by (auto simp: strict_prefix_def)
  then show ?thesis using assms by (auto simp: fits_def) metis
qed

lemma fits_mid_branch: "fits (MidBranchLeaf a v child) p \<Longrightarrow> p \<noteq> [] \<Longrightarrow> fits child p"
  by (auto simp: fits_def)

lemma insert_good: "good t \<Longrightarrow> fits t p \<Longrightarrow> good_post t (mpt_insert A t p v)"
proof (induction A t p v rule: mpt_insert.induct)
  case (1 A t v)
  then show ?case by (cases t) (auto simp: good_post_def good_def)
next
  case (2 A x xs v)
  then show ?case using insert_empty [of "x # xs" A v] by (auto simp: good_post_def fits_def)
next
  case (3 A a leaf x xs v)
  then show ?case by (auto simp: good_post_def fits_def single_extension good_def)
next
  case (4 A a cs i path v)
  then have i: "i < length cs" "length cs = 16" "list_all good cs" "2 \<le> filled cs"
    by (auto simp: fits_def good_def list_all_iff)
  have "fits (cs ! i) path" using fits_below [of "Branch a cs" "[i]" "cs ! i" path] "4.prems"(2) i(1) by simp
  then obtain c old where c: "mpt_insert A (cs ! i) path v = Ok (c, old)" "good c" "\<not> is_empty c"
    using 4 i by (auto simp: good_post_def list_all_length)
  then show ?case using i by (auto simp: good_post_def Let_def good_branch_update filled_insert)
next
  case (5 A a cp child x xs v)
  let ?p = "x # xs"
  let ?i = "match_len cp (take 255 ?p)"
  show ?case
  proof (cases "?i = length cp")
    case True
    then have p: "?p = cp @ drop ?i ?p" using match_len_prefix [of cp 255 ?p] by (metis append_take_drop_id order_refl take_all)
    have "fits child (drop ?i ?p)"
      using fits_below [of "Extension a cp child" cp child "drop ?i ?p"] "5.prems"(2) p by simp
    then have "good_post child (mpt_insert A child (drop ?i ?p) v)"
      using "5.IH"(1) [OF refl True] "5.prems"(1) by (simp add: good_def)
    then obtain c old where "mpt_insert A child (drop ?i ?p) v = Ok (c, old)" "good c" "\<not> is_empty c" "\<not> is_ext c"
      using "5.prems"(1) by (auto simp: good_post_def good_def)
    then show ?thesis using True "5.prems"(1) by (simp add: good_post_def good_def Let_def)
  next
    case False
    then have "?i < length cp" using match_len_le(1) [of cp "take 255 ?p"] by simp
    from split_insert_good [OF "5.prems" refl this, of A v] obtain b old
      where b: "mpt_insert A (split_extension A cp child ?i) (drop ?i ?p) v = Ok (b, old)" "good b" "\<not> is_ext b" "\<not> is_empty b"
      by (elim exE conjE)
    have "good (Extension c (take ?i cp) b)" if "?i \<noteq> 0" for c
      using that b(2-4) "5.prems"(1) by (auto simp: good_def nibbles_take)
    moreover have "\<not> cp ! ?i \<ge> 16"
      using "5.prems"(1) nth_mem [OF \<open>?i < length cp\<close>] by (auto simp: good_def nibbles_def)
    ultimately show ?thesis using False b by (cases "?i = 0") (simp_all add: good_post_def Let_def)
  qed
next
  case (6 A a leaf child x xs v)
  have good: "good child" "inner child" using 6 by (auto simp: good_def)
  have fit: "fits child (x # xs)" by (rule fits_mid_branch [OF "6.prems"(2)]) simp
  obtain c old where c: "mpt_insert A child (x # xs) v = Ok (c, old)" "good c" "\<not> is_empty c"
    using "6.IH" [OF good(1) fit] by (auto simp: good_post_def)
  have "inner c"
    using mpt_insert_correct [of child "x # xs" v A] c(1) good fit shape_wf [of child]
    by (auto simp: insert_post_def good_def fits_def)
  then show ?case using c by (simp add: good_post_def good_def)
qed

section \<open>Independence of the history\<close>

datatype 'v mpt_op =
    Insert "nat list" 'v
  | Remove "nat list"

fun op_path :: "'v mpt_op \<Rightarrow> nat list" where
  "op_path (Insert p _) = p"
| "op_path (Remove p) = p"

fun mpt_apply :: "('v, 'a) ann_ops \<Rightarrow> ('v, 'a) node \<Rightarrow> 'v mpt_op \<Rightarrow> (unit, ('v, 'a) node) outcome" where
  "mpt_apply A t (Insert p v) = obind (mpt_insert A t p v) (\<lambda>(t', _). Ok t')"
| "mpt_apply A t (Remove p) = obind (mpt_remove A t p) (\<lambda>(t', _). Ok t')"

fun map_apply :: "(nat list \<Rightarrow> 'v option) \<Rightarrow> 'v mpt_op \<Rightarrow> nat list \<Rightarrow> 'v option" where
  "map_apply m (Insert p v) = m(p := Some v)"
| "map_apply m (Remove p) = m(p := None)"

text \<open>Key sets for which the trie is canonical: no key is a proper prefix of another, as for keys of one length and
  for self-delimiting encodings, and no key is longer than 255 nibbles. The hashed and integer keys of the ledger's maps are
  at most 64 nibbles long. The zero counts of a reference map (\<open>RcMap.rc_0\<close>) are not covered: they are keyed by serialized
  arena keys, which can be longer, and section ``Where canonicity is lost'' shows what happens then.\<close>

definition key_set :: "nat list set \<Rightarrow> bool" where
  "key_set K \<longleftrightarrow> (\<forall>p \<in> K. nibbles p \<and> length p \<le> 255 \<and> (\<forall>q \<in> K. \<not> strict_prefix p q))"

definition keyed :: "nat list set \<Rightarrow> ('v, 'a) ann_ops \<Rightarrow> ('v, 'a) node \<Rightarrow> bool" where
  "keyed K A t \<longleftrightarrow> canonical A t \<and> dom (mpt_get t) \<subseteq> K"

lemma keyed_flat: "key_set K \<Longrightarrow> keyed K A t \<Longrightarrow> good t"
  using short_keys_flat [of t 255] by (force simp: keyed_def key_set_def good_def canonical_iff dom_def)

lemma at_branch_extends: "at_branch t p \<Longrightarrow> shape t \<Longrightarrow> \<exists>k. k \<noteq> [] \<and> mpt_get t (p @ k) \<noteq> None"
proof (induction t arbitrary: p)
  case (Branch a cs)
  show ?case
  proof (cases p)
    case Nil
    then show ?thesis using branch_forks [OF Branch.prems(2)] unfolding forks_def by (metis append_Nil list.distinct(1))
  next
    case (Cons i q)
    then show ?thesis using Branch.IH [of "cs ! i" q] Branch.prems by (simp add: list_all_length)
  qed
next
  case (Extension a cp child)
  then obtain q where q: "p = cp @ q" by (metis append_take_drop_id at_branch.simps(2))
  then show ?case using Extension by auto
next
  case (MidBranchLeaf a v child)
  then show ?case by auto
qed auto

lemma keyed_step:
  assumes K: "key_set K" "op_path op \<in> K" and A: "annotation A" and t: "keyed K A t"
  shows "\<exists>t'. mpt_apply A t op = Ok t' \<and> keyed K A t' \<and> mpt_get t' = map_apply (mpt_get t) op"
proof (cases op)
  case (Insert p v)
  have p: "nibbles p" "fits t p" using K t Insert by (auto simp: key_set_def fits_def keyed_def dom_def)
  have wf: "mpt_wf t" "ann_ok A t" using t by (auto simp: keyed_def canonical_iff shape_wf)
  obtain t' where t': "mpt_insert A t p v = Ok (t', mpt_get t p)" "mpt_get t' = (mpt_get t)(p := Some v)"
    using mpt_insert_correct [OF wf(1) p(1), where A = A and v = v] by (auto simp: insert_post_def)
  have "shape t'" using insert_good [OF keyed_flat [OF K(1) t] p(2), where A = A and v = v] t'(1)
    by (auto simp: good_post_def good_def)
  moreover have "ann_ok A t'" using insert_ann [OF t'(1) A wf(2)] .
  ultimately show ?thesis using t' t K Insert by (auto simp: keyed_def canonical_iff)
next
  case (Remove p)
  have wf: "mpt_wf t" "ann_ok A t" "shape t" "nibbles p" using t K Remove by (auto simp: keyed_def canonical_iff shape_wf key_set_def)
  have "\<not> at_branch t p"
  proof
    assume "at_branch t p"
    from at_branch_extends [OF this wf(3)] obtain k where k: "k \<noteq> []" "mpt_get t (p @ k) \<noteq> None"
      by (elim exE conjE)
    then have "p @ k \<in> K" using t unfolding keyed_def by blast
    with k(1) show False using K Remove unfolding key_set_def by (metis op_path.simps(2) self_append_conv prefixI strict_prefix_def)
  qed
  then obtain t' where t': "mpt_remove A t p = Ok (t', mpt_get t p)" "mpt_get t' = (mpt_get t)(p := None)"
    using mpt_remove_correct [OF wf(1,4), where A = A] by (auto simp: remove_post_def)
  have "shape t'" "ann_ok A t'" using remove_shape [OF t'(1) wf(4,3)] remove_ann [OF t'(1) A wf(2)] .
  then show ?thesis using t' t Remove by (auto simp: keyed_def canonical_iff)
qed

lemma keyed_run:
  assumes "key_set K" "annotation A" "keyed K A t" "\<forall>op \<in> set ops. op_path op \<in> K"
  shows "\<exists>t'. try_fold (mpt_apply A) t ops = Ok t' \<and> keyed K A t' \<and> mpt_get t' = foldl map_apply (mpt_get t) ops"
  using assms(3,4)
proof (induction ops arbitrary: t)
  case (Cons op ops)
  then obtain t' where t': "mpt_apply A t op = Ok t'" "keyed K A t'" "mpt_get t' = map_apply (mpt_get t) op"
    using keyed_step [OF assms(1) _ assms(2), of op t] by auto
  then show ?case using Cons.IH [OF t'(2)] Cons.prems by auto
qed auto

lemma empty_keyed: "keyed K A Empty"
  by (auto simp: keyed_def canonical_iff)

text \<open>
  Property C29. Take a set of keys of at most 255 nibbles none of which is a proper prefix of another. Any sequence of
  insertions and removals of such keys, starting from the empty trie, succeeds and gives a canonical trie whose contents are those of a map under the same operations. The trie
  does not depend on the order of the operations: two sequences with the same contents give the same trie.
\<close>

theorem trie_history_independent:
  fixes ops ops' :: "'v mpt_op list"
  assumes "key_set K" and "\<forall>op \<in> set ops \<union> set ops'. op_path op \<in> K"
    and "foldl map_apply (\<lambda>_. None) ops = foldl map_apply (\<lambda>_. None) ops'"
  shows "\<exists>t. try_fold (mpt_apply size_ann) Empty ops = Ok t \<and> try_fold (mpt_apply size_ann) Empty ops' = Ok t \<and>
    canonical size_ann t \<and> mpt_get t = foldl map_apply (\<lambda>_. None) ops"
proof -
  have e: "mpt_get (Empty :: ('v, 64 word) node) = (\<lambda>_. None)" by auto
  obtain t where t: "try_fold (mpt_apply size_ann) Empty ops = Ok t" "keyed K size_ann t"
      "mpt_get t = foldl map_apply (\<lambda>_. None) ops"
    using keyed_run [OF assms(1) size_annotation.annotation_axioms empty_keyed, of ops] assms(2) e by auto
  obtain t' where t': "try_fold (mpt_apply size_ann) Empty ops' = Ok t'" "keyed K size_ann t'"
      "mpt_get t' = foldl map_apply (\<lambda>_. None) ops'"
    using keyed_run [OF assms(1) size_annotation.annotation_axioms empty_keyed, of ops'] assms(2) e by auto
  have "t = t'"
    using canonical_unique_aux [of t size_ann t'] t(2,3) t'(2,3) assms(3) by (auto simp: keyed_def canonical_iff)
  then show ?thesis using t t' by (auto simp: keyed_def)
qed

theorem trie_history_independent_witness:
  "key_set {[1, 2], [1, 3 :: nat]} \<and>
    (\<exists>t. try_fold (mpt_apply size_ann) Empty [Insert [1, 2] (7 :: nat), Insert [1, 3] 8, Remove [1, 2]] = Ok t \<and>
      try_fold (mpt_apply size_ann) Empty [Insert [1, 3] 8] = Ok t)"
proof -
  have K: "key_set {[1, 2], [1, 3 :: nat]}" by (auto simp: key_set_def strict_prefix_def)
  show ?thesis
    using K trie_history_independent [OF K, of "[Insert [1, 2] (7 :: nat), Insert [1, 3] 8, Remove [1, 2]]" "[Insert [1, 3] 8]"]
    by (auto simp: fun_upd_twist)
qed

section \<open>Where canonicity is lost\<close>

lemma match_len_differ: "x \<noteq> y \<Longrightarrow> match_len (x # xs) (y # ys) = 0"
  by (simp add: match_len_def)

lemma replicate_255: "replicate 255 x = x # replicate 254 x"
  by (simp add: numeral_eq_Suc)

lemma chunks_300: "chunks 255 (x # replicate 299 x) = [replicate 255 x, replicate 45 x]"
proof -
  have "x # replicate 299 x = replicate 255 x @ replicate 45 x" by (simp add: replicate_255 flip: replicate_add)
  then show ?thesis by (simp add: chunks.simps)
qed

text \<open>One entry under a key of 300 equal nibbles.\<close>

definition long_entry :: "nat \<Rightarrow> nat \<Rightarrow> (nat, 64 word) node" where
  "long_entry x v = Extension 1 (replicate 255 x) (Extension 1 (replicate 45 x) (Leaf 1 v))"

lemma insert_long_entry: "mpt_insert size_ann Empty (x # replicate 299 x) v = Ok (long_entry x v, None)"
  by (simp add: mpt_extension_def chunks_300 long_entry_def size_ann_def)

lemma insert_second_long_entry:
  assumes "x \<noteq> y" "x < 16" "y < 16"
  shows "\<exists>cs. mpt_insert size_ann (long_entry x v) (y # replicate 299 y) w = Ok (Branch (sum_children size_ann cs) cs, None) \<and>
    cs = (replicate 16 Empty)[x := Extension 1 (replicate 254 x) (Extension 1 (replicate 45 x) (Leaf 1 v)),
                              y := Extension 1 (replicate 255 y) (Extension 1 (replicate 44 y) (Leaf 1 w))]"
proof -
  have c: "chunks 255 (replicate 299 y) = [replicate 255 y, replicate 44 y]"
    by (simp add: chunks.simps)
  have "match_len (replicate 255 x) (take 255 (y # replicate 299 y)) = 0"
    unfolding replicate_255 using assms(1) by (simp add: match_len_differ)
  moreover have "mpt_insert size_ann Empty (replicate 299 y) w =
      Ok (Extension 1 (replicate 255 y) (Extension 1 (replicate 44 y) (Leaf 1 w)), None)"
    using c by (cases "replicate 299 y") (simp_all add: mpt_extension_def size_ann_def)
  ultimately show ?thesis using assms
    by (simp add: long_entry_def split_extension_def Let_def size_ann_def replicate_255 [of x])
qed

lemma replicate_16: "replicate 16 x = [x, x, x, x, x, x, x, x, x, x, x, x, x, x, x, x]"
  by (simp add: numeral_eq_Suc)

lemma long_entries_get:
  assumes "try_fold (mpt_apply size_ann) Empty [Insert p v, Insert q (w :: nat)] = Ok t" "nibbles p" "nibbles q"
  shows "mpt_get t = (\<lambda>_. None)(p := Some v, q := Some w)"
proof -
  obtain t1 r1 r2 where t1: "mpt_insert size_ann Empty p v = Ok (t1, r1)" "mpt_insert size_ann t1 q w = Ok (t, r2)"
    using assms(1) by (auto simp: obind_eq_Ok)
  have "mpt_wf t1 \<and> mpt_get t1 = (mpt_get (Empty :: (nat, 64 word) node))(p := Some v)"
    using mpt_insert_correct [of "Empty :: (nat, 64 word) node" p v size_ann] assms(2) t1(1)
    by (auto simp: insert_post_def)
  moreover have "mpt_get (Empty :: (nat, 64 word) node) = (\<lambda>_. None)" by auto
  ultimately show ?thesis
    using mpt_insert_correct [of t1 q w size_ann] assms(3) t1(2) by (auto simp: insert_post_def)
qed

text \<open>
  For keys of more than 255 nibbles the trie does depend on the order: two keys of 300 nibbles,
  inserted in either order, give different tries with the same contents, and neither is canonical. A key that is
  a proper prefix of the only stored key gives a branch with a single child.
\<close>

theorem insertion_loses_canonicity:
  "(\<exists>t t'. try_fold (mpt_apply size_ann) Empty [Insert (0 # replicate 299 0) (7 :: nat), Insert (1 # replicate 299 1) 8] = Ok t \<and>
      try_fold (mpt_apply size_ann) Empty [Insert (1 # replicate 299 1) 8, Insert (0 # replicate 299 0) 7] = Ok t' \<and>
      mpt_get t = mpt_get t' \<and> t \<noteq> t' \<and>
      mpt_canonicity size_ann t = Err Extension_Child \<and> mpt_canonicity size_ann t' = Err Extension_Child) \<and>
   (\<exists>t. try_fold (mpt_apply size_ann) Empty [Insert [1, 2, 3] (7 :: nat), Insert [1] 8] = Ok t \<and>
      mpt_canonicity size_ann t = Err Too_Few_Children)" (is "?long \<and> ?short")
proof (rule conjI)
  obtain cs where cs: "mpt_insert size_ann (long_entry 0 7) (1 # replicate 299 1) 8 = Ok (Branch (sum_children size_ann cs) cs, None)"
    "cs = (replicate 16 Empty)[0 := Extension 1 (replicate 254 0) (Extension 1 (replicate 45 0) (Leaf 1 7)),
                               1 := Extension 1 (replicate 255 1) (Extension 1 (replicate 44 1) (Leaf 1 8))]"
    using insert_second_long_entry [of 0 1 7 8] by auto
  obtain ds where ds: "mpt_insert size_ann (long_entry 1 8) (0 # replicate 299 0) 7 = Ok (Branch (sum_children size_ann ds) ds, None)"
    "ds = (replicate 16 Empty)[1 := Extension 1 (replicate 254 1) (Extension 1 (replicate 45 1) (Leaf 1 8)),
                               0 := Extension 1 (replicate 255 0) (Extension 1 (replicate 44 0) (Leaf 1 7))]"
    using insert_second_long_entry [of 1 0 8 7] by auto
  let ?t = "Branch (sum_children size_ann cs) cs" and ?t' = "Branch (sum_children size_ann ds) ds"
  have t: "try_fold (mpt_apply size_ann) Empty [Insert (0 # replicate 299 0) 7, Insert (1 # replicate 299 1) 8] = Ok ?t"
    and t': "try_fold (mpt_apply size_ann) Empty [Insert (1 # replicate 299 1) 8, Insert (0 # replicate 299 0) 7] = Ok ?t'"
    using cs(1) ds(1) by (simp_all add: insert_long_entry del: mpt_insert.simps)
  have "mpt_get ?t = mpt_get ?t'"
    using long_entries_get [OF t] long_entries_get [OF t'] by (simp add: nibbles_def fun_upd_twist)
  moreover have "cs ! 0 \<noteq> ds ! 0" unfolding cs(2) ds(2) by (simp add: replicate_16 replicate_eq_replicate)
  moreover have "mpt_canonicity size_ann ?t = Err Extension_Child"
    by (simp add: mpt_canonicity_def cs(2) replicate_16 filled_def list_ex_iff)
  moreover have "mpt_canonicity size_ann ?t' = Err Extension_Child"
    by (simp add: mpt_canonicity_def ds(2) replicate_16 filled_def list_ex_iff)
  ultimately show ?long
    by (intro exI [of _ ?t] exI [of _ ?t'] conjI t t') (auto simp del: mpt_get.simps)
  show ?short
    by (simp add: single_extension match_len_def split_extension_def Let_def mpt_canonicity_def replicate_16 filled_def)
qed

end
