(* ===== verification/Mpt_Range.thy ===== *)
theory Mpt_Range
  imports Mpt_History "HOL-Library.List_Lexorder" "HOL-Library.Multiset"
begin

text \<open>
  Range operations of the Merkle Patricia trie, in the lexicographic order of paths: iteration lists the
  contents, \<open>prune\<close> drops the paths below a bound, and \<open>find_predecessor\<close> finds the greatest path below one.
\<close>

section \<open>Pruning\<close>

function (sequential) mpt_prune ::
  "('v, 'a) ann_ops \<Rightarrow> ('v, 'a) node \<Rightarrow> nat list \<Rightarrow> (unit, ('v, 'a) node \<times> 'v list) outcome" where
  "mpt_prune A t [] = Ok (t, [])"
| "mpt_prune A Empty target = Ok (Empty, [])"
| "mpt_prune A (Leaf a v) target = Ok (Empty, [v])"
| "mpt_prune A (Branch a cs) (path_head # rest) =
     (if path_head \<ge> 16 \<or> path_head \<ge> length cs then Panic
      else obind (mpt_prune A (cs ! path_head) rest) (\<lambda>(child, pruned_2).
          let below_head = concat (map mpt_iter (take path_head cs));
              children = (replicate path_head Empty @ drop path_head cs)[path_head := child];
              pruned = below_head @ pruned_2;
              an = (if pruned = [] then a else sum_children A children) in
          if filled children = 0 then Ok (Empty, pruned)
          else if filled children = 1
          then (case first_filled 0 children of
                  Some (j, only) \<Rightarrow> Ok (lone_child A j only, pruned)
                | None \<Rightarrow> Panic)
          else Ok (Branch an children, pruned)))"
| "mpt_prune A (Extension a cp child) target =
     (if cp < take (length cp) target then Ok (Empty, mpt_iter child)
      else if cp = take (length cp) target
      then obind (mpt_prune A child (drop (length cp) target)) (\<lambda>(child, pruned).
        case child of
          Empty \<Rightarrow> Ok (Empty, pruned)
        | Extension _ cpath2 c \<Rightarrow> Ok (mpt_extension A (cp @ cpath2) c, pruned)
        | _ \<Rightarrow> Ok (Extension (if pruned = [] then a else node_ann A child) cp child, pruned))
      else Ok (Extension a cp child, []))"
| "mpt_prune A (MidBranchLeaf a v child) target =
     obind (mpt_prune A child target) (\<lambda>(child, pruned). Ok (child, v # pruned))"
  by pat_completeness auto
termination
  by (relation "measure (\<lambda>(A, t, target). size t)") (auto simp: size_nth)

section \<open>Predecessors\<close>

definition update_best_pred :: "(nat list \<times> 'v) option \<Rightarrow> nat list \<Rightarrow> 'v \<Rightarrow> (nat list \<times> 'v) option" where
  "update_best_pred best path v =
     (case best of
        None \<Rightarrow> Some (path, v)
      | Some (bp_path, bv) \<Rightarrow> if path > bp_path then Some (path, v) else Some (bp_path, bv))"

fun find_some :: "'x option list \<Rightarrow> 'x option" where
  "find_some [] = None"
| "find_some (None # xs) = find_some xs"
| "find_some (Some x # xs) = Some x"

fun find_largest_key :: "('v, 'a) node \<Rightarrow> nat list \<Rightarrow> (nat list \<times> 'v) option" where
  "find_largest_key Empty cur = None"
| "find_largest_key (Leaf _ v) cur = Some (cur, v)"
| "find_largest_key (Branch _ cs) cur =
     find_some (rev (map (\<lambda>i. if i < length cs then find_largest_key (cs ! i) (cur @ [i]) else None) [0..<length cs]))"
| "find_largest_key (Extension _ cp child) cur = find_largest_key child (cur @ cp)"
| "find_largest_key (MidBranchLeaf _ v child) cur =
     (case find_largest_key child cur of Some r \<Rightarrow> Some r | None \<Rightarrow> Some (cur, v))"

fun find_predecessor_recursive ::
  "('v, 'a) node \<Rightarrow> nat list \<Rightarrow> nat list \<Rightarrow> (nat list \<times> 'v) option \<Rightarrow> (unit, (nat list \<times> 'v) option) outcome" where
  "find_predecessor_recursive t target explored best =
     (let remaining = drop (length explored) target in
      if remaining = [] then Ok best
      else case t of
        Empty \<Rightarrow> Ok best
      | Leaf _ v \<Rightarrow> Ok (update_best_pred best explored v)
      | Branch _ cs \<Rightarrow>
          let path_head = hd remaining;
              siblings = (case find_some (rev (map (\<lambda>i. find_largest_key (cs ! i) (explored @ [i])) [0..<path_head])) of
                  Some (key, v) \<Rightarrow> update_best_pred best key v
                | None \<Rightarrow> best) in
          if path_head \<ge> length cs then Panic
          else if \<not> is_empty (cs ! path_head)
          then obind (find_predecessor_recursive (cs ! path_head) target (explored @ [path_head]) None) (\<lambda>r.
            Ok (if r \<noteq> None then r else siblings))
          else Ok siblings
      | Extension a cp child \<Rightarrow>
          let m = match_len cp remaining in
          if m = length cp then find_predecessor_recursive child target (explored @ cp) best
          else if m \<ge> length remaining then Panic
          else Ok (if cp ! m < remaining ! m
                   then (case find_largest_key t explored of
                           Some (key, v) \<Rightarrow> update_best_pred best key v
                         | None \<Rightarrow> best)
                   else best)
      | MidBranchLeaf _ v child \<Rightarrow>
          obind (find_predecessor_recursive child target explored None) (\<lambda>r.
            Ok (if r \<noteq> None then r else update_best_pred best explored v)))"

declare find_predecessor_recursive.simps [simp del]

definition find_predecessor :: "('v, 'a) node \<Rightarrow> nat list \<Rightarrow> (unit, (nat list \<times> 'v) option) outcome" where
  "find_predecessor t path = find_predecessor_recursive t path [] None"

section \<open>Order lemmas\<close>

lemma append_less_append [simp]: "(r @ p :: nat list) < r @ q \<longleftrightarrow> p < q"
  by (induction r) auto

lemma less_take_append: "(cp :: nat list) < take (length cp) q \<Longrightarrow> cp @ k < q"
proof (induction cp arbitrary: q)
  case (Cons x cp)
  then show ?case by (cases q) auto
qed auto

lemma not_less_take_append: "\<not> (cp :: nat list) \<le> take (length cp) q \<Longrightarrow> \<not> cp @ k < q"
proof (induction cp arbitrary: q)
  case (Cons x cp)
  then show ?case by (cases q) auto
qed auto

section \<open>What a trie lists\<close>

abbreviation entries :: "('v, 'a) node \<Rightarrow> (nat list \<times> 'v) list" where
  "entries t \<equiv> mpt_leaves t []"

abbreviation prefixed :: "nat list \<Rightarrow> nat list \<times> 'v \<Rightarrow> nat list \<times> 'v" where
  "prefixed r \<equiv> apfst ((@) r)"

lemma leaves_entries: "mpt_leaves t cur = map (prefixed cur) (entries t)"
proof -
  have "mpt_leaves t (r @ cur) = map (prefixed r) (mpt_leaves t cur)" for r cur
  proof (induction t arbitrary: cur)
    case (Branch a cs)
    have "mpt_leaves (cs ! i) (r @ cur @ [i]) = map (prefixed r) (mpt_leaves (cs ! i) (cur @ [i]))" if "i < length cs" for i
      using Branch.IH [of "cs ! i" "cur @ [i]"] that by simp
    then show ?case by (auto simp: map_concat intro!: arg_cong [where f = concat])
  qed auto
  from this [of cur "[]"] show ?thesis by simp
qed

lemma entries_extension: "entries (Extension a cp child) = map (prefixed cp) (entries child)"
  using leaves_entries [of child cp] by simp

lemma entries_branch:
  "entries (Branch a cs) = concat (map (\<lambda>i. map (prefixed [i]) (entries (cs ! i))) [0..<length cs])"
  using leaves_entries [of "cs ! _" "[_]"] by (auto intro!: arg_cong [where f = concat])

lemma entries_mid_branch: "entries (MidBranchLeaf a v child) = entries child @ [([], v)]"
  by simp

lemmas entries_simps = entries_extension entries_branch entries_mid_branch

lemma mset_concat_cong:
  "(\<And>x. x \<in> set xs \<Longrightarrow> mset (f x) = mset (g x)) \<Longrightarrow> mset (concat (map f xs)) = mset (concat (map g xs))"
  by (induction xs) auto

lemma map_children: "map f cs = map (\<lambda>i. f (cs ! i)) [0..<length cs]"
  by (rule nth_equalityI) simp_all

lemma iter_entries: "mset (mpt_iter t) = image_mset snd (mset (entries t))"
proof (induction t)
  case (Branch a cs)
  have "mset (concat (map mpt_iter cs)) = mset (concat (map (\<lambda>i. map snd (entries (cs ! i))) [0..<length cs]))"
    unfolding map_children [of mpt_iter cs] using Branch by (intro mset_concat_cong) simp
  then show ?case by (simp add: entries_branch map_concat comp_def del: mpt_leaves.simps mset_map flip: mset_map)
qed (auto simp: entries_extension multiset.map_comp comp_def simp del: mpt_leaves.simps(3,4))

lemma prefixed_image [simp]: "(k, v) \<in> prefixed r ` S \<longleftrightarrow> (\<exists>q. k = r @ q \<and> (q, v) \<in> S)"
  by force

lemma entries_get: "mpt_wf t \<Longrightarrow> (k, v) \<in> set (entries t) \<longleftrightarrow> mpt_get t k = Some v"
proof (induction t arbitrary: k)
  case (Branch a cs)
  show ?case
  proof (cases k)
    case (Cons i q)
    then show ?thesis using Branch.IH [of "cs ! i" q] Branch.prems
      by (cases "i < length cs") (auto simp: entries_branch list_all_length simp del: mpt_leaves.simps)
  qed (auto simp: entries_branch simp del: mpt_leaves.simps)
next
  case (Extension a cp child)
  show ?case
  proof (cases "take (length cp) k = cp")
    case True
    then obtain q where "k = cp @ q" by (metis append_take_drop_id)
    then show ?thesis using Extension by (auto simp: entries_extension simp del: mpt_leaves.simps)
  qed (auto simp: entries_extension simp del: mpt_leaves.simps)
next
  case (MidBranchLeaf a v' child)
  have "mpt_get child [] = None" using MidBranchLeaf.prems by (cases child) auto
  then show ?case using MidBranchLeaf by auto
qed auto

lemma entries_distinct: "mpt_wf t \<Longrightarrow> distinct (map fst (entries t))"
proof (induction t)
  case (Branch a cs)
  have "distinct (map fst (concat (map (\<lambda>i. map (prefixed [i]) (entries (cs ! i))) [0..<n])))" if "n \<le> length cs" for n
    using that
  proof (induction n)
    case (Suc n)
    then have "distinct (map fst (entries (cs ! n)))" using Branch by (simp add: list_all_length)
    then have "distinct (map ((#) n \<circ> fst) (entries (cs ! n)))" by (simp flip: map_map add: distinct_map)
    then show ?case using Suc by (auto simp: comp_def)
  qed simp
  from this [of "length cs"] show ?case by (simp add: entries_branch del: mpt_leaves.simps)
next
  case (Extension a cp child)
  then have "distinct (map ((@) cp \<circ> fst) (entries child))" by (simp flip: map_map add: distinct_map inj_on_def)
  then show ?case by (simp add: entries_extension comp_def del: mpt_leaves.simps)
next
  case (MidBranchLeaf a v child)
  have "mpt_get child [] = None" using MidBranchLeaf.prems by (cases child) auto
  then show ?case using MidBranchLeaf entries_get [of child "[]"] by force
qed auto

section \<open>Pruning drops what is below the bound\<close>

definition from_bound :: "nat list \<Rightarrow> (nat list \<Rightarrow> 'v option) \<Rightarrow> nat list \<Rightarrow> 'v option" where
  "from_bound p m k = (if k < p then None else m k)"

lemma branch_rebuild:
  assumes "length cs = 16" "list_all mpt_wf cs" "filled cs = 1"
  shows "\<exists>j only. first_filled 0 cs = Some (j, only) \<and> mpt_wf (lone_child A j only) \<and>
    mpt_get (lone_child A j only) = mpt_get (Branch a cs)"
proof -
  from first_filled_Some [OF assms(3), of 0] obtain j where j: "j < length cs" "first_filled 0 cs = Some (j, cs ! j)"
    "\<And>m. m < length cs \<Longrightarrow> m \<noteq> j \<Longrightarrow> cs ! m = Empty" by (metis add_0)
  then show ?thesis using branch_lone_get [OF j(1,3), of a] assms(1,2)
    by (simp add: lone_child_get lone_child_wf list_all_length del: mpt_get.simps)
qed

lemma get_empty: "mpt_get Empty = (\<lambda>_. None)"
  by auto

lemma branch_unfilled: "filled cs = 0 \<Longrightarrow> mpt_get (Branch a cs) = (\<lambda>_. None)"
  using nth_mem by (fastforce simp: filled_def filter_empty_conv is_empty_iff fun_eq_iff split: list.splits)

lemma extension_rebuild:
  assumes "cp \<noteq> []" "nibbles cp" "mpt_wf c"
  shows "\<exists>t'. (case c of Empty \<Rightarrow> Ok (Empty, r)
      | Extension _ p c' \<Rightarrow> Ok (mpt_extension A (cp @ p) c', r)
      | _ \<Rightarrow> Ok (Extension b cp c, r)) = Ok (t', r) \<and> mpt_wf t' \<and> mpt_get t' = below cp (mpt_get c)"
proof (cases c)
  case (Extension d p c')
  have "below cp (mpt_get c) = below (cp @ p) (mpt_get c')" unfolding Extension get_extension below_append ..
  then show ?thesis using assms Extension by (simp add: extension_get extension_wf)
qed (use assms in \<open>simp_all add: get_extension fun_eq_iff below_def\<close>)

lemma prune_correct:
  "mpt_wf t \<Longrightarrow> nibbles p \<Longrightarrow>
    \<exists>t' ps. mpt_prune A t p = Ok (t', ps) \<and> mpt_wf t' \<and> mpt_get t' = from_bound p (mpt_get t)"
proof (induction A t p rule: mpt_prune.induct)
  case (1 A t)
  then show ?case by (simp add: from_bound_def fun_eq_iff)
next
  case (4 A a cs h rest)
  then have h: "h < 16" "length cs = 16" "nibbles rest" "list_all mpt_wf cs" by auto
  then obtain c ps where c: "mpt_prune A (cs ! h) rest = Ok (c, ps)" "mpt_wf c" "mpt_get c = from_bound rest (mpt_get (cs ! h))"
    using "4.IH" by (auto simp: list_all_length)
  define ds where "ds = (replicate h Empty @ drop h cs)[h := c]"
  have nth: "ds ! i = (if i < h then Empty else if i = h then c else cs ! i)" if "i < 16" for i
    using that h by (auto simp: ds_def nth_append nth_list_update)
  have ds: "length ds = 16" "list_all mpt_wf ds"
    using h c(2) nth by (simp_all add: ds_def list_all_length)
  have get: "mpt_get (Branch b ds) = from_bound (h # rest) (mpt_get (Branch a cs))" for b
  proof
    fix k
    show "mpt_get (Branch b ds) k = from_bound (h # rest) (mpt_get (Branch a cs)) k"
      using ds(1) nth h c(3) by (cases k) (auto simp: from_bound_def)
  qed
  show ?case
    using c(1) h ds get [of a] branch_rebuild [OF ds, of A a] branch_unfilled [of ds a]
    by (auto simp: Let_def ds_def [symmetric] get get_empty simp del: mpt_get.simps)
next
  case (5 A a cp child x xs)
  let ?p = "x # xs"
  have wf: "cp \<noteq> []" "nibbles cp" "mpt_wf child" using "5.prems" by auto
  consider "cp < take (length cp) ?p" | "cp = take (length cp) ?p" | "\<not> cp \<le> take (length cp) ?p"
    by fastforce
  then show ?case
  proof cases
    case 1
    have "from_bound ?p (mpt_get (Extension a cp child)) k = None" for k
      using less_take_append [OF 1, of "drop (length cp) k"]
      by (auto simp: from_bound_def) (metis append_take_drop_id)
    then show ?thesis using 1 by (auto simp: Let_def fun_eq_iff simp del: mpt_get.simps(4))
  next
    case 2
    then obtain q where q: "?p = cp @ q" by (metis append_take_drop_id)
    then have "drop (length cp) ?p = q" "nibbles q" using "5.prems"(2) by (metis append_eq_conv_conj, metis nibbles_simps(3))
    moreover have "\<not> cp < take (length cp) ?p" using 2 by simp
    ultimately obtain c ps where c: "mpt_prune A child q = Ok (c, ps)" "mpt_wf c" "mpt_get c = from_bound q (mpt_get child)"
      using "5.IH" [OF _ 2 wf(3)] by metis
    have "below cp (mpt_get c) = from_bound ?p (mpt_get (Extension a cp child))"
      unfolding c(3) q by (auto simp: fun_eq_iff below_def from_bound_def) (metis append_less_append append_take_drop_id)+
    then obtain t' where t': "(case c of Empty \<Rightarrow> Ok (Empty, ps)
        | Extension _ p c' \<Rightarrow> Ok (mpt_extension A (cp @ p) c', ps)
        | _ \<Rightarrow> Ok (Extension (if ps = [] then a else node_ann A c) cp c, ps)) = Ok (t', ps)"
      "mpt_wf t'" "mpt_get t' = from_bound ?p (mpt_get (Extension a cp child))"
      using extension_rebuild [OF wf(1,2) c(2), where r = ps and A = A and b = "if ps = [] then a else node_ann A c"]
      by metis
    then have "mpt_prune A (Extension a cp child) ?p = Ok (t', ps)"
      using c(1) \<open>drop (length cp) ?p = q\<close> 2 [symmetric] by (cases c; cases "ps = []") (simp_all add: Let_def)
    then show ?thesis using t'(2,3) by blast
  next
    case 3
    have "from_bound ?p (mpt_get (Extension a cp child)) k = mpt_get (Extension a cp child) k" for k
      using not_less_take_append [OF 3, of "drop (length cp) k"]
      by (auto simp: from_bound_def) (metis append_take_drop_id)
    then show ?thesis using 3 "5.prems" by (auto simp: Let_def fun_eq_iff simp del: mpt_get.simps(4))
  qed
next
  case (6 A a v child x xs)
  then show ?case by (auto simp: from_bound_def fun_eq_iff)
qed (auto simp: from_bound_def fun_eq_iff)

text \<open>The values that \<open>prune\<close> returns are those of the paths it drops.\<close>

abbreviation dropped :: "nat list \<Rightarrow> (nat list \<times> 'v) list \<Rightarrow> 'v list" where
  "dropped p es \<equiv> map snd (filter (\<lambda>e. fst e < p) es)"

lemma map_snd_prefixed [simp]: "map snd (map (prefixed r) es) = map snd es"
  by simp

lemma dropped_prefixed: "dropped p (map (prefixed r) es) = map snd (filter (\<lambda>e. r @ fst e < p) es)"
  by (induction es) auto

lemma dropped_branch:
  assumes "h < length cs"
  shows "mset (dropped (h # rest) (entries (Branch a cs))) =
    mset (concat (map mpt_iter (take h cs))) + mset (dropped rest (entries (cs ! h)))"
proof -
  let ?f = "\<lambda>i. dropped (h # rest) (map (prefixed [i]) (entries (cs ! i)))"
  have upt: "[0..<length cs] = [0..<h] @ h # [Suc h..<length cs]"
    using assms upt_conv_Cons [OF assms] upt_add_eq_append [of 0 h "length cs - h"] by simp
  have f: "?f i = (if i < h then map snd (entries (cs ! i)) else if i = h then dropped rest (entries (cs ! h)) else [])" for i
    unfolding dropped_prefixed by auto
  have "dropped (h # rest) (entries (Branch a cs)) = concat (map ?f [0..<length cs])"
    unfolding entries_branch by (simp add: filter_concat map_concat comp_def)
  also have "\<dots> = concat (map (\<lambda>i. map snd (entries (cs ! i))) [0..<h]) @ dropped rest (entries (cs ! h))"
    unfolding upt f by (auto simp: concat_eq_Nil_conv intro!: arg_cong [where f = concat])
  also have "mset \<dots> = mset (concat (map mpt_iter (take h cs))) + mset (dropped rest (entries (cs ! h)))"
    unfolding map_children [of mpt_iter "take h cs"] using assms
    by (auto simp: min_def iter_entries intro!: mset_concat_cong)
  finally show ?thesis .
qed

lemma prune_values:
  "mpt_wf t \<Longrightarrow> mpt_prune A t p = Ok (t', ps) \<Longrightarrow> mset ps = mset (dropped p (entries t))"
proof (induction A t p arbitrary: t' ps rule: mpt_prune.induct)
  case (4 A a cs h rest)
  then have h: "h < 16" "length cs = 16" by (auto split: if_splits)
  obtain c ps2 where c: "mpt_prune A (cs ! h) rest = Ok (c, ps2)" "ps = concat (map mpt_iter (take h cs)) @ ps2"
    using "4.prems"(2) h by (auto simp: obind_eq_Ok Let_def split: if_splits option.splits)
  then have "mset ps2 = mset (dropped rest (entries (cs ! h)))"
    using "4.IH" [OF _ _ c(1)] "4.prems"(1) h by (simp add: list_all_length)
  then show ?case using dropped_branch [of h cs rest a] h c(2) by simp
next
  case (5 A a cp child x xs)
  let ?p = "x # xs"
  consider "cp < take (length cp) ?p" | "cp = take (length cp) ?p" | "\<not> cp \<le> take (length cp) ?p"
    by fastforce
  then show ?case
  proof cases
    case 1
    then have "dropped ?p (entries (Extension a cp child)) = map snd (entries child)"
      unfolding entries_extension dropped_prefixed by (auto simp: less_take_append)
    then show ?thesis using 1 "5.prems"(2) iter_entries [of child] by (auto simp: Let_def)
  next
    case 2
    then obtain q where q: "?p = cp @ q" by (metis append_take_drop_id)
    then have dr: "drop (length cp) ?p = q" by (metis append_eq_conv_conj)
    obtain c r where r: "mpt_prune A child q = Ok (c, r)"
      using "5.prems"(2) 2 [symmetric] dr by (auto simp: Let_def obind_eq_Ok)
    then have c: "mpt_prune A child q = Ok (c, ps)"
      using "5.prems"(2) 2 [symmetric] dr by (cases c) (simp_all add: Let_def)
    then have "mset ps = mset (dropped q (entries child))"
      using "5.IH" [OF _ 2, of c ps] "5.prems"(1) 2 [symmetric] dr by simp
    then show ?thesis unfolding entries_extension dropped_prefixed q by simp
  next
    case 3
    then have "dropped ?p (entries (Extension a cp child)) = []"
      unfolding entries_extension dropped_prefixed by (auto simp: not_less_take_append filter_empty_conv)
    moreover have "\<not> cp < take (length cp) ?p" "cp \<noteq> take (length cp) ?p" using 3 by auto
    then have "ps = []" using "5.prems"(2) by (simp add: Let_def)
    ultimately show ?thesis by (simp only:)
  qed
next
  case (6 A a v child x xs)
  then show ?case by (auto simp: obind_eq_Ok)
qed auto

section \<open>Pruning keeps tries canonical\<close>

text \<open>The results of pruning a branch and an extension.\<close>

lemma prune_branch_cases:
  assumes "mpt_prune A (Branch a cs) (h # rest) = Ok (t', ps)"
  obtains c ps2 ds where "h < 16" "h < length cs" "mpt_prune A (cs ! h) rest = Ok (c, ps2)"
    "ps = concat (map mpt_iter (take h cs)) @ ps2" "ds = (replicate h Empty @ drop h cs)[h := c]"
    "filled ds = 0 \<and> t' = Empty \<or>
     (\<exists>j only. filled ds = 1 \<and> first_filled 0 ds = Some (j, only) \<and> t' = lone_child A j only) \<or>
     2 \<le> filled ds \<and> t' = Branch (if ps = [] then a else sum_children A ds) ds"
proof -
  have h: "h < 16" "h < length cs" using assms by (auto split: if_splits)
  obtain c ps2 where c: "mpt_prune A (cs ! h) rest = Ok (c, ps2)" using assms h by (auto simp: obind_eq_Ok Let_def)
  define ds where "ds = (replicate h Empty @ drop h cs)[h := c]"
  define qs where "qs = concat (map mpt_iter (take h cs)) @ ps2"
  have "(if filled ds = 0 then Ok (Empty, qs)
      else if filled ds = 1 then (case first_filled 0 ds of Some (j, only) \<Rightarrow> Ok (lone_child A j only, qs) | None \<Rightarrow> Panic)
      else Ok (Branch (if qs = [] then a else sum_children A ds) ds, qs)) = (Ok (t', ps) :: (unit, _) outcome)"
    using assms h unfolding mpt_prune.simps Let_def c obind.simps prod.case ds_def [symmetric] qs_def [symmetric]
    by (simp only: not_le [symmetric] simp_thms if_False)
  then have "ps = qs" "filled ds = 0 \<and> t' = Empty \<or>
     (\<exists>j only. filled ds = 1 \<and> first_filled 0 ds = Some (j, only) \<and> t' = lone_child A j only) \<or>
     2 \<le> filled ds \<and> t' = Branch (if qs = [] then a else sum_children A ds) ds"
    by (auto split: if_splits option.splits)
  then show ?thesis using that [OF h c _ ds_def] qs_def by simp
qed

lemma prune_extension_cases:
  assumes "mpt_prune A (Extension a cp child) (x # xs) = Ok (t', ps)"
  obtains "t' = Empty" "ps = mpt_iter child"
  | "t' = Extension a cp child" "ps = []"
  | c where "cp = take (length cp) (x # xs)" "mpt_prune A child (drop (length cp) (x # xs)) = Ok (c, ps)"
      "t' = (case c of Empty \<Rightarrow> Empty | Extension _ p c' \<Rightarrow> mpt_extension A (cp @ p) c'
             | _ \<Rightarrow> Extension (if ps = [] then a else node_ann A c) cp c)"
proof (cases "\<not> cp < take (length cp) (x # xs) \<and> cp = take (length cp) (x # xs)")
  case True
  then obtain c r where c: "mpt_prune A child (drop (length cp) (x # xs)) = Ok (c, r)"
    using assms by (auto simp: Let_def obind_eq_Ok)
  show ?thesis
  proof (rule that(3))
    show "cp = take (length cp) (x # xs)" using True by simp
    show "mpt_prune A child (drop (length cp) (x # xs)) = Ok (c, ps)"
      using c assms True by (cases c) (auto simp: Let_def)
    then show "t' = (case c of Empty \<Rightarrow> Empty | Extension _ p c' \<Rightarrow> mpt_extension A (cp @ p) c'
             | _ \<Rightarrow> Extension (if ps = [] then a else node_ann A c) cp c)"
      using assms True by (cases c) (auto simp: Let_def)
  qed
next
  case False
  then show ?thesis using assms that(1,2) by (auto simp: Let_def split: if_splits)
qed

lemma children_all:
  assumes "list_all P cs" "P Empty" "P c" "h < length cs" "ds = (replicate h Empty @ drop h cs)[h := c]"
  shows "list_all P ds \<and> length ds = length cs"
proof -
  have "list_all P (replicate h Empty @ drop h cs)" using assms(1,2) by (auto simp: list_all_iff dest: in_set_dropD)
  then show ?thesis using assms by (auto intro!: list_all_update)
qed

lemma prune_shape: "mpt_prune A t p = Ok (t', ps) \<Longrightarrow> nibbles p \<Longrightarrow> shape t \<Longrightarrow> shape t'"
proof (induction A t p arbitrary: t' ps rule: mpt_prune.induct)
  case (4 A a cs h rest)
  from "4.prems"(1) obtain c ps2 ds where c: "h < 16" "h < length cs" "mpt_prune A (cs ! h) rest = Ok (c, ps2)"
    and ds: "ds = (replicate h Empty @ drop h cs)[h := c]"
    and t': "filled ds = 0 \<and> t' = Empty \<or>
     (\<exists>j only. filled ds = 1 \<and> first_filled 0 ds = Some (j, only) \<and> t' = lone_child A j only) \<or>
     2 \<le> filled ds \<and> t' = Branch (if ps = [] then a else sum_children A ds) ds"
    by (rule prune_branch_cases)
  have "shape c" using "4.IH" [OF _ c(3)] c(1,2) "4.prems"(2,3) by (simp add: list_all_length)
  then have all: "list_all shape ds" "length ds = 16"
    using children_all [OF _ _ _ c(2) ds, of shape] "4.prems"(3) by auto
  then show ?case using t' first_filled_nth [of 0 ds] by (auto simp: list_all_length intro!: lone_child_shape)
next
  case (5 A a cp child x xs)
  from "5.prems"(1) show ?case
  proof (cases rule: prune_extension_cases)
    case (3 c)
    then have "shape c" using "5.IH" [OF _ 3(1,2)] "5.prems"(2,3) by (auto simp: nibbles_drop)
    then show ?thesis using 3 "5.prems"(3) by (cases c) (auto intro!: extension_shape)
  qed (use "5.prems" in auto)
qed (auto simp: obind_eq_Ok)

lemma iter_Nil:
  assumes "shape t" "mpt_iter t = []"
  shows "t = Empty"
proof (rule ccontr)
  assume "t \<noteq> Empty"
  then obtain k v where "mpt_get t k = Some v" using shape_nonempty [OF assms(1)] by (auto simp: is_empty_iff)
  then have "(k, v) \<in> set (entries t)" using entries_get [OF shape_wf [OF assms(1)]] by simp
  moreover have "mset (entries t) = {#}" using iter_entries [of t] assms(2) by simp
  ultimately show False by simp
qed

lemma extension_chain:
  assumes "shape (Extension a cp (Extension b q c))" "ann_ok A (Extension a cp (Extension b q c))"
  shows "mpt_extension A (cp @ q) c = Extension a cp (Extension b q c)"
proof -
  have len: "length cp = 255" "q \<noteq> []" "length q \<le> 255" "is_ext c \<longrightarrow> length q = 255" using assms(1) by auto
  then have "chunks 255 q = [q]" by (simp add: chunks.simps)
  then have "chunks 255 (cp @ q) = [cp, q]" using len by (subst chunks.simps) simp
  moreover have "absorb (cp @ q) c = (cp @ q, c)" using len by (cases c) auto
  ultimately show ?thesis using assms(2) by (simp add: mpt_extension_def)
qed

text \<open>Where nothing is dropped, nothing changes.\<close>

lemma prune_nothing:
  fixes t :: "('v, 'a) node"
  shows "mpt_prune A t p = Ok (t', []) \<Longrightarrow> shape t \<Longrightarrow> ann_ok A t \<Longrightarrow> t' = t"
proof (induction A t p arbitrary: t' rule: mpt_prune.induct)
  case (4 A a cs h rest)
  from "4.prems"(1) obtain c ps2 ds where c: "h < 16" "h < length cs" "mpt_prune A (cs ! h) rest = Ok (c, ps2)"
    and ps: "[] = concat (map mpt_iter (take h cs)) @ ps2" and ds: "ds = (replicate h Empty @ drop h cs)[h := c]"
    and t': "filled ds = 0 \<and> t' = Empty \<or>
     (\<exists>j only. filled ds = 1 \<and> first_filled 0 ds = Some (j, only) \<and> t' = lone_child A j only) \<or>
     2 \<le> filled ds \<and> t' = Branch (if [] = ([] :: 'v list) then a else sum_children A ds) ds"
    by (rule prune_branch_cases)
  have "c = cs ! h" using "4.IH" c ps "4.prems"(2,3) by (simp add: list_all_length)
  moreover have "take h cs = replicate h Empty"
  proof (rule nth_equalityI)
    fix i assume i: "i < length (take h cs)"
    then have "mpt_iter (cs ! i) = []" using ps nth_mem [OF i] by simp
    then show "take h cs ! i = replicate h Empty ! i" using i iter_Nil [of "cs ! i"] "4.prems"(2) c(2) by (simp add: list_all_length)
  qed (use c(2) in simp)
  ultimately have "ds = cs" using c(2) ds append_take_drop_id [of h cs] by (metis list_update_id)
  then show ?case using t' "4.prems"(2) by auto
next
  case (5 A a cp child x xs)
  from "5.prems"(1) show ?case
  proof (cases rule: prune_extension_cases)
    case 1
    then show ?thesis using iter_Nil [of child] "5.prems"(2) by (auto simp: is_empty_iff)
  next
    case (3 c)
    then have "c = child" using "5.IH" [OF _ 3(1), of c] "5.prems"(2,3) by (metis ann_ok.simps(4) less_irrefl shape.simps(4))
    then show ?thesis using 3(3) "5.prems"(2,3) extension_chain by (cases child) auto
  qed auto
qed (auto simp: obind_eq_Ok)

lemma prune_ann: "mpt_prune A t p = Ok (t', ps) \<Longrightarrow> annotation A \<Longrightarrow> shape t \<Longrightarrow> ann_ok A t \<Longrightarrow> ann_ok A t'"
proof (induction A t p arbitrary: t' ps rule: mpt_prune.induct)
  case (4 A a cs h rest)
  from "4.prems"(1) obtain c ps2 ds where c: "h < 16" "h < length cs" "mpt_prune A (cs ! h) rest = Ok (c, ps2)"
    and ds: "ds = (replicate h Empty @ drop h cs)[h := c]"
    and t': "filled ds = 0 \<and> t' = Empty \<or>
     (\<exists>j only. filled ds = 1 \<and> first_filled 0 ds = Some (j, only) \<and> t' = lone_child A j only) \<or>
     2 \<le> filled ds \<and> t' = Branch (if ps = [] then a else sum_children A ds) ds"
    by (rule prune_branch_cases)
  have "ann_ok A c" using "4.IH" [OF _ c(3)] c(1,2) "4.prems"(2-4) by (simp add: list_all_length)
  then have all: "list_all (ann_ok A) ds" using children_all [OF _ _ _ c(2) ds, of "ann_ok A"] "4.prems"(4) by auto
  show ?case
  proof (cases "ps = []")
    case True
    then show ?thesis using prune_nothing "4.prems" by metis
  next
    case False
    then show ?thesis using t' all first_filled_nth [of 0 ds] annotation.lone_child_ann [OF "4.prems"(2)]
      by (auto simp: list_all_length)
  qed
next
  case (5 A a cp child x xs)
  from "5.prems"(1) show ?case
  proof (cases rule: prune_extension_cases)
    case (3 c)
    then have "ann_ok A c" using "5.IH" [OF _ 3(1,2)] "5.prems"(2-4) by auto
    moreover have "c = child" if "ps = []" using prune_nothing [of A child _ c] 3(2) "5.prems"(3,4) that by auto
    ultimately show ?thesis using 3 "5.prems"(2,4) annotation.extension_ann by (cases c) auto
  qed (use "5.prems" in auto)
qed (auto simp: obind_eq_Ok)

section \<open>Predecessors are the greatest smaller keys\<close>

definition is_greatest :: "(nat list \<Rightarrow> 'v option) \<Rightarrow> (nat list \<times> 'v) option \<Rightarrow> bool" where
  "is_greatest m r = (case r of
     None \<Rightarrow> \<forall>k. m k = None
   | Some (k, v) \<Rightarrow> m k = Some v \<and> (\<forall>k'. m k' \<noteq> None \<longrightarrow> k' \<le> k))"

definition is_predecessor :: "(nat list \<Rightarrow> 'v option) \<Rightarrow> nat list \<Rightarrow> (nat list \<times> 'v) option \<Rightarrow> bool" where
  "is_predecessor m q r = is_greatest (\<lambda>k. if k < q then m k else None) r"

lemma append_le_append [simp]: "(r @ p :: nat list) \<le> r @ q \<longleftrightarrow> p \<le> q"
  by (induction r) auto

lemma greatest_below: "is_greatest m r \<Longrightarrow> is_greatest (below p m) (map_option (prefixed p) r)"
proof -
  assume g: "is_greatest m r"
  have "\<exists>j. k = p @ j \<and> m j \<noteq> None" if "below p m k \<noteq> None" for k
    using that by (auto simp: below_def split: if_splits) (metis append_take_drop_id)
  then show ?thesis using g by (cases r) (fastforce simp: is_greatest_def below_def)+
qed

lemma prefixed_append: "map_option (prefixed r) (map_option (prefixed s) x) = map_option (prefixed (r @ s)) x"
  by (cases x) auto

lemma find_some_rev:
  obtains "find_some (rev (map f [0..<n])) = None" "\<And>i. i < n \<Longrightarrow> f i = None"
  | i x where "find_some (rev (map f [0..<n])) = Some x" "i < n" "f i = Some x" "\<And>j. i < j \<Longrightarrow> j < n \<Longrightarrow> f j = None"
proof -
  have "find_some (rev (map f [0..<n])) = None \<and> (\<forall>i < n. f i = None) \<or>
    (\<exists>i x. find_some (rev (map f [0..<n])) = Some x \<and> i < n \<and> f i = Some x \<and> (\<forall>j. i < j \<longrightarrow> j < n \<longrightarrow> f j = None))"
  proof (induction n)
    case (Suc n)
    then show ?case by (cases "f n") (auto simp: less_Suc_eq)
  qed simp
  then show ?thesis using that by blast
qed

lemma find_largest_key_greatest:
  "mpt_wf t \<Longrightarrow> \<exists>r. find_largest_key t cur = map_option (prefixed cur) r \<and> is_greatest (mpt_get t) r"
proof (induction t arbitrary: cur)
  case (Branch a cs)
  let ?f = "\<lambda>i. if i < length cs then find_largest_key (cs ! i) (cur @ [i]) else None"
  have IH: "\<exists>r. ?f i = map_option (prefixed (cur @ [i])) r \<and> is_greatest (mpt_get (cs ! i)) r" if "i < length cs" for i
    using Branch.IH [of "cs ! i" "cur @ [i]"] Branch.prems that by (simp add: list_all_length del: append_assoc)
  have none: "mpt_get (cs ! i) k = None" if "i < length cs" "?f i = None" for i k
    using IH [OF that(1)] that by (auto simp: is_greatest_def)
  show ?case
  proof (rule find_some_rev [of ?f "length cs"])
    assume "find_some (rev (map ?f [0..<length cs])) = None" "\<And>i. i < length cs \<Longrightarrow> ?f i = None"
    then show ?thesis using none by (auto simp: is_greatest_def split: list.splits intro!: exI [of _ None])
  next
    fix i x
    assume x: "find_some (rev (map ?f [0..<length cs])) = Some x" "i < length cs" "?f i = Some x"
      "\<And>j. i < j \<Longrightarrow> j < length cs \<Longrightarrow> ?f j = None"
    obtain r where r: "?f i = map_option (prefixed (cur @ [i])) r" "is_greatest (mpt_get (cs ! i)) r"
      using IH [OF x(2)] by (elim exE conjE)
    then obtain k v where "r = Some (k, v)" using x(3) by (cases r) auto
    then have kv: "x = (cur @ [i] @ k, v)" "mpt_get (cs ! i) k = Some v" "\<And>k'. mpt_get (cs ! i) k' \<noteq> None \<Longrightarrow> k' \<le> k"
      using r x(3) by (auto simp: is_greatest_def)
    have "is_greatest (mpt_get (Branch a cs)) (Some (i # k, v))"
      using kv x(2,4) none by (auto simp: is_greatest_def split: list.splits if_splits) (metis linorder_neqE_nat option.distinct(1))+
    then show ?thesis using x(1) kv(1) by (intro exI [of _ "Some (i # k, v)"]) (simp del: mpt_get.simps)
  qed
next
  case (Extension a cp child)
  then obtain r where "find_largest_key child (cur @ cp) = map_option (prefixed (cur @ cp)) r" "is_greatest (mpt_get child) r"
    by fastforce
  then show ?case
    using greatest_below [of "mpt_get child" r cp]
    by (intro exI [of _ "map_option (prefixed cp) r"]) (auto simp: get_extension prefixed_append simp del: mpt_get.simps)
next
  case (MidBranchLeaf a v child)
  then obtain r where r: "find_largest_key child cur = map_option (prefixed cur) r" "is_greatest (mpt_get child) r"
    by fastforce
  show ?case
  proof (cases r)
    case None
    then show ?thesis using r by (intro exI [of _ "Some ([], v)"]) (auto simp: is_greatest_def)
  next
    case (Some e)
    moreover have "mpt_get child [] = None" using MidBranchLeaf.prems by (cases child) auto
    ultimately show ?thesis using r by (intro exI [of _ r]) (auto simp: is_greatest_def)
  qed
qed (auto simp: is_greatest_def intro: exI [of _ None] exI [of _ "Some ([], _)"])

lemma match_len_less:
  assumes "match_len cp q < length cp" "match_len cp q < length q"
  shows "(cp @ k < q) = (cp ! match_len cp q < q ! match_len cp q)"
  using assms
proof (induction cp arbitrary: q)
  case (Cons x cp)
  then show ?case by (cases q) (auto simp: match_len_def)
qed simp

lemma predecessor_below: "is_predecessor m q r \<Longrightarrow> is_predecessor (below p m) (p @ q) (map_option (prefixed p) r)"
proof -
  assume "is_predecessor m q r"
  moreover have "(\<lambda>k. if k < p @ q then below p m k else None) = below p (\<lambda>k. if k < q then m k else None)"
    by (auto simp: fun_eq_iff below_def) (metis append_less_append append_take_drop_id)+
  ultimately show ?thesis using greatest_below by (simp add: is_predecessor_def)
qed

text \<open>Keys of one length \<open>n\<close>.\<close>

definition uniform :: "nat \<Rightarrow> (nat list \<Rightarrow> 'v option) \<Rightarrow> bool" where
  "uniform n m \<longleftrightarrow> (\<forall>k. m k \<noteq> None \<longrightarrow> length k = n)"

lemma uniform_below: "uniform (length p + n) (below p m) \<Longrightarrow> uniform n m"
  unfolding uniform_def by (metis add_left_imp_eq below_at length_append)

definition pred_post :: "('v, 'a) node \<Rightarrow> nat list \<Rightarrow> nat list \<Rightarrow> bool" where
  "pred_post t explored q \<longleftrightarrow> (\<exists>r. find_predecessor_recursive t (explored @ q) explored None =
     Ok (map_option (prefixed explored) r) \<and> is_predecessor (mpt_get t) q r)"

lemma update_best_none: "(case x of None \<Rightarrow> None | Some (key, v) \<Rightarrow> update_best_pred None key v) = x"
  by (auto simp: update_best_pred_def split: option.splits)

lemma predecessor_branch:
  assumes cs: "length cs = 16" "list_all shape cs" "h < 16"
    and child: "is_empty (cs ! h) \<or> pred_post (cs ! h) (explored @ [h]) q"
  shows "pred_post (Branch a cs) explored (h # q)"
proof -
  let ?m = "\<lambda>k. if k < h # q then mpt_get (Branch a cs) k else None"
  let ?f = "\<lambda>i. find_largest_key (cs ! i) (explored @ [i])"
  have f: "\<exists>r. ?f i = map_option (prefixed (explored @ [i])) r \<and> is_greatest (mpt_get (cs ! i)) r" if "i < h" for i
    using find_largest_key_greatest [OF shape_wf, of "cs ! i" "explored @ [i]"] cs that by (simp add: list_all_length)
  have "\<exists>r. (is_empty (cs ! h) \<and> r = None \<or> \<not> is_empty (cs ! h) \<and> find_predecessor_recursive (cs ! h) ((explored @ [h]) @ q) (explored @ [h]) None =
      Ok (map_option (prefixed (explored @ [h])) r)) \<and> is_predecessor (mpt_get (cs ! h)) q r"
  proof (cases "is_empty (cs ! h)")
    case True
    then show ?thesis by (auto simp: is_empty_iff is_predecessor_def is_greatest_def intro!: exI [of _ None])
  qed (use child pred_post_def in blast)
  then obtain r where "is_empty (cs ! h) \<and> r = None \<or> \<not> is_empty (cs ! h) \<and> find_predecessor_recursive (cs ! h) ((explored @ [h]) @ q) (explored @ [h]) None =
      Ok (map_option (prefixed (explored @ [h])) r)" and r2: "is_predecessor (mpt_get (cs ! h)) q r"
    by (elim exE conjE)
  then have r: "is_empty (cs ! h) \<and> r = None \<or> \<not> is_empty (cs ! h) \<and> find_predecessor_recursive (cs ! h) (explored @ h # q) (explored @ [h]) None =
      Ok (map_option (prefixed (explored @ [h])) r)" "is_predecessor (mpt_get (cs ! h)) q r"
    by simp_all
  have run: "find_predecessor_recursive (Branch a cs) (explored @ h # q) explored None =
      Ok (if r \<noteq> None then map_option (prefixed (explored @ [h])) r else find_some (rev (map ?f [0..<h])))"
    using r(1) cs by (subst find_predecessor_recursive.simps) (auto simp: Let_def update_best_none)
  have none: "mpt_get (cs ! i) k = None" if "i < h" "?f i = None" for i k
    using f [OF that(1)] that(2) by (auto simp: is_greatest_def)
  have at_h: "k' \<le> k" if "r = Some (k, v)" "mpt_get (cs ! h) k' \<noteq> None" "k' < q" for k k' v
    using r(2) that by (auto simp: is_predecessor_def is_greatest_def)
  have none_h: "mpt_get (cs ! h) k' = None" if "r = None" "k' < q" for k'
    using r(2) that by (auto simp: is_predecessor_def is_greatest_def split: if_splits)
  show ?thesis
  proof (cases r)
    case (Some e)
    obtain k v where e: "r = Some (k, v)" using Some by (cases e) auto
    then have k: "mpt_get (cs ! h) k = Some v" "k < q"
      using r(2) by (auto simp: is_predecessor_def is_greatest_def split: if_splits)
    have "is_greatest ?m (Some (h # k, v))"
      using k cs at_h [OF e] by (auto simp: is_greatest_def split: list.splits if_splits)
    then show ?thesis using run e unfolding pred_post_def is_predecessor_def
      by (intro exI [of _ "Some (h # k, v)"]) simp
  next
    case None
    show ?thesis
    proof (rule find_some_rev [of ?f h])
      assume *: "find_some (rev (map ?f [0..<h])) = None" "\<And>i. i < h \<Longrightarrow> ?f i = None"
      have "is_greatest ?m None"
        using none [OF _ *(2)] none_h [OF None] by (auto simp: is_greatest_def split: list.splits)
      then show ?thesis using run None * unfolding pred_post_def is_predecessor_def by (intro exI [of _ None]) simp
    next
      fix i x
      assume x: "find_some (rev (map ?f [0..<h])) = Some x" "i < h" "?f i = Some x" "\<And>j. i < j \<Longrightarrow> j < h \<Longrightarrow> ?f j = None"
      obtain s where s: "?f i = map_option (prefixed (explored @ [i])) s" "is_greatest (mpt_get (cs ! i)) s"
        using f [OF x(2)] by (elim exE conjE)
      then obtain k v where "s = Some (k, v)" using x(3) by (cases s) auto
      then have kv: "x = (explored @ [i] @ k, v)" "mpt_get (cs ! i) k = Some v" "\<And>k'. mpt_get (cs ! i) k' \<noteq> None \<Longrightarrow> k' \<le> k"
        using s x(3) by (auto simp: is_greatest_def)
      have "k' \<le> i # k" if "?m k' \<noteq> None" for k'
      proof (cases k')
        case (Cons j l)
        then show ?thesis using that kv(3) [of l] none [OF _ x(4), of j l] none_h [OF None, of l] cs(1) x(2)
          by (cases j i rule: linorder_cases) (auto split: if_splits)
      qed simp
      then have "is_greatest ?m (Some (i # k, v))" using kv(2) x(2) cs by (auto simp: is_greatest_def)
      then show ?thesis using run None x(1) kv(1) unfolding pred_post_def is_predecessor_def
        by (intro exI [of _ "Some (i # k, v)"]) simp
    qed
  qed
qed

lemma predecessor_extension:
  assumes t: "shape (Extension a cp child)" "uniform (length q) (mpt_get (Extension a cp child))"
    and child: "\<And>q'. q = cp @ q' \<Longrightarrow> pred_post child (explored @ cp) q'"
  shows "pred_post (Extension a cp child) explored q"
proof (cases "q = []")
  case True
  then show ?thesis unfolding pred_post_def
    by (subst find_predecessor_recursive.simps) (auto simp: is_predecessor_def is_greatest_def intro!: exI [of _ None])
next
  case False
  let ?t = "Extension a cp child"
  let ?m = "match_len cp q"
  show ?thesis
  proof (cases "?m = length cp")
    case True
    then have "q = cp @ drop (length cp) q" using match_len_take [of cp q] by (metis append_take_drop_id order_refl take_all)
    then obtain q' where q': "q = cp @ q'" by blast
    then obtain r where r: "find_predecessor_recursive child (explored @ cp @ q') (explored @ cp) None =
        Ok (map_option (prefixed (explored @ cp)) r)" "is_predecessor (mpt_get child) q' r"
      using child unfolding pred_post_def by auto
    then show ?thesis using True False q' predecessor_below [OF r(2), of cp] unfolding pred_post_def
      by (subst find_predecessor_recursive.simps)
        (auto simp: Let_def get_extension prefixed_append intro!: exI [of _ "map_option (prefixed cp) r"] simp del: mpt_get.simps)
  next
    case m: False
    then have "?m < length cp" using match_len_le(1) [of cp q] by simp
    obtain k where "mpt_get child k \<noteq> None" using t(1) shape_nonempty [of child] by auto
    then have "length cp + length k = length q" using t(2) [unfolded uniform_def, rule_format, of "cp @ k"] by simp
    then have m: "?m < length cp" "?m < length q" "?m \<noteq> length cp" using \<open>?m < length cp\<close> by auto
    have less: "k < q \<longleftrightarrow> cp ! ?m < q ! ?m" if "mpt_get ?t k \<noteq> None" for k
      using that match_len_less [OF m(1,2), of "drop (length cp) k"] by (auto split: if_splits) (metis append_take_drop_id)+
    obtain r where r: "find_largest_key ?t explored = map_option (prefixed explored) r" "is_greatest (mpt_get ?t) r"
      using find_largest_key_greatest [OF shape_wf [OF t(1)]] by blast
    have g: "is_predecessor (mpt_get ?t) q (if cp ! ?m < q ! ?m then r else None)"
      using r(2) less
      by (cases r) (fastforce simp: is_predecessor_def is_greatest_def simp del: mpt_get.simps)+
    have "find_predecessor_recursive ?t (explored @ q) explored None =
        Ok (map_option (prefixed explored) (if cp ! ?m < q ! ?m then r else None))"
      using False m r(1) by (subst find_predecessor_recursive.simps) (auto simp: Let_def update_best_pred_def split: option.splits)
    then show ?thesis using g unfolding pred_post_def by blast
  qed
qed

lemma find_predecessor_greatest:
  "shape t \<Longrightarrow> nibbles q \<Longrightarrow> uniform (length q) (mpt_get t) \<Longrightarrow> pred_post t explored q"
proof (induction t arbitrary: explored q)
  case Empty
  show ?case unfolding pred_post_def
    by (subst find_predecessor_recursive.simps) (auto simp: is_predecessor_def is_greatest_def intro!: exI [of _ None])
next
  case (Leaf a v)
  then have "q = []" using Leaf.prems(3) [unfolded uniform_def, rule_format, of "[]"] by simp
  then show ?case unfolding pred_post_def
    by (subst find_predecessor_recursive.simps) (auto simp: is_predecessor_def is_greatest_def intro!: exI [of _ None])
next
  case (Branch a cs)
  show ?case
  proof (cases q)
    case Nil
    then show ?thesis unfolding pred_post_def
      by (subst find_predecessor_recursive.simps) (auto simp: is_predecessor_def is_greatest_def intro!: exI [of _ None])
  next
    case (Cons h q')
    have "uniform (length q') (mpt_get (cs ! h))"
      using Branch.prems(3) [unfolded uniform_def, rule_format, of "h # _"] Branch.prems(1,2) Cons by (simp add: uniform_def)
    then show ?thesis
      using predecessor_branch [of cs h explored q' a] Branch.IH [of "cs ! h" q' "explored @ [h]"] Branch.prems(1,2) Cons
      by (simp add: list_all_length)
  qed
next
  case (Extension a cp child)
  show ?case
  proof (rule predecessor_extension [OF Extension.prems(1,3)])
    fix q' assume q': "q = cp @ q'"
    then have "uniform (length q') (mpt_get child)"
      using Extension.prems(3) uniform_below [of cp "length q'" "mpt_get child"] by (simp add: get_extension del: mpt_get.simps)
    then show "pred_post child (explored @ cp) q'" using Extension.IH Extension.prems(1,2) q' by simp
  qed
next
  case (MidBranchLeaf a v child)
  then have "q = []" using MidBranchLeaf.prems(3) [unfolded uniform_def, rule_format, of "[]"] by simp
  then show ?case unfolding pred_post_def
    by (subst find_predecessor_recursive.simps) (auto simp: is_predecessor_def is_greatest_def intro!: exI [of _ None])
qed


section \<open>Properties\<close>

text \<open>
  Property C30. \<open>prune\<close> of a canonical trie at a path of nibbles returns (its index into the sixteen children
  is never out of range). The result is canonical again, annotations included, and holds exactly the entries
  at paths from the bound on. The values returned are those of the entries below the bound, each once.
\<close>

theorem prune_keeps_from_bound:
  assumes "annotation A" "canonical A t" "nibbles p"
  shows "\<exists>t' ps. mpt_prune A t p = Ok (t', ps) \<and> canonical A t' \<and>
    mpt_get t' = from_bound p (mpt_get t) \<and> mset ps = mset (dropped p (entries t))"
proof -
  have t: "shape t" "ann_ok A t" using assms(2) by (auto simp: canonical_iff)
  obtain t' ps where r: "mpt_prune A t p = Ok (t', ps)" "mpt_get t' = from_bound p (mpt_get t)"
    using prune_correct [OF shape_wf [OF t(1)] assms(3)] by blast
  then show ?thesis
    using prune_shape [OF r(1) assms(3) t(1)] prune_ann [OF r(1) assms(1) t] prune_values [OF shape_wf [OF t(1)] r(1)]
    by (auto simp: canonical_iff)
qed

lemma extension_short:
  "p \<noteq> [] \<Longrightarrow> length p \<le> 255 \<Longrightarrow> mpt_extension A p (Leaf a v) = Extension a p (Leaf a v)"
  by (simp add: mpt_extension_def chunks.simps)

theorem prune_keeps_from_bound_witness:
  "mpt_prune size_ann example_branch [1, 3] = Ok (Extension 1 [1, 4] (Leaf 1 9), [7]) \<and>
    canonical size_ann (Extension 1 [1, 4] (Leaf 1 (9 :: nat)))"
proof -
  have c: "canonical size_ann example_branch"
    by (simp add: canonical_iff example_branch_def size_ann_def sum_children_def filled_def numeral_eq_Suc)
  have "mpt_prune size_ann example_branch [1, 3] = Ok (Extension 1 [1, 4] (Leaf 1 9), [7])"
    by (simp add: example_branch_def sum_children_def size_ann_def filled_def lone_child_def extension_short Let_def numeral_eq_Suc)
  then show ?thesis using prune_keeps_from_bound [OF size_annotation.annotation_axioms c, of "[1, 3]"] by auto
qed

text \<open>
  Property C31. On a canonical trie whose keys all have the length of the target, \<open>find_predecessor\<close> returns,
  and its answer is the greatest key smaller than the target, with its value, or nothing when no key is smaller.
\<close>

theorem find_predecessor_correct:
  assumes "canonical A t" "nibbles q" "\<forall>k. mpt_get t k \<noteq> None \<longrightarrow> length k = length q"
  shows "\<exists>r. find_predecessor t q = Ok r \<and> is_predecessor (mpt_get t) q r"
proof -
  have "pred_post t [] q" using assms find_predecessor_greatest [of t q "[]"] by (simp add: canonical_iff uniform_def)
  then show ?thesis by (auto simp: pred_post_def find_predecessor_def apfst_def map_prod_def option.map_id)
qed

theorem find_predecessor_correct_witness:
  "find_predecessor example_branch [1, 3] = Ok (Some ([1, 2], 7)) \<and>
    is_predecessor (mpt_get example_branch) [1, 3] (Some ([1, 2], 7))"
proof -
  have c: "canonical size_ann example_branch"
    by (simp add: canonical_iff example_branch_def size_ann_def sum_children_def filled_def numeral_eq_Suc)
  have "find_predecessor example_branch [1, 3] = Ok (Some ([1, 2], 7))"
    by (simp add: find_predecessor_def find_predecessor_recursive.simps example_branch_def match_len_def
      update_best_pred_def numeral_eq_Suc)
  moreover have "mpt_get example_branch k \<noteq> None \<longrightarrow> length k = length [1, 3 :: nat]" for k
    by (cases k) (auto simp: example_branch_def nth_list_update split: list.splits if_splits)
  ultimately show ?thesis using find_predecessor_correct [OF c, of "[1, 3]"] by simp
qed

text \<open>
  With keys of different lengths \<open>find_predecessor\<close> can panic: it indexes the target past its end when the
  target is a proper prefix of a compressed path.
\<close>

lemma find_predecessor_panics:
  "canonical size_ann (Extension 1 [1, 4] (Leaf 1 (9 :: nat))) \<and> find_predecessor (Extension 1 [1, 4] (Leaf 1 (9 :: nat))) [1] = Panic"
  by (simp add: canonical_iff size_ann_def find_predecessor_def find_predecessor_recursive.simps match_len_def)

end
