(* ===== verification/Storage_Map.thy ===== *)
theory Storage_Map
  imports Mpt_Range
begin

text \<open>
  \<open>storage/src/storage.rs\<close>: the maps, hash maps, hash sets and arrays of the ledger state. A \<open>Map\<close> is a
  Merkle Patricia trie under the nibbles of the serialized keys, a \<open>HashMap\<close> a \<open>Map\<close> under the hashes of the
  keys, a \<open>HashSet\<close> a \<open>HashMap\<close> to unit, and an \<open>Array\<close> a trie under the significant nibbles of the index.

  The serialization of a key type is a function \<open>enc\<close> to bytes (with \<open>dec\<close> for reading), the key hash of a
  \<open>HashMap\<close> a function \<open>gen_key\<close> to the bytes of the hash: the type parameters of the code. What the maps need
  of them is the locale \<open>map_keys\<close>.
\<close>

section \<open>Keys\<close>

definition u64_be_bytes :: "nat \<Rightarrow> nat list" where
  "u64_be_bytes n = map (\<lambda>i. n div 256 ^ (7 - i) mod 256) [0..<8]"

definition u64_from_be_bytes :: "nat list \<Rightarrow> nat" where
  "u64_from_be_bytes bs = foldl (\<lambda>acc b. acc * 256 + b) 0 bs"

definition be_u64_deserialize :: "nat list \<Rightarrow> (unit, nat \<times> nat list) outcome" where
  "be_u64_deserialize bs = (if length bs < 8 then Err () else Ok (u64_from_be_bytes (take 8 bs), drop 8 bs))"

definition to_nibbles :: "nat list \<Rightarrow> nat list" where
  "to_nibbles bytes = concat (map (\<lambda>b. [b div 16, b mod 16]) bytes)"

fun pair_nibbles :: "nat list \<Rightarrow> (unit, nat list) outcome" where
  "pair_nibbles [] = Ok []"
| "pair_nibbles [_] = Err ()"
| "pair_nibbles (h # l # rest) = obind (pair_nibbles rest) (\<lambda>bs. Ok ((h * 16 + l) # bs))"

definition from_nibbles :: "(nat list \<Rightarrow> (unit, 'k \<times> nat list) outcome) \<Rightarrow> nat list \<Rightarrow> (unit, 'k) outcome" where
  "from_nibbles dec p =
     (if \<exists>v \<in> set p. v \<ge> 16 then Err ()
      else obind (pair_nibbles p) (\<lambda>bytes.
        obind (dec bytes) (\<lambda>(result, rest). if rest = [] then Ok result else Err ())))"

section \<open>Map\<close>

type_synonym 'v mpt = "('v, 64 word) node"

fun mpt_size :: "'v mpt \<Rightarrow> nat" where
  "mpt_size Empty = 0"
| "mpt_size (Leaf _ _) = 1"
| "mpt_size (Extension a _ _) = unat a"
| "mpt_size (Branch a _) = unat a"
| "mpt_size (MidBranchLeaf a _ _) = unat a"

definition map_insert :: "('v, 'a) ann_ops \<Rightarrow> ('k \<Rightarrow> nat list) \<Rightarrow> ('v, 'a) node \<Rightarrow> 'k \<Rightarrow> 'v \<Rightarrow> (unit, ('v, 'a) node) outcome" where
  "map_insert A enc m k v = obind (mpt_insert A m (to_nibbles (enc k)) v) (\<lambda>r. Ok (fst r))"

definition map_remove :: "('v, 'a) ann_ops \<Rightarrow> ('k \<Rightarrow> nat list) \<Rightarrow> ('v, 'a) node \<Rightarrow> 'k \<Rightarrow> (unit, ('v, 'a) node) outcome" where
  "map_remove A enc m k = obind (mpt_remove A m (to_nibbles (enc k))) (\<lambda>r. Ok (fst r))"

definition map_get :: "('k \<Rightarrow> nat list) \<Rightarrow> ('v, 'a) node \<Rightarrow> 'k \<Rightarrow> (unit, 'v option) outcome" where
  "map_get enc m k = mpt_lookup m (to_nibbles (enc k))"

definition map_contains_key :: "('k \<Rightarrow> nat list) \<Rightarrow> ('v, 'a) node \<Rightarrow> 'k \<Rightarrow> (unit, bool) outcome" where
  "map_contains_key enc m k = obind (mpt_lookup m (to_nibbles (enc k))) (\<lambda>r. Ok (r \<noteq> None))"

definition map_iter :: "(nat list \<Rightarrow> (unit, 'k \<times> nat list) outcome) \<Rightarrow> ('v, 'a) node \<Rightarrow> ('k \<times> 'v) list" where
  "map_iter dec m = concat (map (\<lambda>(p, v). case from_nibbles dec p of Ok k \<Rightarrow> [(k, v)] | _ \<Rightarrow> []) (mpt_leaves m []))"

definition map_keys_list :: "(nat list \<Rightarrow> (unit, 'k \<times> nat list) outcome) \<Rightarrow> ('v, 'a) node \<Rightarrow> 'k list" where
  "map_keys_list dec m = map fst (map_iter dec m)"

section \<open>HashMap and HashSet\<close>

text \<open>An \<open>ArenaHash\<close> is the 32 bytes of a SHA-256 hash, and serialized as such.\<close>

definition arena_hash_deserialize :: "nat list \<Rightarrow> (unit, nat list \<times> nat list) outcome" where
  "arena_hash_deserialize bs = (if length bs < 32 then Err () else Ok (take 32 bs, drop 32 bs))"

definition hm_insert :: "('k \<Rightarrow> nat list) \<Rightarrow> ('k \<times> 'v) mpt \<Rightarrow> 'k \<Rightarrow> 'v \<Rightarrow> (unit, ('k \<times> 'v) mpt) outcome" where
  "hm_insert gen_key m k v = map_insert size_ann gen_key m k (k, v)"

definition hm_get :: "('k \<Rightarrow> nat list) \<Rightarrow> ('k \<times> 'v) mpt \<Rightarrow> 'k \<Rightarrow> (unit, 'v option) outcome" where
  "hm_get gen_key m k = obind (map_get gen_key m k) (\<lambda>r. Ok (map_option snd r))"

definition hm_remove :: "('k \<Rightarrow> nat list) \<Rightarrow> ('k \<times> 'v) mpt \<Rightarrow> 'k \<Rightarrow> (unit, ('k \<times> 'v) mpt) outcome" where
  "hm_remove gen_key m k = map_remove size_ann gen_key m k"

definition hm_contains_key :: "('k \<Rightarrow> nat list) \<Rightarrow> ('k \<times> 'v) mpt \<Rightarrow> 'k \<Rightarrow> (unit, bool) outcome" where
  "hm_contains_key gen_key m k = map_contains_key gen_key m k"

definition hm_iter :: "('k \<times> 'v) mpt \<Rightarrow> ('k \<times> 'v) list" where
  "hm_iter m = map snd (map_iter arena_hash_deserialize m)"

definition hm_keys :: "('k \<times> 'v) mpt \<Rightarrow> 'k list" where
  "hm_keys m = map fst (hm_iter m)"

definition hm_invariant :: "('k \<Rightarrow> nat list) \<Rightarrow> ('k \<times> 'v) mpt \<Rightarrow> bool" where
  "hm_invariant gen_key m = list_all (\<lambda>(hash, k, v). hash = gen_key k) (map_iter arena_hash_deserialize m)"

definition hs_insert :: "('k \<Rightarrow> nat list) \<Rightarrow> ('k \<times> unit) mpt \<Rightarrow> 'k \<Rightarrow> (unit, ('k \<times> unit) mpt) outcome" where
  "hs_insert gen_key s k = hm_insert gen_key s k ()"

definition hs_remove :: "('k \<Rightarrow> nat list) \<Rightarrow> ('k \<times> unit) mpt \<Rightarrow> 'k \<Rightarrow> (unit, ('k \<times> unit) mpt) outcome" where
  "hs_remove gen_key s k = hm_remove gen_key s k"

definition hs_member :: "('k \<Rightarrow> nat list) \<Rightarrow> ('k \<times> unit) mpt \<Rightarrow> 'k \<Rightarrow> (unit, bool) outcome" where
  "hs_member gen_key s k = hm_contains_key gen_key s k"

definition hs_union :: "('k \<Rightarrow> nat list) \<Rightarrow> ('k \<times> unit) mpt \<Rightarrow> ('k \<times> unit) mpt \<Rightarrow> (unit, ('k \<times> unit) mpt) outcome" where
  "hs_union gen_key s other = try_fold (hs_insert gen_key) s (hm_keys other)"

section \<open>Array\<close>

definition index_to_nibbles :: "nat \<Rightarrow> nat list" where
  "index_to_nibbles i = dropWhile (\<lambda>x. x = 0) (to_nibbles (u64_be_bytes i))"

definition nibbles_to_index :: "nat list \<Rightarrow> (unit, nat) outcome" where
  "nibbles_to_index raw =
     (if raw \<noteq> [] \<and> hd raw = 0 then Err ()
      else if length raw > 16 then Err ()
      else from_nibbles be_u64_deserialize (replicate (16 - length raw) 0 @ raw))"

definition array_len :: "'v mpt \<Rightarrow> nat" where
  "array_len t = mpt_size t"

definition array_invariant :: "'v mpt \<Rightarrow> (unit, unit) outcome" where
  "array_invariant t =
     try_fold (\<lambda>_ (k, _). obind (nibbles_to_index k) (\<lambda>n. if n \<ge> array_len t then Err () else Ok ())) () (mpt_leaves t [])"

definition array_get :: "'v mpt \<Rightarrow> nat \<Rightarrow> (unit, 'v option) outcome" where
  "array_get t i = mpt_lookup t (index_to_nibbles i)"

definition array_insert :: "'v mpt \<Rightarrow> nat \<Rightarrow> 'v \<Rightarrow> (unit, 'v mpt option) outcome" where
  "array_insert t i v =
     (if i \<ge> array_len t then Ok None
      else obind (mpt_insert size_ann t (index_to_nibbles i) v) (\<lambda>r. Ok (Some (fst r))))"

definition array_push :: "'v mpt \<Rightarrow> 'v \<Rightarrow> (unit, 'v mpt) outcome" where
  "array_push t v = obind (mpt_insert size_ann t (index_to_nibbles (array_len t)) v) (\<lambda>r. Ok (fst r))"

definition array_new_from_slice :: "'v list \<Rightarrow> (unit, 'v mpt) outcome" where
  "array_new_from_slice values = try_fold array_push Empty values"

definition array_iter_deref :: "'v mpt \<Rightarrow> (unit, 'v list) outcome" where
  "array_iter_deref t = obind (collect_results (map (array_get t) [0..<array_len t])) (\<lambda>rs. Ok (concat (map (case_option [] (\<lambda>v. [v])) rs)))"

section \<open>Encodings\<close>

fun number :: "nat \<Rightarrow> nat list \<Rightarrow> nat" where
  "number b [] = 0"
| "number b (x # xs) = x * b ^ length xs + number b xs"

lemma number_append: "number b (xs @ ys) = number b xs * b ^ length ys + number b ys"
  by (induction xs) (auto simp: algebra_simps power_add)

lemma number_less: "\<forall>x \<in> set xs. x < b \<Longrightarrow> number b xs < b ^ length xs"
proof (induction xs)
  case (Cons x xs)
  then have "Suc x \<le> b" "number b xs < b ^ length xs" by auto
  then have "Suc x * b ^ length xs \<le> b * b ^ length xs" by (intro mult_le_mono1)
  then show ?case using \<open>number b xs < _\<close> by simp
qed simp

lemma number_less_iff:
  assumes "length xs = length ys" "\<forall>x \<in> set xs. x < b" "\<forall>y \<in> set ys. y < b"
  shows "(xs < ys) = (number b xs < number b ys)"
  using assms
proof (induction xs ys rule: list_induct2)
  case (Cons x xs y ys)
  have *: "number b xs < b ^ length ys" "number b ys < b ^ length ys" using number_less [of xs b] number_less [of ys b] Cons by auto
  show ?case
  proof (cases x y rule: linorder_cases)
    case less
    then have "Suc x * b ^ length ys \<le> y * b ^ length ys" by (intro mult_le_mono1) simp
    then show ?thesis using less * Cons by simp
  next
    case greater
    then have "Suc y * b ^ length ys \<le> x * b ^ length ys" by (intro mult_le_mono1) simp
    then show ?thesis using greater * Cons by simp
  qed (use Cons in auto)
qed simp

lemma number_inj:
  assumes "length xs = length ys" "\<forall>x \<in> set xs. x < b" "\<forall>y \<in> set ys. y < b" "number b xs = number b ys"
  shows "xs = ys"
  using number_less_iff [of xs ys b] number_less_iff [of ys xs b] assms by (metis less_irrefl linorder_neqE)

lemma foldl_number: "foldl (\<lambda>acc b. acc * n + b) a xs = a * n ^ length xs + number n xs"
  by (induction xs arbitrary: a) (auto simp: algebra_simps)

lemma digits_Suc: "map (\<lambda>i. n div b ^ (k - i) mod b) [0..<Suc k] =
    map (\<lambda>i. n div b div b ^ (k - 1 - i) mod b) [0..<k] @ [n mod (b :: nat)]"
proof -
  have "n div b ^ (k - i) = n div b div b ^ (k - 1 - i)" if "i < k" for i
  proof -
    have "k - i = Suc (k - 1 - i)" using that by simp
    then show ?thesis by (metis div_mult2_eq power_Suc)
  qed
  then show ?thesis by simp
qed

lemma number_digits:
  assumes "n < b ^ k"
  shows "number b (map (\<lambda>i. n div b ^ (k - 1 - i) mod b) [0..<k]) = n"
  using assms
proof (induction k arbitrary: n)
  case (Suc k)
  then have "n div b < b ^ k" by (metis less_mult_imp_div_less power_Suc2)
  then have "number b (map (\<lambda>i. n div b div b ^ (k - 1 - i) mod b) [0..<k]) = n div b" by (rule Suc.IH)
  then show ?case unfolding diff_Suc_1 digits_Suc number_append by simp
qed simp

lemma be_bytes [simp]:
  shows "length (u64_be_bytes n) = 8" and "\<forall>b \<in> set (u64_be_bytes n). b < 256"
    and "n \<le> u64_max \<Longrightarrow> number 256 (u64_be_bytes n) = n"
  using number_digits [of n 256 8] by (auto simp: u64_be_bytes_def u64_max_def)

lemma u64_bytes_roundtrip: "n \<le> u64_max \<Longrightarrow> be_u64_deserialize (u64_be_bytes n @ rest) = Ok (n, rest)"
  by (simp add: be_u64_deserialize_def u64_from_be_bytes_def foldl_number)

lemma to_nibbles_simps [simp]: "to_nibbles [] = []" "to_nibbles (b # bs) = b div 16 # b mod 16 # to_nibbles bs"
  by (simp_all add: to_nibbles_def)

lemma length_to_nibbles [simp]: "length (to_nibbles bs) = 2 * length bs"
  by (induction bs) auto

lemma nibbles_to_nibbles: "\<forall>b \<in> set bs. b < 256 \<Longrightarrow> nibbles (to_nibbles bs)"
  by (induction bs) auto

lemma pair_to_nibbles: "pair_nibbles (to_nibbles bs) = Ok bs"
  by (induction bs) auto

lemma to_nibbles_inj [simp]: "to_nibbles bs = to_nibbles cs \<longleftrightarrow> bs = cs"
  using pair_to_nibbles by (metis outcome.inject(1))

lemma from_to_nibbles: "\<forall>b \<in> set bs. b < 256 \<Longrightarrow> dec bs = Ok (k, []) \<Longrightarrow> from_nibbles dec (to_nibbles bs) = Ok k"
  using nibbles_to_nibbles [of bs] by (auto simp: from_nibbles_def pair_to_nibbles nibbles_def)

lemma number_to_nibbles: "number 16 (to_nibbles bs) = number 256 bs"
proof (induction bs)
  case (Cons b bs)
  have "(16 :: nat) ^ (2 * length bs) = 256 ^ length bs" by (simp add: power_mult)
  moreover have "b div 16 * (16 * 256 ^ length bs) + b mod 16 * 256 ^ length bs = b * 256 ^ length bs"
    by (metis add_mult_distrib div_mult_mod_eq mult.assoc)
  ultimately show ?case using Cons by simp
qed simp

abbreviation be_nibbles :: "nat \<Rightarrow> nat list" where
  "be_nibbles n \<equiv> to_nibbles (u64_be_bytes n)"

lemma be_nibbles: "nibbles (be_nibbles n)" "length (be_nibbles n) = 16"
    "n \<le> u64_max \<Longrightarrow> number 16 (be_nibbles n) = n"
  by (simp_all add: nibbles_to_nibbles number_to_nibbles)

lemma be_nibbles_less:
  assumes "m \<le> u64_max" "n \<le> u64_max"
  shows "(be_nibbles m < be_nibbles n) = (m < n)"
  using number_less_iff [of "be_nibbles m" "be_nibbles n" 16] be_nibbles assms by (simp add: nibbles_def)

section \<open>Sizes\<close>

lemma sum_children_size: "sum_children size_ann cs = sum_list (map (node_ann size_ann) cs)"
proof -
  have "foldl (\<lambda>acc c. acc + node_ann size_ann c) a cs = a + sum_list (map (node_ann size_ann) cs)" for a
    by (induction cs arbitrary: a) (auto simp: algebra_simps)
  then show ?thesis by (simp add: sum_children_def size_ann_def)
qed

lemma size_ann_entries: "ann_ok size_ann t \<Longrightarrow> node_ann size_ann t = of_nat (length (entries t))"
proof (induction t)
  case (Branch a cs)
  have "sum_list (map (node_ann size_ann) cs) = of_nat (sum_list (map (\<lambda>c. length (entries c)) cs))"
    using Branch by (simp add: list_all_iff sum_list_of_nat [symmetric] comp_def cong: map_cong)
  moreover have "sum_list (map (\<lambda>c. length (entries c)) cs) = length (entries (Branch a cs))"
    by (subst map_children) (simp add: entries_branch length_concat comp_def del: mpt_leaves.simps)
  ultimately show ?case using Branch.prems by (simp add: sum_children_size del: mpt_leaves.simps)
qed (auto simp: size_ann_def entries_extension simp del: mpt_leaves.simps(3))

lemma entries_card: "mpt_wf t \<Longrightarrow> length (entries t) = card (dom (mpt_get t)) \<and> finite (dom (mpt_get t))"
proof -
  assume wf: "mpt_wf t"
  have "dom (mpt_get t) = set (map fst (entries t))" using entries_get [OF wf] by (force simp: dom_def image_iff)
  then show ?thesis using distinct_card [OF entries_distinct [OF wf]] by simp
qed

lemma mpt_size_card:
  assumes "mpt_wf t" "ann_ok size_ann t"
  shows "mpt_size t = card (dom (mpt_get t)) mod 2 ^ 64"
proof -
  have "mpt_size t = unat (node_ann size_ann t)" using assms(2) by (cases t) (auto simp: size_ann_def)
  then show ?thesis using size_ann_entries [OF assms(2)] entries_card [OF assms(1)] by (simp add: unat_of_nat)
qed

section \<open>Maps refine partial functions\<close>

definition key_paths :: "('k \<Rightarrow> nat list) \<Rightarrow> ('k \<Rightarrow> bool) \<Rightarrow> nat list set" where
  "key_paths enc valid = (\<lambda>k. to_nibbles (enc k)) ` Collect valid"

definition map_ok :: "('v, 'a) ann_ops \<Rightarrow> ('k \<Rightarrow> nat list) \<Rightarrow> ('k \<Rightarrow> bool) \<Rightarrow> ('v, 'a) node \<Rightarrow> bool" where
  "map_ok A enc valid m \<longleftrightarrow> keyed (key_paths enc valid) A m"

definition map_abs :: "('k \<Rightarrow> nat list) \<Rightarrow> ('k \<Rightarrow> bool) \<Rightarrow> ('v, 'a) node \<Rightarrow> 'k \<Rightarrow> 'v option" where
  "map_abs enc valid m k = (if valid k then mpt_get m (to_nibbles (enc k)) else None)"

text \<open>What a \<open>Map\<close> needs of its keys: encodings of one length, and distinct keys have distinct encodings.\<close>

locale map_keys =
  fixes enc :: "'k \<Rightarrow> nat list" and valid :: "'k \<Rightarrow> bool" and len :: nat
  assumes enc_bytes: "valid k \<Longrightarrow> \<forall>b \<in> set (enc k). b < 256"
    and enc_length: "valid k \<Longrightarrow> length (enc k) = len"
    and enc_inj: "valid k \<Longrightarrow> valid k' \<Longrightarrow> enc k = enc k' \<Longrightarrow> k = k'"
    and len_short: "2 * len \<le> 255"
begin

lemma paths_key_set: "key_set (key_paths enc valid)"
proof -
  have "\<not> strict_prefix p q" if "p \<in> key_paths enc valid" "q \<in> key_paths enc valid" for p q
    using that enc_length prefix_length_less [of p q] by (auto simp: key_paths_def)
  then show ?thesis using enc_bytes enc_length len_short by (auto simp: key_set_def key_paths_def nibbles_to_nibbles)
qed

lemma path_in: "valid k \<Longrightarrow> to_nibbles (enc k) \<in> key_paths enc valid"
  by (auto simp: key_paths_def)

lemma empty_ok: "map_ok A enc valid Empty"
  by (simp add: map_ok_def empty_keyed)

lemma empty_abs: "map_abs enc valid Empty = (\<lambda>_. None)"
  by (simp add: map_abs_def fun_eq_iff)

lemma insert_refines:
  assumes "annotation A" "map_ok A enc valid m" "valid k"
  shows "\<exists>m'. map_insert A enc m k v = Ok m' \<and> map_ok A enc valid m' \<and> map_abs enc valid m' = (map_abs enc valid m)(k \<mapsto> v)"
proof -
  obtain m' where m': "mpt_apply A m (Insert (to_nibbles (enc k)) v) = Ok m'" "keyed (key_paths enc valid) A m'"
    "mpt_get m' = map_apply (mpt_get m) (Insert (to_nibbles (enc k)) v)"
    using keyed_step [OF paths_key_set _ assms(1), of "Insert (to_nibbles (enc k)) v" m] assms(2,3) path_in
    by (auto simp: map_ok_def)
  then have "map_insert A enc m k v = Ok m'" by (auto simp: map_insert_def obind_eq_Ok)
  moreover have "map_abs enc valid m' = (map_abs enc valid m)(k \<mapsto> v)"
    using m'(3) enc_inj assms(3) by (fastforce simp: map_abs_def fun_eq_iff)
  ultimately show ?thesis using m'(2) by (auto simp: map_ok_def)
qed

lemma remove_refines:
  assumes "annotation A" "map_ok A enc valid m" "valid k"
  shows "\<exists>m'. map_remove A enc m k = Ok m' \<and> map_ok A enc valid m' \<and> map_abs enc valid m' = (map_abs enc valid m)(k := None)"
proof -
  obtain m' where m': "mpt_apply A m (Remove (to_nibbles (enc k))) = Ok m'" "keyed (key_paths enc valid) A m'"
    "mpt_get m' = map_apply (mpt_get m) (Remove (to_nibbles (enc k)))"
    using keyed_step [OF paths_key_set _ assms(1), of "Remove (to_nibbles (enc k))" m] assms(2,3) path_in
    by (auto simp: map_ok_def)
  then have "map_remove A enc m k = Ok m'" by (auto simp: map_remove_def obind_eq_Ok)
  moreover have "map_abs enc valid m' = (map_abs enc valid m)(k := None)"
    using m'(3) enc_inj assms(3) by (fastforce simp: map_abs_def fun_eq_iff)
  ultimately show ?thesis using m'(2) by (auto simp: map_ok_def)
qed

lemma get_refines: "map_ok A enc valid m \<Longrightarrow> valid k \<Longrightarrow> map_get enc m k = Ok (map_abs enc valid m k)"
  using enc_bytes by (simp add: map_ok_def keyed_def canonical_iff shape_wf map_get_def map_abs_def lookup_get nibbles_to_nibbles)

lemma contains_refines: "map_ok A enc valid m \<Longrightarrow> valid k \<Longrightarrow> map_contains_key enc m k = Ok (map_abs enc valid m k \<noteq> None)"
  using get_refines [of A m k] by (simp add: map_contains_key_def map_get_def)

lemma paths_of_keys: "map_ok A enc valid m \<Longrightarrow> mpt_get m p = Some v \<Longrightarrow> \<exists>k. valid k \<and> p = to_nibbles (enc k)"
  by (force simp: map_ok_def keyed_def key_paths_def)

lemma abs_dom: "map_ok A enc valid m \<Longrightarrow> dom (mpt_get m) = (\<lambda>k. to_nibbles (enc k)) ` dom (map_abs enc valid m)"
proof (intro set_eqI iffI)
  fix p assume m: "map_ok A enc valid m" and "p \<in> dom (mpt_get m)"
  then obtain v where v: "mpt_get m p = Some v" by (auto simp: dom_def)
  from paths_of_keys [OF m v] obtain k where "valid k" "p = to_nibbles (enc k)" by (elim exE conjE)
  then have "k \<in> dom (map_abs enc valid m)" using v by (simp add: map_abs_def dom_def)
  then show "p \<in> (\<lambda>k. to_nibbles (enc k)) ` dom (map_abs enc valid m)"
    using \<open>p = _\<close> by (rule rev_image_eqI)
qed (auto simp: map_abs_def split: if_splits)

lemma abs_card: "map_ok A enc valid m \<Longrightarrow> card (dom (mpt_get m)) = card (dom (map_abs enc valid m))"
proof -
  assume "map_ok A enc valid m"
  moreover have "inj_on (\<lambda>k. to_nibbles (enc k)) (dom (map_abs enc valid m))"
    using enc_inj by (auto simp: inj_on_def map_abs_def split: if_splits)
  ultimately show ?thesis using abs_dom card_image by metis
qed

lemma size_refines: "map_ok size_ann enc valid m \<Longrightarrow> mpt_size m = card (dom (map_abs enc valid m)) mod 2 ^ 64"
  using mpt_size_card [of m] abs_card [of size_ann m] by (auto simp: map_ok_def keyed_def canonical_iff shape_wf)

end

interpretation be_u64: map_keys u64_be_bytes "\<lambda>n. n \<le> u64_max" 8
proof unfold_locales
  fix k k' assume "k \<le> u64_max" "k' \<le> u64_max" "u64_be_bytes k = u64_be_bytes k'"
  then show "k = k'" using be_bytes(3) by metis
qed simp_all

section \<open>Arrays refine lists\<close>

lemma number_dropWhile: "number b (dropWhile (\<lambda>x. x = 0) xs) = number b xs"
  by (induction xs) auto

lemma replicate_dropWhile: "replicate (length xs - length (dropWhile (\<lambda>x. x = 0) xs)) 0 @ dropWhile (\<lambda>x. x = 0) xs = (xs :: nat list)"
proof (induction xs)
  case (Cons x xs)
  then show ?case using length_dropWhile_le [of "\<lambda>x. x = 0" xs] by (auto simp: Suc_diff_le)
qed simp

lemma index_to_nibbles:
  shows "nibbles (index_to_nibbles i)" and "i \<le> u64_max \<Longrightarrow> number 16 (index_to_nibbles i) = i"
    and "length (index_to_nibbles i) \<le> 16"
  using be_nibbles(1) [of i] be_nibbles(3) [of i] length_dropWhile_le [of "\<lambda>x. x = 0" "be_nibbles i"]
  by (auto simp: index_to_nibbles_def nibbles_def number_dropWhile dest: set_dropWhileD)

lemma index_inj: "i \<le> u64_max \<Longrightarrow> j \<le> u64_max \<Longrightarrow> index_to_nibbles i = index_to_nibbles j \<longleftrightarrow> i = j"
  using index_to_nibbles(2) by metis

lemma index_roundtrip: "i \<le> u64_max \<Longrightarrow> nibbles_to_index (index_to_nibbles i) = Ok i"
proof -
  assume i: "i \<le> u64_max"
  have "\<not> (index_to_nibbles i \<noteq> [] \<and> hd (index_to_nibbles i) = 0)"
    using hd_dropWhile [of "\<lambda>x. x = 0" "be_nibbles i"] unfolding index_to_nibbles_def by blast
  moreover have "replicate (16 - length (index_to_nibbles i)) 0 @ index_to_nibbles i = be_nibbles i"
    using replicate_dropWhile [of "be_nibbles i"] be_nibbles(2) [of i] by (simp add: index_to_nibbles_def)
  ultimately show ?thesis
    using index_to_nibbles(3) [of i] from_to_nibbles [of "u64_be_bytes i" be_u64_deserialize i] u64_bytes_roundtrip [OF i, of "[]"]
    by (simp add: nibbles_to_index_def)
qed

definition array_rep :: "'v mpt \<Rightarrow> 'v list \<Rightarrow> bool" where
  "array_rep t xs \<longleftrightarrow> mpt_wf t \<and> ann_ok size_ann t \<and> length xs \<le> u64_max \<and>
     dom (mpt_get t) = index_to_nibbles ` {..<length xs} \<and> (\<forall>i < length xs. mpt_get t (index_to_nibbles i) = Some (xs ! i))"

lemma array_len_rep: "array_rep t xs \<Longrightarrow> array_len t = length xs"
proof -
  assume t: "array_rep t xs"
  then have "inj_on index_to_nibbles {..<length xs}" using index_inj by (auto simp: inj_on_def array_rep_def)
  then show ?thesis using t mpt_size_card [of t] by (auto simp: array_rep_def array_len_def card_image u64_max_def)
qed

lemma array_get_rep:
  assumes "array_rep t xs" "i \<le> u64_max"
  shows "array_get t i = Ok (if i < length xs then Some (xs ! i) else None)"
proof -
  have "mpt_get t (index_to_nibbles i) = None" if "\<not> i < length xs"
  proof -
    have "index_to_nibbles i \<noteq> index_to_nibbles j" if "j < length xs" for j
      using that \<open>\<not> i < length xs\<close> index_inj [OF assms(2), of j] assms(1) by (auto simp: array_rep_def)
    then have "index_to_nibbles i \<notin> index_to_nibbles ` {..<length xs}" by blast
    then show ?thesis using assms(1) by (auto simp: array_rep_def dom_def)
  qed
  then show ?thesis using assms index_to_nibbles(1) lookup_get [of t "index_to_nibbles i"] by (auto simp: array_get_def array_rep_def)
qed

lemma array_write_rep:
  assumes t: "array_rep t xs" and i: "i \<le> length xs" "i < u64_max"
  shows "\<exists>t'. mpt_insert size_ann t (index_to_nibbles i) v = Ok (t', mpt_get t (index_to_nibbles i)) \<and>
    array_rep t' (if i < length xs then xs[i := v] else xs @ [v])"
proof -
  obtain t' where t': "mpt_insert size_ann t (index_to_nibbles i) v = Ok (t', mpt_get t (index_to_nibbles i))" "mpt_wf t'"
      "mpt_get t' = (mpt_get t)(index_to_nibbles i := Some v)"
    using mpt_insert_correct [OF _ index_to_nibbles(1), of t i v size_ann] t by (auto simp: insert_post_def array_rep_def)
  have "ann_ok size_ann t'" using insert_ann [OF t'(1) size_annotation.annotation_axioms] t by (simp add: array_rep_def)
  moreover have "mpt_get t' (index_to_nibbles j) = Some ((if i < length xs then xs[i := v] else xs @ [v]) ! j)"
    if "j < length (if i < length xs then xs[i := v] else xs @ [v])" for j
    using that t i index_inj [of j i] t'(3) by (auto simp: array_rep_def nth_append nth_list_update split: if_splits)
  moreover have "dom (mpt_get t') = index_to_nibbles ` {..<length (if i < length xs then xs[i := v] else xs @ [v])}"
    using t i t'(3) by (auto simp: array_rep_def lessThan_Suc image_iff)
  ultimately show ?thesis using t t'(1,2) i by (auto simp: array_rep_def)
qed

lemma array_push_rep:
  "array_rep t xs \<Longrightarrow> length xs < u64_max \<Longrightarrow> \<exists>t'. array_push t v = Ok t' \<and> array_rep t' (xs @ [v])"
  using array_write_rep [of t xs "length xs" v] array_len_rep [of t xs] by (auto simp: array_push_def)

lemma array_slice_rep:
  "array_rep t xs \<Longrightarrow> length xs + length ys \<le> u64_max \<Longrightarrow> \<exists>t'. try_fold array_push t ys = Ok t' \<and> array_rep t' (xs @ ys)"
proof (induction ys arbitrary: t xs)
  case (Cons y ys)
  then obtain t' where "array_push t y = Ok t'" "array_rep t' (xs @ [y])" using array_push_rep [of t xs y] by auto
  then show ?case using Cons.IH [of t' "xs @ [y]"] Cons.prems by auto
qed auto

lemma collect_gets:
  "(\<And>i. i \<in> set is \<Longrightarrow> f i = Ok (Some (g i))) \<Longrightarrow>
    obind (collect_results (map f is)) (\<lambda>rs. Ok (concat (map (case_option [] (\<lambda>v. [v])) rs))) = Ok (map g is)"
proof -
  assume "\<And>i. i \<in> set is \<Longrightarrow> f i = Ok (Some (g i))"
  then have "map f is = map Ok (map (\<lambda>i. Some (g i)) is)" by simp
  moreover have "concat (map (case_option [] (\<lambda>v. [v])) (map (\<lambda>i. Some (g i)) is)) = map g is" by (induction "is") auto
  ultimately show ?thesis by (simp only: collect_results_Ok obind.simps)
qed

lemma array_iter_rep: "array_rep t xs \<Longrightarrow> array_iter_deref t = Ok xs"
proof -
  assume t: "array_rep t xs"
  then have "array_get t i = Ok (Some (xs ! i))" if "i < length xs" for i
    using array_get_rep [OF t, of i] that by (auto simp: array_rep_def)
  then show ?thesis using array_len_rep [OF t] collect_gets [of "[0..<length xs]" "array_get t" "(!) xs"]
    by (simp add: array_iter_deref_def map_nth)
qed

lemma array_invariant_rep: "array_rep t xs \<Longrightarrow> array_invariant t = Ok ()"
proof -
  assume t: "array_rep t xs"
  have key: "\<exists>i < length xs. fst e = index_to_nibbles i" if "e \<in> set (entries t)" for e
    using that t entries_get [of t "fst e" "snd e"] by (auto simp: array_rep_def dom_def set_eq_iff)
  have step: "obind (nibbles_to_index (fst e)) (\<lambda>n. if n \<ge> array_len t then Err () else Ok ()) = Ok ()"
    if entry: "e \<in> set (entries t)" for e
  proof -
    obtain i where "i < length xs" "fst e = index_to_nibbles i" using key [OF entry] by (elim exE conjE)
    then show ?thesis using index_roundtrip [of i] t array_len_rep [OF t] by (simp add: array_rep_def)
  qed
  have "try_fold (\<lambda>_ (k, _). obind (nibbles_to_index k) (\<lambda>n. if n \<ge> array_len t then Err () else Ok ())) () es = Ok ()"
    if "set es \<subseteq> set (entries t)" for es
    using that
  proof (induction es)
    case (Cons e es)
    then show ?case using step [of e] by (cases e) simp
  qed simp
  then show ?thesis by (simp add: array_invariant_def)
qed

text \<open>
  Property C33. An \<open>Array\<close> is a list. The array made of a slice of values (as many as a \<open>u64\<close> counts) has their
  number as its length, iterates over them in order, satisfies the invariant that is checked on
  deserialization, and returns at each index the value there and \<open>None\<close> past the end; \<open>insert\<close> replaces the
  value at an existing index and refuses any other. None of this panics, although the tries have keys that
  are prefixes of each other.
\<close>

theorem array_refines_list:
  assumes "length xs \<le> u64_max"
  shows "\<exists>t. array_new_from_slice xs = Ok t \<and> array_len t = length xs \<and> array_iter_deref t = Ok xs \<and> array_invariant t = Ok () \<and>
    (\<forall>i \<le> u64_max. array_get t i = Ok (if i < length xs then Some (xs ! i) else None)) \<and>
    (\<forall>i v. if i < length xs then \<exists>t'. array_insert t i v = Ok (Some t') \<and> array_iter_deref t' = Ok (xs[i := v])
       else array_insert t i v = Ok None)"
proof -
  have "array_rep Empty []" by (simp add: array_rep_def get_empty)
  then obtain t where t: "array_new_from_slice xs = Ok t" "array_rep t xs"
    using array_slice_rep [of Empty "[]" xs] assms by (auto simp: array_new_from_slice_def)
  have "\<exists>t'. array_insert t i v = Ok (Some t') \<and> array_iter_deref t' = Ok (xs[i := v])" if "i < length xs" for i v
    using array_write_rep [OF t(2), of i v] array_len_rep [OF t(2)] array_iter_rep that assms by (auto simp: array_insert_def)
  moreover have "array_insert t i v = Ok None" if "\<not> i < length xs" for i v
    using that array_len_rep [OF t(2)] by (simp add: array_insert_def)
  ultimately show ?thesis
    using t(1) array_len_rep [OF t(2)] array_iter_rep [OF t(2)] array_invariant_rep [OF t(2)] array_get_rep [OF t(2)]
    by (intro exI [of _ t]) simp
qed

theorem array_refines_list_witness:
  "length [5, 6, 7 :: nat] \<le> u64_max \<and> (\<exists>t. array_new_from_slice [5, 6, 7 :: nat] = Ok t \<and> array_len t = 3 \<and>
    array_get t 1 = Ok (Some 6) \<and> array_get t 3 = Ok None)"
  using array_refines_list [of "[5, 6, 7]"] by (fastforce simp: u64_max_def)

section \<open>Hash maps refine partial functions\<close>

definition hm_rep :: "('k \<Rightarrow> nat list) \<Rightarrow> ('k \<times> 'v) mpt \<Rightarrow> ('k \<Rightarrow> 'v option) \<Rightarrow> bool" where
  "hm_rep gen_key m f \<longleftrightarrow> map_ok size_ann gen_key (\<lambda>_. True) m \<and>
     map_abs gen_key (\<lambda>_. True) m = (\<lambda>k. map_option (Pair k) (f k))"

text \<open>Hashes are 32 bytes long, and distinct keys have distinct hashes.\<close>

definition hashes :: "('k \<Rightarrow> nat list) \<Rightarrow> bool" where
  "hashes gen_key \<longleftrightarrow> inj gen_key \<and> (\<forall>k. length (gen_key k) = 32 \<and> (\<forall>b \<in> set (gen_key k). b < 256))"

lemma hashes_keys: "hashes gen_key \<Longrightarrow> map_keys gen_key (\<lambda>_. True) 32"
  by unfold_locales (auto simp: hashes_def inj_def)

lemma hm_entries:
  assumes "hashes gen_key" "hm_rep gen_key m f"
  shows "map_iter arena_hash_deserialize m = map (\<lambda>(p, kv). (gen_key (fst kv), kv)) (entries m)"
    and "\<And>p k v. (p, k, v) \<in> set (entries m) \<longleftrightarrow> p = to_nibbles (gen_key k) \<and> f k = Some v"
proof -
  have m: "map_ok size_ann gen_key (\<lambda>_. True) m" "mpt_wf m"
    using assms(2) by (auto simp: hm_rep_def map_ok_def keyed_def canonical_iff shape_wf)
  have get: "mpt_get m (to_nibbles (gen_key k)) = map_option (Pair k) (f k)" for k
    using assms(2) by (simp add: hm_rep_def map_abs_def fun_eq_iff)
  show *: "(p, k, v) \<in> set (entries m) \<longleftrightarrow> p = to_nibbles (gen_key k) \<and> f k = Some v" for p k v
  proof
    assume "(p, k, v) \<in> set (entries m)"
    then have "mpt_get m p = Some (k, v)" using entries_get [OF m(2)] by simp
    moreover then obtain k' where "p = to_nibbles (gen_key k')"
      using map_keys.paths_of_keys [OF hashes_keys [OF assms(1)] m(1)] by blast
    ultimately show "p = to_nibbles (gen_key k) \<and> f k = Some v" using get [of k'] by auto
  qed (use entries_get [OF m(2)] get [of k] in auto)
  have "from_nibbles arena_hash_deserialize (to_nibbles (gen_key k)) = Ok (gen_key k)" for k
    using assms(1) by (intro from_to_nibbles) (auto simp: hashes_def arena_hash_deserialize_def)
  then have "(case from_nibbles arena_hash_deserialize p of Ok k \<Rightarrow> [(k, kv)] | _ \<Rightarrow> []) = [(gen_key (fst kv), kv)]"
    if "(p, kv) \<in> set (entries m)" for p kv
    using * [of p "fst kv" "snd kv"] that by simp
  then have "concat (map (\<lambda>(p, v). case from_nibbles arena_hash_deserialize p of Ok k \<Rightarrow> [(k, v)] | _ \<Rightarrow> []) es) =
      map (\<lambda>(p, kv). (gen_key (fst kv), kv)) es" if "set es \<subseteq> set (entries m)" for es
    using that by (induction es) auto
  then show "map_iter arena_hash_deserialize m = map (\<lambda>(p, kv). (gen_key (fst kv), kv)) (entries m)"
    by (simp add: map_iter_def)
qed

lemma hm_iter_rep:
  assumes "hashes gen_key" "hm_rep gen_key m f"
  shows "set (hm_iter m) = {(k, v). f k = Some v}" "distinct (hm_keys m)" "hm_invariant gen_key m"
proof -
  have m: "mpt_wf m" using assms(2) by (auto simp: hm_rep_def map_ok_def keyed_def canonical_iff shape_wf)
  have iter: "hm_iter m = map snd (entries m)" by (simp add: hm_iter_def hm_entries(1) [OF assms] comp_def split_def)
  have "kv \<in> set (hm_iter m) \<longleftrightarrow> (\<exists>p. (p, kv) \<in> set (entries m))" for kv
    unfolding iter set_map by (force simp: image_iff)
  then show "set (hm_iter m) = {(k, v). f k = Some v}" using hm_entries(2) [OF assms] by auto
  have "map fst (entries m) = map (\<lambda>k. to_nibbles (gen_key k)) (hm_keys m)"
    using hm_entries(2) [OF assms] by (auto simp: hm_keys_def iter)
  then show "distinct (hm_keys m)" using entries_distinct [OF m] by (metis distinct_map)
  show "hm_invariant gen_key m" by (auto simp: hm_invariant_def hm_entries(1) [OF assms] list_all_iff)
qed

lemma hm_refines:
  assumes "hashes gen_key" "hm_rep gen_key m f"
  shows "hm_get gen_key m k = Ok (f k)" and "hm_contains_key gen_key m k = Ok (f k \<noteq> None)"
    and "\<exists>m'. hm_insert gen_key m k v = Ok m' \<and> hm_rep gen_key m' (f(k \<mapsto> v))"
    and "\<exists>m'. hm_remove gen_key m k = Ok m' \<and> hm_rep gen_key m' (f(k := None))"
    and "set (hm_iter m) = {(k, v). f k = Some v}" and "distinct (hm_keys m)" and "hm_invariant gen_key m"
    and "mpt_size m = card (dom f) mod 2 ^ 64"
proof -
  note keys = hashes_keys [OF assms(1)]
  have m: "map_ok size_ann gen_key (\<lambda>_. True) m" and f: "map_abs gen_key (\<lambda>_. True) m = (\<lambda>k. map_option (Pair k) (f k))"
    using assms(2) by (auto simp: hm_rep_def)
  show "hm_get gen_key m k = Ok (f k)"
    using map_keys.get_refines [OF keys m, of k] by (simp add: hm_get_def f option.map_comp comp_def option.map_ident)
  show "hm_contains_key gen_key m k = Ok (f k \<noteq> None)"
    using map_keys.contains_refines [OF keys m, of k] by (simp add: hm_contains_key_def f)
  show "\<exists>m'. hm_insert gen_key m k v = Ok m' \<and> hm_rep gen_key m' (f(k \<mapsto> v))"
    using map_keys.insert_refines [OF keys size_annotation.annotation_axioms m, of k "(k, v)"]
    by (auto simp: hm_insert_def hm_rep_def f fun_eq_iff)
  show "\<exists>m'. hm_remove gen_key m k = Ok m' \<and> hm_rep gen_key m' (f(k := None))"
    using map_keys.remove_refines [OF keys size_annotation.annotation_axioms m, of k]
    by (auto simp: hm_remove_def hm_rep_def f fun_eq_iff)
  show "mpt_size m = card (dom f) mod 2 ^ 64"
    using map_keys.size_refines [OF keys m] by (simp add: f dom_def)
qed (use hm_iter_rep [OF assms] in auto)

text \<open>
  Property C32. A \<open>HashMap\<close> is a finite map. Where distinct keys have distinct hashes, the operations never
  panic: \<open>get\<close> and \<open>contains_key\<close> answer from the map \<open>f\<close> that the trie represents, \<open>insert\<close> and \<open>remove\<close> update it,
  iteration lists each entry once, the invariant checked on deserialization holds, and \<open>size\<close> is the
  number of keys.
\<close>

theorem hash_map_refines:
  assumes "hashes gen_key" "hm_rep gen_key m f"
  shows "hm_get gen_key m k = Ok (f k) \<and> hm_contains_key gen_key m k = Ok (f k \<noteq> None) \<and>
    (\<exists>m'. hm_insert gen_key m k v = Ok m' \<and> hm_rep gen_key m' (f(k \<mapsto> v))) \<and>
    (\<exists>m'. hm_remove gen_key m k = Ok m' \<and> hm_rep gen_key m' (f(k := None))) \<and>
    set (hm_iter m) = {(k, v). f k = Some v} \<and> distinct (hm_keys m) \<and> hm_invariant gen_key m \<and>
    mpt_size m = card (dom f) mod 2 ^ 64"
  by (intro conjI hm_refines [OF assms])

definition flag_hash :: "bool \<Rightarrow> nat list" where
  "flag_hash b = replicate 31 0 @ [if b then 1 else 0]"

theorem hash_map_refines_witness:
  "hashes flag_hash \<and> hm_rep flag_hash Empty (\<lambda>_. None :: nat option) \<and>
    (\<exists>m. hm_insert flag_hash Empty True (9 :: nat) = Ok m \<and> hm_get flag_hash m True = Ok (Some 9) \<and> hm_get flag_hash m False = Ok None)"
proof -
  have h: "hashes flag_hash" by (auto simp: hashes_def flag_hash_def inj_def)
  have e: "hm_rep flag_hash Empty (\<lambda>_. None :: nat option)"
    by (simp add: hm_rep_def map_ok_def empty_keyed map_abs_def fun_eq_iff)
  from hash_map_refines [OF h e, of True 9] obtain m where
    m: "hm_insert flag_hash Empty True (9 :: nat) = Ok m" "hm_rep flag_hash m ((\<lambda>_. None)(True \<mapsto> 9))"
    by (elim exE conjE)
  then show ?thesis using h e hash_map_refines [OF h m(2), of True] hash_map_refines [OF h m(2), of False] by simp
qed

end
