(* ===== verification/Time_Filter.thy ===== *)
theory Time_Filter
  imports Storage_Map Time_Arith "HOL-Library.Finite_Map"
begin

text \<open>
  \<open>MultiSet\<close>, \<open>Container\<close> and \<open>TimeFilterMap\<close> of \<open>storage/src/storage.rs\<close>: values kept under the second at which
  they were recorded, with the multiset of all items beside the map, so that membership is one lookup. The
  ledger keeps its recent Merkle roots and its recent intents in such maps and filters them after each block.

  The map is the trie of \<open>Storage_Map\<close> under big-endian seconds, so that \<open>prune\<close> and \<open>find_predecessor\<close> follow the
  order of time. The \<open>HashMap\<close> of counts inside a \<open>MultiSet\<close> is a finite map. Counts are \<open>u32\<close>, and adding one
  wraps around.
\<close>

section \<open>MultiSet\<close>

type_synonym 'v multi_set = "('v, nat) fmap"

definition ms_count :: "'v multi_set \<Rightarrow> 'v \<Rightarrow> nat" where
  "ms_count s e = (case fmlookup s e of Some i \<Rightarrow> i | None \<Rightarrow> 0)"

definition ms_insert :: "'v multi_set \<Rightarrow> 'v \<Rightarrow> 'v multi_set" where
  "ms_insert s e =
     (let current_count = (case fmlookup s e of Some i \<Rightarrow> i | None \<Rightarrow> 0) in
      fmupd e ((current_count + 1) mod 2 ^ 32) s)"

definition ms_remove_n :: "'v multi_set \<Rightarrow> 'v \<Rightarrow> nat \<Rightarrow> 'v multi_set" where
  "ms_remove_n s e n =
     (let current_count = (case fmlookup s e of Some i \<Rightarrow> i | None \<Rightarrow> 0);
          result = (case checked_sub current_count n of Some r \<Rightarrow> r | None \<Rightarrow> 0) in
      if result = 0 then fmdrop e s else fmupd e result s)"

definition ms_remove :: "'v multi_set \<Rightarrow> 'v \<Rightarrow> 'v multi_set" where
  "ms_remove s e = ms_remove_n s e 1"

definition ms_has_subset :: "'v multi_set \<Rightarrow> 'v multi_set \<Rightarrow> bool" where
  "ms_has_subset s other = fmpred (\<lambda>e n. \<not> ms_count s e < n) other"

definition ms_member :: "'v multi_set \<Rightarrow> 'v \<Rightarrow> bool" where
  "ms_member s e = (fmlookup s e \<noteq> None)"

definition ms_invariant :: "'v multi_set \<Rightarrow> bool" where
  "ms_invariant s = fmpred (\<lambda>_ n. n \<noteq> 0) s"

section \<open>Containers\<close>

record ('c, 'i) container_ops =
  iter_items :: "'c \<Rightarrow> 'i list"
  once :: "'i \<Rightarrow> 'c"

record ('c, 'i) collection_ops = "('c, 'i) container_ops" +
  append_items :: "'c \<Rightarrow> 'c \<Rightarrow> 'c"
  default_items :: 'c

definition identity_ops :: "('i, 'i) container_ops" where
  "identity_ops = \<lparr>iter_items = (\<lambda>v. [v]), once = (\<lambda>v. v)\<rparr>"

text \<open>A \<open>HashSet\<close> is iterated in the order of the hashes of its items. Here the items come sorted; the operations only add
  them to a multiset and remove them from it, so their order does not matter.\<close>

definition hash_set_ops :: "('i :: linorder fset, 'i) collection_ops" where
  "hash_set_ops = \<lparr>iter_items = (\<lambda>s. sorted_list_of_fset s), once = (\<lambda>v. finsert v fempty),
     append_items = (|\<union>|), default_items = fempty\<rparr>"

section \<open>TimeFilterMap\<close>

record ('c, 'i) time_filter_map =
  time_map :: "'c mpt"
  tf_set :: "'i multi_set"

definition tf_new :: "('c, 'i) time_filter_map" where
  "tf_new = \<lparr>time_map = Empty, tf_set = fmempty\<rparr>"

definition tf_invariant :: "('c, 'i, 'z) container_ops_scheme \<Rightarrow> ('c, 'i) time_filter_map \<Rightarrow> bool" where
  "tf_invariant C m \<longleftrightarrow>
     foldl ms_insert fmempty (concat (map (\<lambda>e. iter_items C (snd e)) (map_iter be_u64_deserialize (time_map m)))) = tf_set m"

definition tf_get :: "('c, 'i) time_filter_map \<Rightarrow> timestamp \<Rightarrow> (unit, 'c option) outcome" where
  "tf_get m ts = obind (map_get u64_be_bytes (time_map m) ts) (\<lambda>r. case r of
       Some res \<Rightarrow> Ok (Some res)
     | None \<Rightarrow> obind (find_predecessor (time_map m) (to_nibbles (u64_be_bytes ts))) (\<lambda>p. Ok (map_option snd p)))"

definition tf_insert :: "('c, 'i, 'z) container_ops_scheme \<Rightarrow> ('c, 'i) time_filter_map \<Rightarrow> timestamp \<Rightarrow> 'i \<Rightarrow>
    (unit, ('c, 'i) time_filter_map) outcome" where
  "tf_insert C m ts v = obind (map_get u64_be_bytes (time_map m) ts) (\<lambda>x.
     let s = (case x of Some x \<Rightarrow> foldl ms_remove (tf_set m) (iter_items C x) | None \<Rightarrow> tf_set m) in
     obind (map_insert size_ann u64_be_bytes (time_map m) ts (once C v)) (\<lambda>tm.
       Ok \<lparr>time_map = tm, tf_set = ms_insert s v\<rparr>))"

definition tf_upsert :: "('c, 'i, 'z) collection_ops_scheme \<Rightarrow> ('c, 'i) time_filter_map \<Rightarrow> timestamp \<Rightarrow> 'c \<Rightarrow>
    (unit, ('c, 'i) time_filter_map) outcome" where
  "tf_upsert C m ts v = obind (map_get u64_be_bytes (time_map m) ts) (\<lambda>x.
     let xs = (case x of Some xs \<Rightarrow> xs | None \<Rightarrow> default_items C);
         s = foldl ms_insert (tf_set m) (iter_items C v) in
     obind (map_insert size_ann u64_be_bytes (time_map m) ts (append_items C xs v)) (\<lambda>tm.
       Ok \<lparr>time_map = tm, tf_set = s\<rparr>))"

definition tf_upsert_one :: "('c, 'i, 'z) collection_ops_scheme \<Rightarrow> ('c, 'i) time_filter_map \<Rightarrow> timestamp \<Rightarrow> 'i \<Rightarrow>
    (unit, ('c, 'i) time_filter_map) outcome" where
  "tf_upsert_one C m ts v = tf_upsert C m ts (once C v)"

definition tf_contains :: "('c, 'i) time_filter_map \<Rightarrow> 'i \<Rightarrow> bool" where
  "tf_contains m v = ms_member (tf_set m) v"

definition tf_contains_all :: "('c, 'i, 'z) container_ops_scheme \<Rightarrow> ('c, 'i) time_filter_map \<Rightarrow> 'c \<Rightarrow> bool" where
  "tf_contains_all C m v = list_all (ms_member (tf_set m)) (iter_items C v)"

definition tf_filter :: "('c, 'i, 'z) container_ops_scheme \<Rightarrow> ('c, 'i) time_filter_map \<Rightarrow> timestamp \<Rightarrow>
    (unit, ('c, 'i) time_filter_map) outcome" where
  "tf_filter C m cutoff = obind (mpt_prune size_ann (time_map m) (to_nibbles (u64_be_bytes cutoff))) (\<lambda>(tm, removed).
     Ok \<lparr>time_map = tm, tf_set = foldl (\<lambda>s items. foldl ms_remove s (iter_items C items)) (tf_set m) removed\<rparr>)"

section \<open>Multisets\<close>

definition ms_rep :: "'v multi_set \<Rightarrow> 'v multiset \<Rightarrow> bool" where
  "ms_rep s M \<longleftrightarrow> (\<forall>e. fmlookup s e = (if e \<in># M then Some (count M e) else None))"

lemma ms_rep_empty [simp]: "ms_rep fmempty {#}"
  by (simp add: ms_rep_def)

lemma ms_rep_unique: "ms_rep s M \<Longrightarrow> ms_rep s' M \<Longrightarrow> s = s'"
  by (intro fmap_ext) (simp add: ms_rep_def)

lemma ms_member_rep: "ms_rep s M \<Longrightarrow> ms_member s e \<longleftrightarrow> e \<in># M"
  by (simp add: ms_rep_def ms_member_def)

lemma ms_count_rep: "ms_rep s M \<Longrightarrow> ms_count s e = count M e"
  by (simp add: ms_rep_def ms_count_def not_in_iff)

lemma ms_invariant_rep: "ms_rep s M \<Longrightarrow> ms_invariant s"
  unfolding ms_rep_def ms_invariant_def by (rule fmpredI) (metis count_eq_zero_iff option.distinct(1) option.inject)

lemma ms_insert_rep: "ms_rep s M \<Longrightarrow> count M e + 1 < 2 ^ 32 \<Longrightarrow> ms_rep (ms_insert s e) (add_mset e M)"
  by (auto simp: ms_rep_def ms_insert_def not_in_iff split: if_splits)

lemma ms_remove_rep: "ms_rep s M \<Longrightarrow> ms_rep (ms_remove s e) (M - {#e#})"
  by (auto simp: ms_rep_def ms_remove_def ms_remove_n_def checked_sub_def Let_def in_diff_count not_in_iff)

lemma ms_insert_all_rep: "ms_rep s M \<Longrightarrow> size M + length es < 2 ^ 32 \<Longrightarrow> ms_rep (foldl ms_insert s es) (M + mset es)"
proof (induction es arbitrary: s M)
  case (Cons e es)
  have "count M e \<le> size M" by (rule count_le_size)
  then have "ms_rep (ms_insert s e) (add_mset e M)" using Cons.prems by (intro ms_insert_rep) auto
  then show ?case using Cons.IH [of "ms_insert s e" "add_mset e M"] Cons.prems by simp
qed simp

lemma ms_remove_all_rep: "ms_rep s M \<Longrightarrow> ms_rep (foldl ms_remove s es) (M - mset es)"
proof (induction es arbitrary: s M)
  case (Cons e es)
  then show ?case using Cons.IH [OF ms_remove_rep [OF Cons.prems, of e]] by (simp add: diff_diff_add)
qed simp

section \<open>Entries under updates\<close>

abbreviation time_ok :: "'c mpt \<Rightarrow> bool" where
  "time_ok \<equiv> map_ok size_ann u64_be_bytes (\<lambda>n. n \<le> u64_max)"

abbreviation time_abs :: "'c mpt \<Rightarrow> nat \<Rightarrow> 'c option" where
  "time_abs \<equiv> map_abs u64_be_bytes (\<lambda>n. n \<le> u64_max)"

lemma time_wf: "time_ok t \<Longrightarrow> mpt_wf t" "time_ok t \<Longrightarrow> canonical size_ann t"
  by (auto simp: map_ok_def keyed_def canonical_iff shape_wf)

lemma entries_mset:
  assumes "mpt_wf t" "distinct (map fst es)" "\<And>k v. (k, v) \<in> set es \<longleftrightarrow> mpt_get t k = Some v"
  shows "mset (entries t) = mset es"
proof -
  have "set (entries t) = set es" using entries_get [OF assms(1)] assms(3) by (auto simp: set_eq_iff)
  then show ?thesis
    using entries_distinct [OF assms(1)] assms(2) by (metis distinct_map set_eq_iff_mset_eq_distinct)
qed

text \<open>The items of all values of a trie.\<close>

definition all_items :: "('c, 'i, 'z) container_ops_scheme \<Rightarrow> 'c mpt \<Rightarrow> 'i multiset" where
  "all_items C t = \<Sum>\<^sub># (image_mset (\<lambda>e. mset (iter_items C (snd e))) (mset (entries t)))"

definition items_at :: "('c, 'i, 'z) container_ops_scheme \<Rightarrow> 'c option \<Rightarrow> 'i multiset" where
  "items_at C x = (case x of Some c \<Rightarrow> mset (iter_items C c) | None \<Rightarrow> {#})"

lemma all_items_mem: "mpt_wf t \<Longrightarrow> i \<in># all_items C t \<longleftrightarrow> (\<exists>p c. mpt_get t p = Some c \<and> i \<in> set (iter_items C c))"
proof -
  assume wf: "mpt_wf t"
  have "i \<in># all_items C t \<longleftrightarrow> (\<exists>e \<in> set (entries t). i \<in> set (iter_items C (snd e)))" by (auto simp: all_items_def)
  also have "\<dots> \<longleftrightarrow> (\<exists>p c. (p, c) \<in> set (entries t) \<and> i \<in> set (iter_items C c))" by force
  finally show ?thesis unfolding entries_get [OF wf] .
qed

lemma all_items_write:
  assumes "mpt_wf t" "mpt_wf t'" "mpt_get t' = (mpt_get t)(p := x)"
  shows "all_items C t' = all_items C t - items_at C (mpt_get t p) + items_at C x" "items_at C (mpt_get t p) \<subseteq># all_items C t"
proof -
  let ?old = "\<lambda>x. (case x of Some c \<Rightarrow> [(p, c)] | None \<Rightarrow> []) :: (nat list \<times> 'a) list"
  let ?rest = "filter (\<lambda>e. fst e \<noteq> p) (entries t)"
  have d: "distinct (map fst (?old x @ ?rest))" for x
    using entries_distinct [OF assms(1)] by (auto simp: distinct_map_filter split: option.splits)
  have t: "mset (entries t) = mset (?old (mpt_get t p) @ ?rest)"
    using entries_get [OF assms(1)] by (intro entries_mset [OF assms(1) d]) (auto split: option.splits)
  have t': "mset (entries t') = mset (?old x @ ?rest)"
    using entries_get [OF assms(1)] assms(3) by (intro entries_mset [OF assms(2) d]) (auto split: option.splits if_splits)
  show "all_items C t' = all_items C t - items_at C (mpt_get t p) + items_at C x" "items_at C (mpt_get t p) \<subseteq># all_items C t"
    unfolding all_items_def t t' by (auto simp: items_at_def split: option.splits)
qed

lemma all_items_prune:
  assumes "mpt_wf t" "mpt_wf t'" "mpt_get t' = from_bound p (mpt_get t)" "mset ps = mset (dropped p (entries t))"
  shows "all_items C t = all_items C t' + \<Sum>\<^sub># (image_mset (\<lambda>c. mset (iter_items C c)) (mset ps))"
proof -
  have "mset (entries t') = mset (filter (\<lambda>e. \<not> fst e < p) (entries t))"
    using entries_get [OF assms(1)] entries_distinct [OF assms(1)] assms(3)
    by (intro entries_mset [OF assms(2)]) (auto simp: from_bound_def distinct_map_filter split: if_splits)
  then have split: "mset (entries t) = mset (entries t') + mset (filter (\<lambda>e. fst e < p) (entries t))"
    by (simp add: add.commute flip: multiset_partition)
  have "all_items C t = all_items C t' + \<Sum>\<^sub># (image_mset (\<lambda>e. mset (iter_items C (snd e))) (mset (filter (\<lambda>e. fst e < p) (entries t))))"
    unfolding all_items_def by (subst split) simp
  then show ?thesis unfolding assms(4) by (simp add: multiset.map_comp comp_def)
qed

lemma remove_all_items:
  "foldl (\<lambda>s c. foldl ms_remove s (iter_items C c)) s cs = foldl ms_remove s (concat (map (iter_items C) cs))"
  by (induction cs arbitrary: s) auto

lemma mset_items: "mset (concat (map (iter_items C) cs)) = \<Sum>\<^sub># (image_mset (\<lambda>c. mset (iter_items C c)) (mset cs))"
  by (induction cs) auto

section \<open>The map and its items\<close>

text \<open>The time filter map represents the partial function \<open>f\<close> from seconds.\<close>

definition tf_rep :: "('c, 'i, 'z) container_ops_scheme \<Rightarrow> ('c, 'i) time_filter_map \<Rightarrow> (nat \<Rightarrow> 'c option) \<Rightarrow> bool" where
  "tf_rep C m f \<longleftrightarrow> time_ok (time_map m) \<and> time_abs (time_map m) = f \<and> ms_rep (tf_set m) (all_items C (time_map m)) \<and>
     size (all_items C (time_map m)) < 2 ^ 32"

lemma tf_new_rep: "tf_rep C tf_new (\<lambda>_. None)"
  by (simp add: tf_rep_def tf_new_def be_u64.empty_ok be_u64.empty_abs all_items_def)

lemma tf_contains_rep: "tf_rep C m f \<Longrightarrow> tf_contains m v \<longleftrightarrow> (\<exists>s c. f s = Some c \<and> v \<in> set (iter_items C c))"
proof -
  assume m: "tf_rep C m f"
  have "(\<exists>p c. mpt_get (time_map m) p = Some c \<and> v \<in> set (iter_items C c)) \<longleftrightarrow> (\<exists>s c. f s = Some c \<and> v \<in> set (iter_items C c))"
    (is "?l \<longleftrightarrow> ?r")
  proof
    assume ?l
    then obtain p c where pc: "mpt_get (time_map m) p = Some c" "v \<in> set (iter_items C c)" by (elim exE conjE)
    then obtain s where "s \<le> u64_max" "p = be_nibbles s" using be_u64.paths_of_keys [of size_ann "time_map m" p c] m by (auto simp: tf_rep_def)
    then have "f s = Some c" using pc m by (auto simp: tf_rep_def map_abs_def)
    then show ?r using pc(2) by blast
  next
    assume ?r
    then obtain s c where sc: "f s = Some c" "v \<in> set (iter_items C c)" by (elim exE conjE)
    then have "mpt_get (time_map m) (be_nibbles s) = Some c" using m by (auto simp: tf_rep_def map_abs_def split: if_splits)
    then show ?l using sc(2) by blast
  qed
  then show ?thesis using m all_items_mem [OF time_wf(1), of "time_map m" v C] ms_member_rep [of "tf_set m" _ v]
    by (auto simp: tf_rep_def tf_contains_def)
qed

lemma tf_insert_rep:
  assumes m: "tf_rep C m f" and C: "iter_items C (once C v) = [v]" and ts: "ts \<le> u64_max"
    and few: "size (all_items C (time_map m)) + 1 < 2 ^ 32"
  shows "\<exists>m'. tf_insert C m ts v = Ok m' \<and> tf_rep C m' (f(ts \<mapsto> once C v)) \<and>
    size (all_items C (time_map m')) \<le> size (all_items C (time_map m)) + 1"
proof -
  let ?t = "time_map m"
  have t: "time_ok ?t" "time_abs ?t = f" "ms_rep (tf_set m) (all_items C ?t)" using m by (auto simp: tf_rep_def)
  obtain t' where t': "map_insert size_ann u64_be_bytes ?t ts (once C v) = Ok t'" "time_ok t'" "time_abs t' = f(ts \<mapsto> once C v)"
    using be_u64.insert_refines [OF size_annotation.annotation_axioms t(1) ts, of "once C v"] t(2) by auto
  have get: "mpt_get t' = (mpt_get ?t)(be_nibbles ts := Some (once C v))"
    using t'(1) mpt_insert_correct [OF time_wf(1) [OF t(1)] be_nibbles(1), of ts "once C v" size_ann]
    by (auto simp: map_insert_def insert_post_def)
  have old: "map_get u64_be_bytes ?t ts = Ok (mpt_get ?t (be_nibbles ts))"
    using be_u64.get_refines [OF t(1) ts] ts by (simp add: map_abs_def)
  let ?M = "all_items C ?t - items_at C (mpt_get ?t (be_nibbles ts))"
  note items = all_items_write [OF time_wf(1) [OF t(1)] time_wf(1) [OF t'(2)] get, of C]
  have "ms_rep (case mpt_get ?t (be_nibbles ts) of Some x \<Rightarrow> foldl ms_remove (tf_set m) (iter_items C x) | None \<Rightarrow> tf_set m) ?M"
    using ms_remove_all_rep [OF t(3)] t(3) by (auto simp: items_at_def split: option.splits)
  moreover have "size ?M \<le> size (all_items C ?t)" by (simp add: size_mset_mono)
  moreover then have "count ?M v + 1 < 2 ^ 32" using few count_le_size [of ?M v] by linarith
  ultimately show ?thesis using t' ms_insert_rep [of _ ?M v] items(1) C few old
    by (auto simp: tf_insert_def tf_rep_def Let_def items_at_def)
qed

lemma tf_filter_rep:
  assumes m: "tf_rep C m f" and ts: "cutoff \<le> u64_max"
  shows "\<exists>m'. tf_filter C m cutoff = Ok m' \<and> tf_rep C m' (\<lambda>s. if s < cutoff then None else f s) \<and>
    size (all_items C (time_map m')) \<le> size (all_items C (time_map m))"
proof -
  let ?t = "time_map m" and ?p = "be_nibbles cutoff"
  have t: "time_ok ?t" "time_abs ?t = f" "ms_rep (tf_set m) (all_items C ?t)" "size (all_items C ?t) < 2 ^ 32"
    using m by (auto simp: tf_rep_def)
  then have c: "shape ?t" "ann_ok size_ann ?t" "mpt_wf ?t" using time_wf by (auto simp: canonical_iff)
  obtain t' ps where r: "mpt_prune size_ann ?t ?p = Ok (t', ps)" "mpt_wf t'" "mpt_get t' = from_bound ?p (mpt_get ?t)"
    using prune_correct [OF c(3) be_nibbles(1)] by blast
  have vals: "mset ps = mset (dropped ?p (entries ?t))" using prune_values [OF c(3) r(1)] .
  have "dom (mpt_get t') \<subseteq> dom (mpt_get ?t)" using r(3) by (auto simp: from_bound_def split: if_splits)
  then have ok: "time_ok t'"
    using t(1) prune_shape [OF r(1) be_nibbles(1) c(1)] prune_ann [OF r(1) size_annotation.annotation_axioms c(1,2)]
    by (auto simp: map_ok_def keyed_def canonical_iff)
  have "time_abs t' s = (if s < cutoff then None else f s)" for s
    using r(3) ts be_nibbles_less [of s cutoff] t(2) by (auto simp: map_abs_def from_bound_def)
  then have abs: "time_abs t' = (\<lambda>s. if s < cutoff then None else f s)" by blast
  have items: "all_items C ?t = all_items C t' + mset (concat (map (iter_items C) ps))"
    using all_items_prune [OF c(3) r(2,3) vals] by (simp add: mset_items)
  have "ms_rep (foldl ms_remove (tf_set m) (concat (map (iter_items C) ps))) (all_items C t')"
    using ms_remove_all_rep [OF t(3), of "concat (map (iter_items C) ps)"] unfolding items by simp
  then show ?thesis using r(1) ok abs items t(4) by (auto simp: tf_filter_def tf_rep_def remove_all_items)
qed

text \<open>The value at the greatest second up to \<open>ts\<close>.\<close>

definition latest :: "(nat \<Rightarrow> 'c option) \<Rightarrow> nat \<Rightarrow> 'c option \<Rightarrow> bool" where
  "latest f ts r \<longleftrightarrow> (case r of
     None \<Rightarrow> \<forall>s \<le> ts. f s = None
   | Some c \<Rightarrow> \<exists>s \<le> ts. f s = Some c \<and> (\<forall>s'. s < s' \<longrightarrow> s' \<le> ts \<longrightarrow> f s' = None))"

lemma tf_get_rep:
  assumes m: "tf_rep C m f" and ts: "ts \<le> u64_max"
  shows "\<exists>r. tf_get m ts = Ok r \<and> latest f ts r"
proof -
  let ?t = "time_map m"
  have t: "time_ok ?t" "\<And>s. f s = (if s \<le> u64_max then mpt_get ?t (be_nibbles s) else None)"
    using m by (auto simp: tf_rep_def map_abs_def)
  have get: "map_get u64_be_bytes ?t ts = Ok (f ts)" using be_u64.get_refines [OF t(1) ts] m by (simp add: tf_rep_def)
  show ?thesis
  proof (cases "f ts")
    case (Some c)
    then show ?thesis using get by (auto simp: tf_get_def latest_def intro!: exI [of _ ts])
  next
    case None
    have key: "\<exists>s \<le> u64_max. k = be_nibbles s" if "mpt_get ?t k \<noteq> None" for k
      using that be_u64.paths_of_keys [OF t(1), of k] by auto
    have "uniform (length (be_nibbles ts)) (mpt_get ?t)" unfolding uniform_def using key be_nibbles(2) by metis
    then have "pred_post ?t [] (be_nibbles ts)"
      using find_predecessor_greatest [of ?t "be_nibbles ts" "[]"] be_nibbles(1) time_wf(2) [OF t(1)] by (simp add: canonical_iff)
    then obtain r where r: "find_predecessor ?t (be_nibbles ts) = Ok r" "is_predecessor (mpt_get ?t) (be_nibbles ts) r"
      by (auto simp: pred_post_def find_predecessor_def apfst_def map_prod_def option.map_id)
    have "latest f ts (map_option snd r)"
    proof (cases r)
      case none: None
      have "f s = None" if "s \<le> ts" for s
        using r(2) none None that ts t(2) [of s] be_nibbles_less [of s ts]
        by (cases "s = ts") (auto simp: is_predecessor_def is_greatest_def split: if_splits)
      then show ?thesis using none by (simp add: latest_def)
    next
      case (Some e)
      obtain k c where kc: "r = Some (k, c)" using Some by (cases e) auto
      then have k: "mpt_get ?t k = Some c" "k < be_nibbles ts" using r(2) by (auto simp: is_predecessor_def is_greatest_def split: if_splits)
      then obtain s where s: "s \<le> u64_max" "k = be_nibbles s" using key by blast
      have "s < ts" using k(2) s be_nibbles_less [of s ts] ts by simp
      moreover have "f s' = None" if "s < s'" "s' \<le> ts" for s'
        using r(2) kc s None that ts t(2) [of s'] be_nibbles_less [of s' ts] be_nibbles_less [of s s']
        by (cases "s' = ts") (auto simp: is_predecessor_def is_greatest_def split: if_splits)
      ultimately show ?thesis using kc k(1) s t(2) [of s] by (auto simp: latest_def intro!: exI [of _ s])
    qed
    then show ?thesis using get None r(1) by (simp add: tf_get_def)
  qed
qed

lemma time_iter: "time_ok t \<Longrightarrow> map snd (map_iter be_u64_deserialize t) = map snd (entries t)"
proof -
  assume t: "time_ok t"
  have "\<exists>s. from_nibbles be_u64_deserialize p = Ok s" if "(p, c) \<in> set (entries t)" for p c
  proof -
    have "mpt_get t p = Some c" using that entries_get [OF time_wf(1) [OF t]] by simp
    then obtain s where "s \<le> u64_max" "p = be_nibbles s" using be_u64.paths_of_keys [OF t] by blast
    then show ?thesis using from_to_nibbles [of "u64_be_bytes s" be_u64_deserialize s] u64_bytes_roundtrip [of s "[]"] by auto
  qed
  then have "map snd (concat (map (\<lambda>(p, v). case from_nibbles be_u64_deserialize p of Ok k \<Rightarrow> [(k, v)] | _ \<Rightarrow> []) es)) = map snd es"
    if "set es \<subseteq> set (entries t)" for es
    using that by (induction es) fastforce+
  then show ?thesis by (simp add: map_iter_def)
qed

lemma tf_invariant_rep: "tf_rep C m f \<Longrightarrow> tf_invariant C m"
proof -
  assume m: "tf_rep C m f"
  let ?xs = "concat (map (\<lambda>e. iter_items C (snd e)) (map_iter be_u64_deserialize (time_map m)))"
  have "?xs = concat (map (iter_items C) (map snd (map_iter be_u64_deserialize (time_map m))))" by (simp add: comp_def)
  also have "\<dots> = concat (map (iter_items C) (map snd (entries (time_map m))))" using m time_iter [of "time_map m"] by (simp only: tf_rep_def)
  finally have xs: "mset ?xs = all_items C (time_map m)" by (simp only: mset_items all_items_def mset_map multiset.map_comp comp_def)
  then have "length ?xs < 2 ^ 32" using m by (simp add: tf_rep_def flip: size_mset)
  then have "ms_rep (foldl ms_insert fmempty ?xs) (mset ?xs)" using ms_insert_all_rep [of fmempty "{#}" ?xs] by simp
  then show ?thesis using m xs ms_rep_unique by (auto simp: tf_rep_def tf_invariant_def)
qed

text \<open>What \<open>insert\<close> needs of a container: one item, put in and taken out.\<close>

locale container =
  fixes C :: "('c, 'i, 'z) container_ops_scheme"
  assumes items_once: "iter_items C (once C v) = [v]"
begin

lemma insert_contains:
  assumes "tf_rep C m f" "ts \<le> u64_max" "size (all_items C (time_map m)) + 1 < 2 ^ 32"
  shows "\<exists>m'. tf_insert C m ts v = Ok m' \<and> tf_rep C m' (f(ts \<mapsto> once C v)) \<and> tf_contains m' v \<and>
    size (all_items C (time_map m')) \<le> size (all_items C (time_map m)) + 1"
proof -
  obtain m' where m': "tf_insert C m ts v = Ok m'" "tf_rep C m' (f(ts \<mapsto> once C v))"
      "size (all_items C (time_map m')) \<le> size (all_items C (time_map m)) + 1"
    using tf_insert_rep [OF assms(1) items_once assms(2,3)] by blast
  then have "tf_contains m' v" using tf_contains_rep [OF m'(2), of v] items_once [of v] by (auto intro!: exI [of _ ts])
  then show ?thesis using m' by blast
qed

end

interpretation identity_items: container identity_ops
  by unfold_locales (simp add: identity_ops_def)

interpretation set_items: container "hash_set_ops :: ('i :: linorder fset, 'i) collection_ops"
  by unfold_locales (simp add: hash_set_ops_def sorted_list_of_fset.rep_eq)

text \<open>Upserting a new item into the set at a second keeps the representation.\<close>

lemma tf_upsert_one_rep:
  fixes m :: "('i :: linorder fset, 'i) time_filter_map"
  assumes m: "tf_rep hash_set_ops m f" and ts: "ts \<le> u64_max" and few: "size (all_items hash_set_ops (time_map m)) + 1 < 2 ^ 32"
    and new: "\<And>c. f ts = Some c \<Longrightarrow> v |\<notin>| c"
  shows "\<exists>m'. tf_upsert_one hash_set_ops m ts v = Ok m' \<and>
    tf_rep hash_set_ops m' (f(ts \<mapsto> finsert v (case f ts of Some c \<Rightarrow> c | None \<Rightarrow> fempty))) \<and>
    size (all_items hash_set_ops (time_map m')) = size (all_items hash_set_ops (time_map m)) + 1"
proof -
  let ?t = "time_map m" and ?C = "hash_set_ops :: ('i fset, 'i) collection_ops"
  let ?new = "finsert v (case f ts of Some c \<Rightarrow> c | None \<Rightarrow> fempty)"
  have t: "time_ok ?t" "time_abs ?t = f" "ms_rep (tf_set m) (all_items ?C ?t)" using m by (auto simp: tf_rep_def)
  obtain t' where t': "map_insert size_ann u64_be_bytes ?t ts ?new = Ok t'" "time_ok t'" "time_abs t' = f(ts \<mapsto> ?new)"
    using be_u64.insert_refines [OF size_annotation.annotation_axioms t(1) ts, of ?new] t(2) by auto
  have old: "mpt_get ?t (be_nibbles ts) = f ts" "map_get u64_be_bytes ?t ts = Ok (f ts)"
    using be_u64.get_refines [OF t(1) ts] ts t(2) by (auto simp: map_abs_def)
  have get: "mpt_get t' = (mpt_get ?t)(be_nibbles ts := Some ?new)"
    using t'(1) mpt_insert_correct [OF time_wf(1) [OF t(1)] be_nibbles(1), of ts ?new size_ann]
    by (auto simp: map_insert_def insert_post_def)
  note items = all_items_write [OF time_wf(1) [OF t(1)] time_wf(1) [OF t'(2)] get, of ?C]
  have "items_at ?C (Some ?new) = add_mset v (items_at ?C (f ts))"
    using new by (auto simp: items_at_def hash_set_ops_def sorted_list_of_fset.rep_eq finsert.rep_eq sorted_list_of_set_insert_remove split: option.splits)
  then have all: "all_items ?C t' = add_mset v (all_items ?C ?t)" using items old(1) by (auto simp: mset_subset_eq_add_mset_cancel)
  have "count (all_items ?C ?t) v + 1 < 2 ^ 32" using few count_le_size [of "all_items ?C ?t" v] by linarith
  then have "ms_rep (ms_insert (tf_set m) v) (all_items ?C t')" using ms_insert_rep [OF t(3), of v] all by simp
  moreover have "append_items ?C (case f ts of Some c \<Rightarrow> c | None \<Rightarrow> default_items ?C) (once ?C v) = ?new"
    by (auto simp: hash_set_ops_def split: option.splits)
  then have "tf_upsert_one ?C m ts v = Ok \<lparr>time_map = t', tf_set = ms_insert (tf_set m) v\<rparr>"
    using t'(1) old(2) by (simp add: tf_upsert_one_def tf_upsert_def set_items.items_once)
  ultimately show ?thesis using t' all few by (auto simp: tf_rep_def)
qed

section \<open>Properties\<close>

text \<open>
  Property C34. A \<open>TimeFilterMap\<close> is a map from seconds whose items can be looked up. Its operations never
  panic and follow the map \<open>f\<close> it represents: \<open>contains\<close> finds exactly the items recorded at some second, \<open>get\<close>
  returns the value at the greatest second up to the given one, \<open>insert\<close> replaces the value at a second and makes
  its item a member, \<open>filter\<close> drops exactly the seconds before the cutoff, and the invariant checked on
  deserialization, that the multiset is the one of all items, holds throughout (with fewer than
  \<open>2 ^ 32\<close> items, so that the counts do not wrap around). The specification (\<open>preliminaries.md\<close>) describes another \<open>filter\<close>, which
  moves the last entry before the cutoff to the cutoff; the code drops it, so that \<open>get\<close> can change after a \<open>filter\<close>.
\<close>

theorem time_filter_map_correct:
  assumes "container C" "tf_rep C m f" "ts \<le> u64_max" "size (all_items C (time_map m)) + 1 < 2 ^ 32"
  shows "(tf_contains m v \<longleftrightarrow> (\<exists>s c. f s = Some c \<and> v \<in> set (iter_items C c))) \<and>
    (\<exists>r. tf_get m ts = Ok r \<and> latest f ts r) \<and>
    (\<exists>m'. tf_insert C m ts v = Ok m' \<and> tf_rep C m' (f(ts \<mapsto> once C v)) \<and> tf_contains m' v) \<and>
    (\<exists>m'. tf_filter C m ts = Ok m' \<and> tf_rep C m' (\<lambda>s. if s < ts then None else f s)) \<and> tf_invariant C m"
  using tf_contains_rep [OF assms(2)] tf_get_rep [OF assms(2,3)] container.insert_contains [OF assms, of v]
    tf_filter_rep [OF assms(2,3)] tf_invariant_rep [OF assms(2)]
  by blast

theorem time_filter_map_correct_witness:
  "\<exists>m m'. tf_insert identity_ops tf_new 100 (7 :: nat) = Ok m \<and> tf_contains m 7 \<and> \<not> tf_contains m 8 \<and>
    tf_filter identity_ops m 200 = Ok m' \<and> \<not> tf_contains m' 7"
proof -
  have u: "100 \<le> u64_max" "200 \<le> u64_max" by (simp_all add: u64_max_def)
  have new: "tf_rep identity_ops tf_new (\<lambda>_. None :: nat option)" "size (all_items identity_ops (time_map tf_new)) + 1 < 2 ^ 32"
    using tf_new_rep by (auto simp: tf_new_def all_items_def)
  obtain m where m: "tf_insert identity_ops tf_new 100 (7 :: nat) = Ok m" "tf_rep identity_ops m ((\<lambda>_. None)(100 \<mapsto> 7))"
      "size (all_items identity_ops (time_map m)) + 1 < 2 ^ 32"
    using identity_items.insert_contains [OF new(1) u(1) new(2), of 7] new(2)
    by (auto simp: identity_ops_def tf_new_def all_items_def)
  note c = time_filter_map_correct [OF identity_items.container_axioms m(2) u(2) m(3)]
  from c [of 7] obtain m' where m': "tf_filter identity_ops m 200 = Ok m'"
      "tf_rep identity_ops m' (\<lambda>s. if s < 200 then None else ((\<lambda>_. None)(100 \<mapsto> 7)) s)"
    by (elim exE conjE)
  have f: "(\<lambda>s. if s < 200 then None else ((\<lambda>_. None)(100 \<mapsto> 7)) s) = (\<lambda>_ :: nat. None :: nat option)" by auto
  show ?thesis
    using m(1) m'(1) c [of 7] c [of 8] tf_contains_rep [OF m'(2) [unfolded f], of 7]
    by (intro exI [of _ m] exI [of _ m']) (auto simp: identity_ops_def)
qed

lemma Suc_mod_neq: "1 < n \<Longrightarrow> Suc c mod n \<noteq> c"
proof
  assume n: "1 < n" and c: "Suc c mod n = c"
  then have "c < n" by (metis gr_implies_not0 mod_less_divisor neq0_conv)
  then show False using n c by (cases "Suc c = n") auto
qed

text \<open>
  \<open>upsert\<close> counts an item each time it is added, but a \<open>HashSet\<close> holds it once: upserting an item twice at
  the same second breaks the invariant, so that the result is rejected when it is read back from storage.
\<close>

lemma upsert_twice_breaks_invariant:
  "\<exists>m m'. tf_upsert_one hash_set_ops tf_new 0 (7 :: nat) = Ok m \<and> tf_upsert_one hash_set_ops m 0 7 = Ok m' \<and>
    tf_invariant hash_set_ops m \<and> \<not> tf_invariant hash_set_ops m'"
proof -
  let ?C = "hash_set_ops :: (nat fset, nat) collection_ops"
  have "tf_rep ?C tf_new (\<lambda>_. None)" by (rule tf_new_rep)
  then obtain m where m: "tf_upsert_one ?C tf_new 0 (7 :: nat) = Ok m" "tf_rep ?C m [0 \<mapsto> {|7|}]"
    using tf_upsert_one_rep [of tf_new "\<lambda>_. None" 0 "7 :: nat"] by (auto simp: tf_new_def all_items_def)
  have t: "time_ok (time_map m)" "time_abs (time_map m) = [0 \<mapsto> {|7|}]" using m(2) by (auto simp: tf_rep_def)
  obtain t' where t': "map_insert size_ann u64_be_bytes (time_map m) 0 {|7|} = Ok t'" "time_ok t'" "time_abs t' = [0 \<mapsto> {|7 :: nat|}]"
    using be_u64.insert_refines [OF size_annotation.annotation_axioms t(1), of 0 "{|7|}"] t(2) by auto
  have "mpt_get t' = (mpt_get (time_map m))(be_nibbles 0 := Some {|7|})"
    using t'(1) mpt_insert_correct [OF time_wf(1) [OF t(1)] be_nibbles(1), of 0 "{|7|}" size_ann]
    by (auto simp: map_insert_def insert_post_def)
  moreover have "mpt_get (time_map m) (be_nibbles 0) = Some {|7|}" using fun_cong [OF t(2), of 0] by (simp add: map_abs_def)
  ultimately have "mpt_get t' = mpt_get (time_map m)" by (metis fun_upd_triv)
  then have "mset (entries t') = mset (entries (time_map m))"
    using entries_get [OF time_wf(1) [OF t(1)]] entries_distinct [OF time_wf(1) [OF t(1)]] by (intro entries_mset [OF time_wf(1) [OF t'(2)]]) simp_all
  then have "tf_rep ?C \<lparr>time_map = t', tf_set = tf_set m\<rparr> [0 \<mapsto> {|7|}]" using m(2) t' by (simp add: tf_rep_def all_items_def)
  from tf_invariant_rep [OF this] have inv: "tf_invariant ?C \<lparr>time_map = t', tf_set = tf_set m\<rparr>" .
  have "tf_upsert_one ?C m 0 7 = Ok \<lparr>time_map = t', tf_set = ms_insert (tf_set m) 7\<rparr>"
    using t'(1) be_u64.get_refines [OF t(1), of 0] t(2)
    by (simp add: tf_upsert_one_def tf_upsert_def set_items.items_once) (simp add: hash_set_ops_def)
  moreover have "ms_insert (tf_set m) 7 \<noteq> tf_set m"
  proof
    assume "ms_insert (tf_set m) 7 = tf_set m"
    then have "fmlookup (ms_insert (tf_set m) 7) 7 = fmlookup (tf_set m) 7" by simp
    then show False using Suc_mod_neq [of "2 ^ 32"] by (cases "fmlookup (tf_set m) 7") (simp_all add: ms_insert_def)
  qed
  ultimately show ?thesis using m(1) tf_invariant_rep [OF m(2)] inv
    by (intro exI [of _ m] exI [of _ "\<lparr>time_map = t', tf_set = ms_insert (tf_set m) 7\<rparr>"]) (auto simp: tf_invariant_def)
qed

end
