(* ===== verification/Zswap_Ledger.thy ===== *)
theory Zswap_Ledger
  imports Zswap_Offer Time_Filter
begin

text \<open>
  \<open>zswap/src/ledger.rs\<close>: the ledger state of the shielded token protocol. Outputs append commitments to a Merkle
  tree, inputs spend against a recent root of that tree and leave a nullifier behind, and each block records the
  new root for an hour.

  The hash maps of commitments and nullifiers are finite sets, the map of the returned indices is a finite map
  and a whitelist is a set of addresses. The tree, the time filter map and their operations are those of
  \<open>Merkle_Tree\<close> and \<open>Time_Filter\<close>. The lemmas relate the state to the list of all coins ever created.
\<close>

section \<open>State\<close>

record 'f zswap_state =
  coin_coms :: "(hash_output, 'f, contract_address option) mtree"
  coin_coms_set :: "hash_output fset"
  first_free :: nat
  nullifiers :: "hash_output fset"
  past_roots :: "('f, 'f) time_filter_map"

datatype 'f zswap_invalid =
    NullifierAlreadyPresent hash_output
  | CommitmentAlreadyPresent hash_output
  | UnknownMerkleRoot 'f
  | MerkleTreeError invalid_update

definition zswap_default :: "'f zswap_state" where
  "zswap_default = \<lparr>coin_coms = mt_blank zswap_tree_height, coin_coms_set = fempty, first_free = 0, nullifiers = fempty, past_roots = tf_new\<rparr>"

section \<open>Applying offers\<close>

definition on_whitelist :: "contract_address fset option \<Rightarrow> contract_address option \<Rightarrow> bool" where
  "on_whitelist whitelist contract = (case (whitelist, contract) of
       (Some list, Some addr) \<Rightarrow> addr |\<in>| list
     | (Some _, None) \<Rightarrow> False
     | (None, _) \<Rightarrow> True)"

definition apply_input :: "'f zswap_state \<Rightarrow> ('f, 'g, 'p) zswap_input \<Rightarrow> contract_address fset option \<Rightarrow>
    ('f zswap_invalid, 'f zswap_state) outcome" where
  "apply_input st inp whitelist =
     (if \<not> tf_contains (past_roots st) (in_merkle_tree_root inp) then Err (UnknownMerkleRoot (in_merkle_tree_root inp))
      else if in_nullifier inp |\<in>| nullifiers st then Err (NullifierAlreadyPresent (in_nullifier inp))
      else if on_whitelist whitelist (in_contract_address inp)
        then Ok (st\<lparr>nullifiers := finsert (in_nullifier inp) (nullifiers st)\<rparr>)
        else Ok st)"

text \<open>The part that outputs and transient coins share: the new leaf, collapsed unless it is on the whitelist.\<close>

definition insert_coin :: "(hash_output, 'f) mcrypto \<Rightarrow> 'f zswap_state \<Rightarrow> hash_output \<Rightarrow> contract_address option \<Rightarrow>
    contract_address fset option \<Rightarrow> ('f zswap_invalid, 'f zswap_state \<times> hash_output \<times> nat) outcome" where
  "insert_coin C st com addr whitelist =
     (let st = st\<lparr>coin_coms_set := finsert com (coin_coms_set st)\<rparr>; ff = first_free st in
      obind (omap_err MerkleTreeError (mt_try_update_hash (coin_coms st) ff com addr)) (\<lambda>tree.
      obind (if \<not> on_whitelist whitelist addr then omap_err MerkleTreeError (mt_collapse C tree ff ff) else Ok tree) (\<lambda>tree.
        Ok (st\<lparr>coin_coms := tree, first_free := ff + 1\<rparr>, com, ff))))"

definition apply_output :: "(hash_output, 'f) mcrypto \<Rightarrow> 'f zswap_state \<Rightarrow> ('g, 'c, 'p) zswap_output \<Rightarrow> contract_address fset option \<Rightarrow>
    ('f zswap_invalid, 'f zswap_state \<times> hash_output \<times> nat) outcome" where
  "apply_output C st out whitelist =
     (if out_coin_com out |\<in>| coin_coms_set st then Err (CommitmentAlreadyPresent (out_coin_com out))
      else insert_coin C st (out_coin_com out) (out_contract_address out) whitelist)"

definition apply_transient :: "(hash_output, 'f) mcrypto \<Rightarrow> 'f zswap_state \<Rightarrow> ('g, 'c, 'p) transient \<Rightarrow> contract_address fset option \<Rightarrow>
    ('f zswap_invalid, 'f zswap_state \<times> hash_output \<times> nat) outcome" where
  "apply_transient C st tr whitelist =
     (if tr_coin_com tr |\<in>| coin_coms_set st then Err (CommitmentAlreadyPresent (tr_coin_com tr))
      else if tr_nullifier tr |\<in>| nullifiers st then Err (NullifierAlreadyPresent (tr_nullifier tr))
      else let st = (if on_whitelist whitelist (tr_contract_address tr)
             then st\<lparr>nullifiers := finsert (tr_nullifier tr) (nullifiers st)\<rparr> else st) in
        insert_coin C st (tr_coin_com tr) (tr_contract_address tr) whitelist)"

definition zswap_try_apply :: "(hash_output, 'f) mcrypto \<Rightarrow> 'f zswap_state \<Rightarrow> ('f, 'g, 'c, 'p) offer \<Rightarrow> contract_address fset option \<Rightarrow>
    ('f zswap_invalid, 'f zswap_state \<times> (hash_output, nat) fmap) outcome" where
  "zswap_try_apply C st off whitelist =
     obind (try_fold (\<lambda>st inp. apply_input st inp whitelist) st (offer_inputs off)) (\<lambda>st.
     obind (try_fold (\<lambda>(st, indices) out. obind (apply_output C st out whitelist) (\<lambda>(st, com, index). Ok (st, fmupd com index indices)))
       (st, fmempty) (offer_outputs off)) (\<lambda>acc.
     try_fold (\<lambda>(st, indices) tr. obind (apply_transient C st tr whitelist) (\<lambda>(st, com, index). Ok (st, fmupd com index indices)))
       acc (offer_transient off)))"

section \<open>Filtering and blocks\<close>

definition zswap_retained :: "contract_address list \<Rightarrow> 'f zswap_state \<Rightarrow> nat list" where
  "zswap_retained flt st =
     map fst (filter (\<lambda>(_, _, opt_aux). case opt_aux of Some aux \<Rightarrow> aux \<in> set flt | None \<Rightarrow> False) (mt_iter_aux (coin_coms st)))"

definition zswap_filter :: "(hash_output, 'f) mcrypto \<Rightarrow> 'f zswap_state \<Rightarrow> contract_address list \<Rightarrow>
    (invalid_update, (hash_output, 'f, contract_address option) mtree) outcome" where
  "zswap_filter C st flt =
     obind (try_fold (\<lambda>(tree, p) i.
         obind (if i > 0 then mt_collapse C tree p (i - 1) else Ok tree) (\<lambda>tree.
           Ok (tree, if i < u64_max then i + 1 else p)))
       (coin_coms st, 0) (zswap_retained flt st)) (\<lambda>(tree, p).
     if first_free st > 0 then mt_collapse C tree p (first_free st - 1) else Ok tree)"

text \<open>The code keeps roots for a constant hour; the specification uses the parameter \<open>global_ttl\<close>.\<close>

definition zswap_post_block_update :: "(hash_output, 'f) mcrypto \<Rightarrow> 'f zswap_state \<Rightarrow> timestamp \<Rightarrow> (unit, 'f zswap_state) outcome" where
  "zswap_post_block_update C st tblock =
     (let tree = mt_rehash C (coin_coms st) in
      case mt_root C tree of
        None \<Rightarrow> Panic
      | Some root \<Rightarrow>
          obind (tf_insert identity_ops (past_roots st) tblock root) (\<lambda>roots.
          obind (tf_filter identity_ops roots (ts_sub tblock (dur_from_secs 3600))) (\<lambda>roots.
            Ok (st\<lparr>coin_coms := tree, past_roots := roots\<rparr>))))"

section \<open>The coins behind a state\<close>

type_synonym coin = "hash_output \<times> contract_address option"

definition coin_cells :: "coin list \<Rightarrow> nat \<Rightarrow> (hash_output, contract_address option) cell" where
  "coin_cells cs i = (if i < length cs then Filled (fst (cs ! i)) (snd (cs ! i)) else Vacant)"

text \<open>The state represents the list \<open>cs\<close> of all coins created, in order: the tree holds them (some collapsed),
  the next position is free, and the set of commitments is theirs.\<close>

definition zs_rep :: "(hash_output, 'f) mcrypto \<Rightarrow> 'f zswap_state \<Rightarrow> coin list \<Rightarrow> bool" where
  "zs_rep C st cs \<longleftrightarrow>
     mt_inv C (coin_coms st) \<and> mt_height (coin_coms st) = zswap_tree_height \<and>
     tree_rel C zswap_tree_height (coin_coms st) (coin_cells cs) \<and>
     (\<forall>i < 2 ^ zswap_tree_height. length cs \<le> i \<longrightarrow> mt_cell (coin_coms st) i = Vacant) \<and>
     length cs \<le> 2 ^ zswap_tree_height \<and> first_free st = length cs \<and> distinct (map fst cs) \<and>
     fset (coin_coms_set st) = fst ` set cs"

lemma coin_cells_Nil: "coin_cells [] = (\<lambda>_. Vacant)"
  by (simp add: coin_cells_def fun_eq_iff)

lemma zs_rep_default: "zs_rep C zswap_default []"
  using tree_rel_blank [of C zswap_tree_height] by (simp add: zs_rep_def zswap_default_def coin_cells_Nil mt_blank_def)

lemma coin_cells_append: "(coin_cells cs)(length cs := Filled (fst c) (snd c)) = coin_cells (cs @ [c])"
  by (auto simp: coin_cells_def fun_eq_iff nth_append less_Suc_eq)

lemma insert_coin_rep:
  assumes st: "zs_rep C st cs" and new: "com \<notin> fst ` set cs" and free: "length cs < 2 ^ zswap_tree_height"
  shows "\<exists>st'. insert_coin C st com addr whitelist = Ok (st', com, length cs) \<and> zs_rep C st' (cs @ [(com, addr)]) \<and>
    nullifiers st' = nullifiers st \<and> past_roots st' = past_roots st"
proof -
  let ?t = "coin_coms st" and ?n = "length cs"
  have h: "mt_inv C ?t" "mt_wf ?t" "mt_height ?t = zswap_tree_height" "first_free st = ?n" "mt_cell ?t ?n = Vacant"
      "tree_rel C zswap_tree_height ?t (coin_cells cs)"
    using st free by (auto simp: zs_rep_def mt_inv_wf)
  then obtain t where t: "mt_try_update_hash ?t ?n com addr = Ok t" using mt_update_ok_iff [OF h(2), of ?n com addr] free by auto
  then have t_inv: "mt_inv C t" "mt_wf t" "mt_height t = zswap_tree_height"
    and t_rel: "tree_rel C zswap_tree_height t (coin_cells (cs @ [(com, addr)]))"
    using mt_update_inv [OF t h(1)] mt_inv_wf mt_update_height [OF t h(2)] h(3) tree_rel_step [OF h(6), of "Update ?n com addr" t]
    by (auto simp: coin_cells_append [of cs "(com, addr)", simplified])
  have t_cell: "mt_cell t i = Vacant" if "i < 2 ^ zswap_tree_height" "Suc ?n \<le> i" for i
    using mt_update_cell [OF t h(2), of i] that st h(3) by (simp add: zs_rep_def)
  have adm: "admissible_range zswap_tree_height ?n ?n" using free by (simp add: admissible_range_def)
  obtain t' where t': "mt_collapse C t ?n ?n = Ok t'" "collapse_post C t (\<lambda>i. ?n \<le> i \<and> i \<le> ?n) t'"
    using mt_collapse_ok [OF t_inv(2), of ?n ?n C] adm t_inv(3) by auto
  have t'_inv: "mt_inv C t'" "mt_height t' = zswap_tree_height" "tree_rel C zswap_tree_height t' (coin_cells (cs @ [(com, addr)]))"
    "\<And>i. i < 2 ^ zswap_tree_height \<Longrightarrow> Suc ?n \<le> i \<Longrightarrow> mt_cell t' i = Vacant"
    using t' t_inv t_cell tree_rel_step [OF t_rel, of "Collapse ?n ?n" t'] adm by (auto simp: collapse_post_def)
  show ?thesis using st new free h(4) t t'(1) t_inv t_rel t_cell t'_inv
    by (auto simp: insert_coin_def zs_rep_def Let_def)
qed

lemma insert_coin_full:
  assumes "zs_rep C st cs" "\<not> length cs < 2 ^ zswap_tree_height"
  shows "\<exists>e. insert_coin C st com addr whitelist = Err (MerkleTreeError e)"
proof -
  let ?r = "mt_try_update_hash (coin_coms st) (length cs) com addr"
  have "\<not> (\<exists>t'. ?r = Ok t')"
    using mt_update_ok_iff [of "coin_coms st" "length cs" com addr] assms by (auto simp: zs_rep_def mt_inv_wf)
  then obtain e where "?r = Err e" using mt_update_no_panic [of "coin_coms st" "length cs" com addr] by (cases ?r) auto
  then show ?thesis using assms by (auto simp: insert_coin_def zs_rep_def)
qed

section \<open>What an offer does\<close>

abbreviation output_coin :: "('g, 'c, 'p) zswap_output \<Rightarrow> coin" where
  "output_coin u \<equiv> (out_coin_com u, out_contract_address u)"

abbreviation transient_coin :: "('g, 'c, 'p) transient \<Rightarrow> coin" where
  "transient_coin t \<equiv> (tr_coin_com t, tr_contract_address t)"

lemma zs_rep_nullifiers [simp]: "zs_rep C (st\<lparr>nullifiers := ns\<rparr>) cs \<longleftrightarrow> zs_rep C st cs"
  by (simp add: zs_rep_def)

lemma on_whitelist_None [simp]: "on_whitelist None addr"
  by (simp add: on_whitelist_def)

lemma apply_inputs:
  "if list_all (\<lambda>i. tf_contains (past_roots st) (in_merkle_tree_root i)) is \<and> distinct (map in_nullifier is) \<and>
      in_nullifier ` set is \<inter> fset (nullifiers st) = {}
   then try_fold (\<lambda>st inp. apply_input st inp None) st is = Ok (st\<lparr>nullifiers := fset_of_list (map in_nullifier is) |\<union>| nullifiers st\<rparr>)
   else \<exists>e. try_fold (\<lambda>st inp. apply_input st inp None) st is = Err e"
proof (induction "is" arbitrary: st)
  case (Cons i "is")
  let ?st = "st\<lparr>nullifiers := finsert (in_nullifier i) (nullifiers st)\<rparr>"
  show ?case
  proof (cases "tf_contains (past_roots st) (in_merkle_tree_root i) \<and> in_nullifier i |\<notin>| nullifiers st")
    case True
    then have "apply_input st i None = Ok ?st" by (simp add: apply_input_def)
    then show ?thesis using Cons.IH [of ?st] True by (auto split: if_splits)
  next
    case False
    then have "\<exists>e. apply_input st i None = Err e" by (auto simp: apply_input_def)
    then show ?thesis using False by auto
  qed
qed simp

text \<open>The index of each new coin is its position in the list of all coins.\<close>

definition indexed :: "(hash_output, nat) fmap \<Rightarrow> nat \<Rightarrow> coin list \<Rightarrow> (hash_output, nat) fmap \<Rightarrow> bool" where
  "indexed m n cs m' \<longleftrightarrow> (\<forall>j < length cs. fmlookup m' (fst (cs ! j)) = Some (n + j)) \<and>
     (\<forall>c. c \<notin> fst ` set cs \<longrightarrow> fmlookup m' c = fmlookup m c)"

lemma indexed_Cons:
  assumes "indexed (fmupd (fst c) n m) (Suc n) cs m'" "fst c \<notin> fst ` set cs"
  shows "indexed m n (c # cs) m'"
  unfolding indexed_def
proof (intro conjI allI impI)
  fix j assume "j < length (c # cs)"
  then show "fmlookup m' (fst ((c # cs) ! j)) = Some (n + j)" using assms by (cases j) (auto simp: indexed_def)
qed (use assms in \<open>auto simp: indexed_def\<close>)

lemma indexed_append:
  "indexed m n cs m1 \<Longrightarrow> indexed m1 (n + length cs) ds m2 \<Longrightarrow> fst ` set cs \<inter> fst ` set ds = {} \<Longrightarrow> indexed m n (cs @ ds) m2"
proof -
  assume m1: "indexed m n cs m1" and m2: "indexed m1 (n + length cs) ds m2" and disj: "fst ` set cs \<inter> fst ` set ds = {}"
  show "indexed m n (cs @ ds) m2"
    unfolding indexed_def
  proof (intro conjI allI impI)
    fix j assume j: "j < length (cs @ ds)"
    show "fmlookup m2 (fst ((cs @ ds) ! j)) = Some (n + j)"
    proof (cases "j < length cs")
      case True
      then have "fst (cs ! j) \<notin> fst ` set ds" using disj nth_mem [of j cs] by blast
      then show ?thesis using True m1 m2 by (simp add: indexed_def nth_append)
    next
      case False
      then show ?thesis using j m2 [unfolded indexed_def, THEN conjunct1, rule_format, of "j - length cs"] by (simp add: nth_append)
    qed
  qed (use m1 m2 in \<open>simp add: indexed_def image_Un\<close>)
qed

text \<open>Adding the coins of a list, each by a step that checks it, inserts it and changes only the nullifiers besides.\<close>

definition coins_added :: "(hash_output, 'f) mcrypto \<Rightarrow> coin list \<Rightarrow> 'f zswap_state \<Rightarrow> coin list \<Rightarrow> hash_output list \<Rightarrow> 'f zswap_state \<Rightarrow> bool" where
  "coins_added C cs st new ns st' \<longleftrightarrow> zs_rep C st' (cs @ new) \<and> past_roots st' = past_roots st \<and>
     nullifiers st' = fset_of_list ns |\<union>| nullifiers st"

lemma apply_output_step:
  assumes "zs_rep C st cs"
  shows "if out_coin_com u \<notin> fst ` set cs \<and> length cs < 2 ^ zswap_tree_height
    then \<exists>st'. apply_output C st u None = Ok (st', out_coin_com u, length cs) \<and> coins_added C cs st [output_coin u] [] st'
    else \<exists>e. apply_output C st u None = Err e"
proof -
  have mem: "c |\<in>| coin_coms_set st \<longleftrightarrow> c \<in> fst ` set cs" for c using assms by (simp add: zs_rep_def)
  show ?thesis
    using insert_coin_rep [OF assms, of "out_coin_com u" "out_contract_address u" None]
      insert_coin_full [OF assms, of "out_coin_com u" "out_contract_address u" None]
    by (auto simp: apply_output_def mem coins_added_def)
qed

lemma apply_transient_step:
  assumes "zs_rep C st cs"
  shows "if tr_coin_com t \<notin> fst ` set cs \<and> tr_nullifier t |\<notin>| nullifiers st \<and> length cs < 2 ^ zswap_tree_height
    then \<exists>st'. apply_transient C st t None = Ok (st', tr_coin_com t, length cs) \<and> coins_added C cs st [transient_coin t] [tr_nullifier t] st'
    else \<exists>e. apply_transient C st t None = Err e"
proof -
  let ?st = "st\<lparr>nullifiers := finsert (tr_nullifier t) (nullifiers st)\<rparr>"
  have mem: "c |\<in>| coin_coms_set st \<longleftrightarrow> c \<in> fst ` set cs" for c using assms by (simp add: zs_rep_def)
  have st: "zs_rep C ?st cs" using assms by simp
  show ?thesis
    using insert_coin_rep [OF st, of "tr_coin_com t" "tr_contract_address t" None]
      insert_coin_full [OF st, of "tr_coin_com t" "tr_contract_address t" None]
    by (auto simp: apply_transient_def mem coins_added_def)
qed

lemma coins_added_Nil: "coins_added C cs st [] [] st \<longleftrightarrow> zs_rep C st cs"
  by (simp add: coins_added_def)

lemma coins_added_trans:
  "coins_added C cs st new ns st1 \<Longrightarrow> coins_added C (cs @ new) st1 new' ns' st2 \<Longrightarrow> coins_added C cs st (new @ new') (ns @ ns') st2"
  by (auto simp: coins_added_def)

lemma apply_outputs:
  assumes "zs_rep C st cs"
  shows "if distinct (map out_coin_com us) \<and> out_coin_com ` set us \<inter> fst ` set cs = {} \<and> length cs + length us \<le> 2 ^ zswap_tree_height
   then \<exists>st' m'. try_fold (\<lambda>(st, indices) out. obind (apply_output C st out None) (\<lambda>(st, com, index). Ok (st, fmupd com index indices)))
       (st, m) us = Ok (st', m') \<and> coins_added C cs st (map output_coin us) [] st' \<and> indexed m (length cs) (map output_coin us) m'
   else \<exists>e. try_fold (\<lambda>(st, indices) out. obind (apply_output C st out None) (\<lambda>(st, com, index). Ok (st, fmupd com index indices)))
       (st, m) us = Err e"
  using assms
proof (induction us arbitrary: st cs m)
  case Nil
  then show ?case by (simp add: coins_added_Nil indexed_def zs_rep_def)
next
  case (Cons u us)
  show ?case
  proof (cases "out_coin_com u \<notin> fst ` set cs \<and> length cs < 2 ^ zswap_tree_height")
    case True
    then obtain st1 where st1: "apply_output C st u None = Ok (st1, out_coin_com u, length cs)" "coins_added C cs st [output_coin u] [] st1"
      using apply_output_step [OF Cons.prems, of u] by auto
    have rep: "zs_rep C st1 (cs @ [output_coin u])" using st1(2) by (simp add: coins_added_def)
    show ?thesis
      using Cons.IH [OF rep, of "fmupd (out_coin_com u) (length cs) m"] True st1(1) coins_added_trans [OF st1(2)]
        indexed_Cons [of "output_coin u" "length cs" m "map output_coin us"]
      by (auto simp: image_image split: if_splits)
  next
    case False
    then have "\<exists>e. apply_output C st u None = Err e" using apply_output_step [OF Cons.prems, of u] by (simp split: if_splits)
    then show ?thesis using False by auto
  qed
qed

lemma apply_transients:
  assumes "zs_rep C st cs"
  shows "if distinct (map tr_coin_com ts) \<and> tr_coin_com ` set ts \<inter> fst ` set cs = {} \<and> distinct (map tr_nullifier ts) \<and>
      tr_nullifier ` set ts \<inter> fset (nullifiers st) = {} \<and> length cs + length ts \<le> 2 ^ zswap_tree_height
   then \<exists>st' m'. try_fold (\<lambda>(st, indices) tr. obind (apply_transient C st tr None) (\<lambda>(st, com, index). Ok (st, fmupd com index indices)))
       (st, m) ts = Ok (st', m') \<and> coins_added C cs st (map transient_coin ts) (map tr_nullifier ts) st' \<and>
       indexed m (length cs) (map transient_coin ts) m'
   else \<exists>e. try_fold (\<lambda>(st, indices) tr. obind (apply_transient C st tr None) (\<lambda>(st, com, index). Ok (st, fmupd com index indices)))
       (st, m) ts = Err e"
  using assms
proof (induction ts arbitrary: st cs m)
  case Nil
  then show ?case by (simp add: coins_added_Nil indexed_def zs_rep_def)
next
  case (Cons t ts)
  show ?case
  proof (cases "tr_coin_com t \<notin> fst ` set cs \<and> tr_nullifier t |\<notin>| nullifiers st \<and> length cs < 2 ^ zswap_tree_height")
    case True
    then obtain st1 where st1: "apply_transient C st t None = Ok (st1, tr_coin_com t, length cs)"
        "coins_added C cs st [transient_coin t] [tr_nullifier t] st1"
      using apply_transient_step [OF Cons.prems, of t] by auto
    have rep: "zs_rep C st1 (cs @ [transient_coin t])" and ns: "fset (nullifiers st1) = insert (tr_nullifier t) (fset (nullifiers st))"
      using st1(2) by (auto simp: coins_added_def)
    show ?thesis
      using Cons.IH [OF rep, of "fmupd (tr_coin_com t) (length cs) m"] True ns st1(1) coins_added_trans [OF st1(2)]
        indexed_Cons [of "transient_coin t" "length cs" m "map transient_coin ts"]
      by (auto simp: image_image split: if_splits)
  next
    case False
    then have "\<exists>e. apply_transient C st t None = Err e" using apply_transient_step [OF Cons.prems, of t] by (simp split: if_splits)
    then show ?thesis using False by auto
  qed
qed

definition spent :: "('f, 'g, 'c, 'p) offer \<Rightarrow> hash_output list" where
  "spent off = map in_nullifier (offer_inputs off) @ map tr_nullifier (offer_transient off)"

definition created :: "('f, 'g, 'c, 'p) offer \<Rightarrow> coin list" where
  "created off = map output_coin (offer_outputs off) @ map transient_coin (offer_transient off)"

text \<open>When an offer applies: known roots, fresh nullifiers, fresh commitments, and room in the tree.\<close>

definition applicable :: "'f zswap_state \<Rightarrow> coin list \<Rightarrow> ('f, 'g, 'c, 'p) offer \<Rightarrow> bool" where
  "applicable st cs off \<longleftrightarrow>
     list_all (\<lambda>i. tf_contains (past_roots st) (in_merkle_tree_root i)) (offer_inputs off) \<and>
     distinct (spent off) \<and> set (spent off) \<inter> fset (nullifiers st) = {} \<and>
     distinct (map fst (created off)) \<and> fst ` set (created off) \<inter> fst ` set cs = {} \<and>
     length cs + length (created off) \<le> 2 ^ zswap_tree_height"

lemma applicable_phases:
  "applicable st cs off \<longleftrightarrow>
    (list_all (\<lambda>i. tf_contains (past_roots st) (in_merkle_tree_root i)) (offer_inputs off) \<and> distinct (map in_nullifier (offer_inputs off)) \<and>
      in_nullifier ` set (offer_inputs off) \<inter> fset (nullifiers st) = {}) \<and>
    (distinct (map out_coin_com (offer_outputs off)) \<and> out_coin_com ` set (offer_outputs off) \<inter> fst ` set cs = {} \<and>
      length cs + length (offer_outputs off) \<le> 2 ^ zswap_tree_height) \<and>
    (distinct (map tr_coin_com (offer_transient off)) \<and>
      tr_coin_com ` set (offer_transient off) \<inter> fst ` set (cs @ map output_coin (offer_outputs off)) = {} \<and>
      distinct (map tr_nullifier (offer_transient off)) \<and>
      tr_nullifier ` set (offer_transient off) \<inter> (in_nullifier ` set (offer_inputs off) \<union> fset (nullifiers st)) = {} \<and>
      length (cs @ map output_coin (offer_outputs off)) + length (offer_transient off) \<le> 2 ^ zswap_tree_height)"
  unfolding applicable_def spent_def created_def
  by (simp add: image_Un image_image comp_def Int_Un_distrib Int_Un_distrib2) (auto simp: Int_commute)

lemma try_apply_spec:
  assumes "zs_rep C st cs"
  shows "if applicable st cs off
    then \<exists>st' m. zswap_try_apply C st off None = Ok (st', m) \<and> coins_added C cs st (created off) (spent off) st' \<and>
      indexed fmempty (length cs) (created off) m
    else \<exists>e. zswap_try_apply C st off None = Err e"
proof -
  let ?st1 = "st\<lparr>nullifiers := fset_of_list (map in_nullifier (offer_inputs off)) |\<union>| nullifiers st\<rparr>"
  let ?outs = "map output_coin (offer_outputs off)"
  define condI where "condI \<longleftrightarrow> list_all (\<lambda>i. tf_contains (past_roots st) (in_merkle_tree_root i)) (offer_inputs off) \<and>
    distinct (map in_nullifier (offer_inputs off)) \<and> in_nullifier ` set (offer_inputs off) \<inter> fset (nullifiers st) = {}"
  define condO where "condO \<longleftrightarrow> distinct (map out_coin_com (offer_outputs off)) \<and> out_coin_com ` set (offer_outputs off) \<inter> fst ` set cs = {} \<and>
      length cs + length (offer_outputs off) \<le> 2 ^ zswap_tree_height"
  define condT where "condT \<longleftrightarrow> distinct (map tr_coin_com (offer_transient off)) \<and>
      tr_coin_com ` set (offer_transient off) \<inter> fst ` set (cs @ ?outs) = {} \<and> distinct (map tr_nullifier (offer_transient off)) \<and>
      tr_nullifier ` set (offer_transient off) \<inter> (in_nullifier ` set (offer_inputs off) \<union> fset (nullifiers st)) = {} \<and>
      length (cs @ ?outs) + length (offer_transient off) \<le> 2 ^ zswap_tree_height"
  have phases: "applicable st cs off \<longleftrightarrow> condI \<and> condO \<and> condT" unfolding applicable_phases condI_def condO_def condT_def ..
  show ?thesis
  proof (cases condI)
    case False
    then show ?thesis using apply_inputs [of st "offer_inputs off", folded condI_def] phases by (auto simp: zswap_try_apply_def)
  next
    case I: True
    then have inputs: "try_fold (\<lambda>st inp. apply_input st inp None) st (offer_inputs off) = Ok ?st1"
      using apply_inputs [of st "offer_inputs off", folded condI_def] by simp
    have st1: "zs_rep C ?st1 cs" using assms by simp
    note outputs = apply_outputs [OF st1, of "offer_outputs off" fmempty, folded condO_def]
    show ?thesis
    proof (cases condO)
      case False
      then show ?thesis using inputs outputs phases by (auto simp: zswap_try_apply_def)
    next
      case O: True
      then obtain st2 m2 where st2: "try_fold (\<lambda>(st, indices) out. obind (apply_output C st out None) (\<lambda>(st, com, index). Ok (st, fmupd com index indices)))
          (?st1, fmempty) (offer_outputs off) = Ok (st2, m2)" "coins_added C cs ?st1 ?outs [] st2" "indexed fmempty (length cs) ?outs m2"
        using outputs by auto
      have rep2: "zs_rep C st2 (cs @ ?outs)" and null2: "fset (nullifiers st2) = in_nullifier ` set (offer_inputs off) \<union> fset (nullifiers st)"
        and roots2: "past_roots st2 = past_roots st"
        using st2(2) by (auto simp: coins_added_def fset_of_list.rep_eq)
      note transients = apply_transients [OF rep2, of "offer_transient off" m2, unfolded null2, folded condT_def]
      show ?thesis
      proof (cases condT)
        case False
        then show ?thesis using inputs st2(1) transients phases by (auto simp: zswap_try_apply_def)
      next
        case T: True
        then obtain st3 m3 where st3: "try_fold (\<lambda>(st, indices) tr. obind (apply_transient C st tr None) (\<lambda>(st, com, index). Ok (st, fmupd com index indices)))
            (st2, m2) (offer_transient off) = Ok (st3, m3)"
          "coins_added C (cs @ ?outs) st2 (map transient_coin (offer_transient off)) (map tr_nullifier (offer_transient off)) st3"
          "indexed m2 (length (cs @ ?outs)) (map transient_coin (offer_transient off)) m3"
          using transients by auto
        have "indexed fmempty (length cs) (created off) m3"
          using indexed_append [OF st2(3), of "map transient_coin (offer_transient off)" m3] st3(3) T
          by (auto simp: created_def condT_def image_Un image_image)
        moreover have "coins_added C cs st (created off) (spent off) st3"
          using st2(2) st3(2) by (auto simp: coins_added_def created_def spent_def)
        ultimately show ?thesis using inputs st2(1) st3(1) phases I O T by (auto simp: zswap_try_apply_def)
      qed
    qed
  qed
qed

end
