(* ===== verification/Zswap_History.thy ===== *)
theory Zswap_History
  imports Zswap_Ledger
begin

text \<open>
  Histories of the shielded ledger: the states reachable by applying offers and closing blocks, in which
  nothing is spent twice and every root that inputs may name is the root of an earlier list of coins, and
  the hour during which the root of a block stays usable.
\<close>

section \<open>Blocks\<close>

abbreviation zswap_digest :: "(hash_output, 'f) mcrypto \<Rightarrow> coin list \<Rightarrow> 'f" where
  "zswap_digest C cs \<equiv> cells_digest C zswap_tree_height (coin_cells cs)"

lemma identity_all_items: "time_ok t \<Longrightarrow> size (all_items identity_ops t) = card (dom (time_abs t))"
proof -
  assume t: "time_ok t"
  have "\<Sum>\<^sub># (image_mset (\<lambda>e. {#snd e#}) M) = image_mset snd M" for M :: "(nat list \<times> 'a) multiset"
    by (induction M) auto
  then have "size (all_items identity_ops t) = length (entries t)" by (simp add: all_items_def identity_ops_def)
  then show ?thesis using entries_card [OF time_wf(1) [OF t]] be_u64.abs_card [OF t] by simp
qed

text \<open>The roots of the last hour, at most one per second.\<close>

definition roots_rep :: "'f zswap_state \<Rightarrow> nat \<Rightarrow> nat \<Rightarrow> (nat \<Rightarrow> 'f option) \<Rightarrow> bool" where
  "roots_rep st lo hi f \<longleftrightarrow> tf_rep identity_ops (past_roots st) f \<and> dom f \<subseteq> {lo..hi}"

lemma roots_few:
  assumes "roots_rep st lo hi f" "hi \<le> lo + 10000"
  shows "size (all_items identity_ops (time_map (past_roots st))) + 1 < 2 ^ 32"
proof -
  have "size (all_items identity_ops (time_map (past_roots st))) = card (dom f)"
    using assms(1) identity_all_items by (auto simp: roots_rep_def tf_rep_def)
  also have "\<dots> \<le> card {lo..hi}" using assms(1) by (intro card_mono) (auto simp: roots_rep_def)
  finally show ?thesis using assms(2) by simp
qed

lemma hour_few: "(t :: nat) \<le> t - 3600 + 10000"
  by arith

lemma post_block_rep:
  assumes st: "zs_rep C st cs" and f: "roots_rep st lo hi f" "hi \<le> lo + 10000" and t: "t \<le> u64_max"
  shows "\<exists>st'. zswap_post_block_update C st t = Ok st' \<and> zs_rep C st' cs \<and> nullifiers st' = nullifiers st \<and>
    mt_root C (coin_coms st') = Some (zswap_digest C cs) \<and>
    tf_rep identity_ops (past_roots st') (\<lambda>s. if s < t - 3600 then None else (f(t \<mapsto> zswap_digest C cs)) s)"
proof -
  let ?tree = "mt_rehash C (coin_coms st)" and ?r = "zswap_digest C cs"
  have rel: "tree_rel C zswap_tree_height (coin_coms st) (coin_cells cs)" using st by (simp add: zs_rep_def)
  have root: "mt_root C ?tree = Some ?r" using tree_rel_digest [OF rel] by simp
  obtain m where m: "tf_insert identity_ops (past_roots st) t ?r = Ok m" "tf_rep identity_ops m (f(t \<mapsto> ?r))"
    using identity_items.insert_contains [OF _ t roots_few [OF f], of f ?r] f(1) by (auto simp: roots_rep_def identity_ops_def)
  have cut: "ts_sub t (dur_from_secs 3600) = t - 3600" by (simp add: ts_sub_def dur_from_secs_def)
  obtain m' where m': "tf_filter identity_ops m (t - 3600) = Ok m'"
      "tf_rep identity_ops m' (\<lambda>s. if s < t - 3600 then None else (f(t \<mapsto> ?r)) s)"
    using tf_filter_rep [OF m(2) le_trans [OF diff_le_self t, of 3600]] by blast
  have "zs_rep C (st\<lparr>coin_coms := ?tree, past_roots := m'\<rparr>) cs"
    using st mt_rehash_inv tree_rel_step [OF rel, of Rehash ?tree] by (auto simp: zs_rep_def)
  then show ?thesis using root m(1) m' cut by (auto simp: zswap_post_block_update_def Let_def)
qed

section \<open>Reachable states\<close>

text \<open>\<open>zswap_reach C t st offs\<close>: the state \<open>st\<close> after the block at time \<open>t\<close>, with the offers \<open>offs\<close> applied so far.\<close>

inductive zswap_reach :: "(hash_output, 'f) mcrypto \<Rightarrow> timestamp \<Rightarrow> 'f zswap_state \<Rightarrow> ('f, 'g, 'c, 'p) offer list \<Rightarrow> bool" for C where
  genesis: "zswap_reach C 0 zswap_default []"
| offer: "zswap_reach C t st offs \<Longrightarrow> zswap_try_apply C st off None = Ok (st', m) \<Longrightarrow> zswap_reach C t st' (offs @ [off])"
| block: "zswap_reach C t st offs \<Longrightarrow> t \<le> t' \<Longrightarrow> t' \<le> u64_max \<Longrightarrow> zswap_post_block_update C st t' = Ok st' \<Longrightarrow>
    zswap_reach C t' st' offs"

abbreviation all_coins :: "('f, 'g, 'c, 'p) offer list \<Rightarrow> coin list" where
  "all_coins offs \<equiv> concat (map created offs)"

abbreviation all_spent :: "('f, 'g, 'c, 'p) offer list \<Rightarrow> hash_output list" where
  "all_spent offs \<equiv> concat (map spent offs)"

text \<open>A root of the tree with a prefix of the coins.\<close>

definition past_root :: "(hash_output, 'f) mcrypto \<Rightarrow> coin list \<Rightarrow> 'f \<Rightarrow> bool" where
  "past_root C cs r \<longleftrightarrow> (\<exists>k t. k \<le> length cs \<and> tree_rel C zswap_tree_height t (coin_cells (take k cs)) \<and> r = mt_digest C t)"

lemma past_root_append: "past_root C cs r \<Longrightarrow> past_root C (cs @ ds) r"
  unfolding past_root_def by (metis (no_types, lifting) append_Nil2 diff_is_0_eq length_append take0 take_append trans_le_add1)

definition zswap_good :: "(hash_output, 'f) mcrypto \<Rightarrow> timestamp \<Rightarrow> 'f zswap_state \<Rightarrow> ('f, 'g, 'c, 'p) offer list \<Rightarrow> bool" where
  "zswap_good C t st offs \<longleftrightarrow> t \<le> u64_max \<and> zs_rep C st (all_coins offs) \<and> fset (nullifiers st) = set (all_spent offs) \<and> distinct (all_spent offs) \<and>
     (\<exists>f. roots_rep st (t - 3600) t f \<and> (\<forall>s r. f s = Some r \<longrightarrow> past_root C (all_coins offs) r))"

lemma zswap_reach_good: "zswap_reach C t st offs \<Longrightarrow> zswap_good C t st offs"
proof (induction rule: zswap_reach.induct)
  case genesis
  have "roots_rep zswap_default 0 0 (\<lambda>_. None :: 'a option)" using tf_new_rep by (simp add: roots_rep_def zswap_default_def)
  then show ?case using zs_rep_default [of C] by (auto simp: zswap_good_def zswap_default_def)
next
  case (offer t st offs off st' m)
  let ?cs = "all_coins offs"
  have st: "zs_rep C st ?cs" using offer.IH by (simp add: zswap_good_def)
  have "applicable st ?cs off \<and> coins_added C ?cs st (created off) (spent off) st'"
    using try_apply_spec [OF st, of off] offer.hyps(2) by (auto split: if_splits)
  then show ?case using offer.IH past_root_append [of C ?cs _ "created off"]
    by (auto simp: zswap_good_def coins_added_def applicable_def roots_rep_def fset_of_list.rep_eq)
next
  case (block t st offs t' st')
  let ?cs = "all_coins offs"
  have st: "zs_rep C st ?cs" using block.IH by (simp add: zswap_good_def)
  obtain f where f: "roots_rep st (t - 3600) t f" "\<And>s r. f s = Some r \<Longrightarrow> past_root C ?cs r"
    using block.IH by (auto simp: zswap_good_def)
  have st': "zs_rep C st' ?cs" "nullifiers st' = nullifiers st"
    "tf_rep identity_ops (past_roots st') (\<lambda>s. if s < t' - 3600 then None else (f(t' \<mapsto> zswap_digest C ?cs)) s)" (is "tf_rep _ _ ?f")
    using post_block_rep [OF st f(1) _ block.hyps(3)] block.hyps(4) by auto
  have "past_root C ?cs (zswap_digest C ?cs)"
    using st tree_rel_digest [of C zswap_tree_height "coin_coms st" "coin_cells ?cs"] unfolding past_root_def zs_rep_def
    by (intro exI [of _ "length ?cs"] exI [of _ "coin_coms st"]) simp
  moreover have "dom ?f \<subseteq> {t' - 3600..t'}" using f(1) block.hyps(2) by (fastforce simp: roots_rep_def dom_def split: if_splits)
  ultimately show ?case using st' f(2) block.IH block.hyps(3)
    by (auto simp: zswap_good_def roots_rep_def split: if_splits intro!: exI [of _ ?f])
qed

section \<open>The hour of a root\<close>

text \<open>What can happen after the block at \<open>t\<close>, up to time \<open>hi\<close>: offers, and blocks in between.\<close>

inductive zswap_later :: "(hash_output, 'f) mcrypto \<Rightarrow> timestamp \<Rightarrow> timestamp \<Rightarrow> 'f zswap_state \<Rightarrow> ('f, 'g, 'c, 'p) offer list \<Rightarrow> 'f zswap_state \<Rightarrow> bool"
  for C lo hi st where
  now: "zswap_later C lo hi st [] st"
| later_offer: "zswap_later C lo hi st offs st1 \<Longrightarrow> zswap_try_apply C st1 off None = Ok (st2, m) \<Longrightarrow> zswap_later C lo hi st (offs @ [off]) st2"
| later_block: "zswap_later C lo hi st offs st1 \<Longrightarrow> lo < t \<Longrightarrow> t \<le> hi \<Longrightarrow> t \<le> u64_max \<Longrightarrow> zswap_post_block_update C st1 t = Ok st2 \<Longrightarrow>
    zswap_later C lo hi st offs st2"

lemma later_keeps_root:
  assumes "zswap_later C t (t + 3600) st offs st2" "zs_rep C st cs" "roots_rep st (t - 3600) (t + 3600) f" "f t = Some r"
  shows "\<exists>cs f. zs_rep C st2 cs \<and> roots_rep st2 (t - 3600) (t + 3600) f \<and> f t = Some r"
  using assms
proof (induction rule: zswap_later.induct)
  case now
  then show ?case by blast
next
  case (later_offer offs st1 off st2 m)
  then obtain cs f where cs: "zs_rep C st1 cs" "roots_rep st1 (t - 3600) (t + 3600) f" "f t = Some r" by blast
  then have "coins_added C cs st1 (created off) (spent off) st2"
    using try_apply_spec [OF cs(1), of off] later_offer.hyps(2) by (auto split: if_splits)
  then show ?case using cs by (auto simp: coins_added_def roots_rep_def)
next
  case (later_block offs st1 t' st2)
  then obtain cs f where cs: "zs_rep C st1 cs" "roots_rep st1 (t - 3600) (t + 3600) f" "f t = Some r" by blast
  let ?f = "\<lambda>s. if s < t' - 3600 then None else (f(t' \<mapsto> zswap_digest C cs)) s"
  have "zs_rep C st2 cs" "tf_rep identity_ops (past_roots st2) ?f"
    using post_block_rep [OF cs(1,2) _ later_block.hyps(4)] later_block.hyps(5) by auto
  moreover have "?f t = Some r" using cs(3) later_block.hyps(2,3) by auto
  moreover have "dom ?f \<subseteq> {t - 3600..t + 3600}" using cs(2) later_block.hyps(2,3) by (fastforce simp: roots_rep_def dom_def split: if_splits)
  ultimately show ?case by (auto simp: roots_rep_def)
qed

lemma root_after_block:
  assumes "zswap_reach C t st offs" "t \<le> t'" "t' \<le> u64_max" "zswap_post_block_update C st t' = Ok st1"
    and "zswap_later C t' (t' + 3600) st1 later st2" "mt_root C (coin_coms st1) = Some r"
  shows "tf_contains (past_roots st2) r"
proof -
  obtain f where st: "zs_rep C st (all_coins offs)" and f: "roots_rep st (t - 3600) t f"
    using zswap_reach_good [OF assms(1)] by (auto simp: zswap_good_def)
  let ?f = "\<lambda>s. if s < t' - 3600 then None else (f(t' \<mapsto> zswap_digest C (all_coins offs))) s"
  have st1: "zs_rep C st1 (all_coins offs)" "tf_rep identity_ops (past_roots st1) ?f" "r = zswap_digest C (all_coins offs)"
    using post_block_rep [OF st f hour_few assms(3)] assms(4,6) by auto
  have "dom ?f \<subseteq> {t' - 3600..t' + 3600}" using f assms(2) by (fastforce simp: roots_rep_def dom_def split: if_splits)
  then have "roots_rep st1 (t' - 3600) (t' + 3600) ?f" using st1(2) by (simp add: roots_rep_def)
  moreover have "?f t' = Some r" using st1(3) by (simp add: not_less)
  ultimately obtain g where "tf_rep identity_ops (past_roots st2) g" "g t' = Some r"
    using later_keeps_root [OF assms(5) st1(1), of ?f r] by (auto simp: roots_rep_def)
  then show ?thesis using tf_contains_rep [of identity_ops "past_roots st2" g r] by (auto simp: identity_ops_def)
qed

section \<open>Properties\<close>

text \<open>
  Property C36. Nothing is spent twice. In every state reachable from the empty one by offers and blocks, the
  nullifiers of all inputs and transient coins applied so far are distinct, the state holds exactly these, the
  commitments of all coins created are distinct, and the next free position is their number. Applying any
  further offer does not panic, and closing a block at any later time succeeds.
\<close>

theorem no_double_spend:
  assumes "zswap_reach C t st offs"
  shows "distinct (all_spent offs) \<and> fset (nullifiers st) = set (all_spent offs) \<and>
    distinct (map fst (all_coins offs)) \<and> fset (coin_coms_set st) = fst ` set (all_coins offs) \<and> first_free st = length (all_coins offs) \<and>
    zswap_try_apply C st off None \<noteq> Panic \<and> (t \<le> t' \<and> t' \<le> u64_max \<longrightarrow> (\<exists>st'. zswap_post_block_update C st t' = Ok st'))"
proof -
  have g: "zswap_good C t st offs" using assms by (rule zswap_reach_good)
  then obtain f where st: "zs_rep C st (all_coins offs)" and f: "roots_rep st (t - 3600) t f" by (auto simp: zswap_good_def)
  have "\<exists>st'. zswap_post_block_update C st t' = Ok st'" if "t' \<le> u64_max" using post_block_rep [OF st f hour_few that] by blast
  moreover have "zswap_try_apply C st off None \<noteq> Panic" using try_apply_spec [OF st, of off] by (auto split: if_splits)
  ultimately show ?thesis using g st by (auto simp: zswap_good_def zs_rep_def)
qed

text \<open>
  Property C37. An offer applies to a reachable state exactly when its roots are recent, its nullifiers are distinct
  and new, its commitments are distinct and new, and the tree has room. Then the nullifiers are recorded, the
  new coins follow the earlier ones in order, the returned indices are their positions, and the root of the next
  block is the root of the tree of all coins.
\<close>

theorem offer_applies_exactly:
  assumes "zswap_reach C t st offs" "t \<le> t'" "t' \<le> u64_max"
  shows "if applicable st (all_coins offs) off
    then \<exists>st' m st''. zswap_try_apply C st off None = Ok (st', m) \<and> indexed fmempty (length (all_coins offs)) (created off) m \<and>
      fset (nullifiers st') = set (all_spent (offs @ [off])) \<and> zswap_post_block_update C st' t' = Ok st'' \<and>
      mt_root C (coin_coms st'') = Some (zswap_digest C (all_coins (offs @ [off])))
    else \<exists>e. zswap_try_apply C st off None = Err e"
proof -
  have st: "zs_rep C st (all_coins offs)" using zswap_reach_good [OF assms(1)] by (simp add: zswap_good_def)
  show ?thesis
  proof (cases "applicable st (all_coins offs) off")
    case True
    then obtain st' m where st': "zswap_try_apply C st off None = Ok (st', m)" "indexed fmempty (length (all_coins offs)) (created off) m"
      using try_apply_spec [OF st, of off] by auto
    then have g: "zswap_good C t st' (offs @ [off])" using zswap_reach.offer [OF assms(1)] zswap_reach_good by blast
    then obtain f where rep: "zs_rep C st' (all_coins (offs @ [off]))" "roots_rep st' (t - 3600) t f" by (auto simp: zswap_good_def)
    obtain st'' where "zswap_post_block_update C st' t' = Ok st''" "mt_root C (coin_coms st'') = Some (zswap_digest C (all_coins (offs @ [off])))"
      using post_block_rep [OF rep hour_few assms(3)] by blast
    then show ?thesis using True st' g by (auto simp: zswap_good_def)
  qed (use try_apply_spec [OF st, of off] in auto)
qed


text \<open>
  Property C39. Spending stays possible for an hour. After a block at time \<open>t'\<close> on a reachable state, whatever
  offers and later blocks follow up to \<open>t' + 3600\<close>, an input that names the root of that block and has a new nullifier
  is accepted.
\<close>

theorem recent_root_usable:
  assumes "zswap_reach C t st offs" "t \<le> t'" "t' \<le> u64_max" "zswap_post_block_update C st t' = Ok st1"
    and "zswap_later C t' (t' + 3600) st1 (later :: ('f, 'g, 'c, 'p) offer list) st2"
    and "mt_root C (coin_coms st1) = Some (in_merkle_tree_root inp)" "in_nullifier inp |\<notin>| nullifiers st2"
  shows "apply_input st2 (inp :: ('f, 'g, 'p) zswap_input) None = Ok (st2\<lparr>nullifiers := finsert (in_nullifier inp) (nullifiers st2)\<rparr>)"
  using root_after_block [OF assms(1-6)] assms(7) by (simp add: apply_input_def)

section \<open>Filtering\<close>

text \<open>\<open>filter\<close> collapses the gaps between the retained positions. Collapsing up to position \<open>p\<close> hides what is not retained there.\<close>

lemma filter_gaps:
  assumes "mt_wf t" "mt_height t = zswap_tree_height" "sorted_wrt (<) is" "\<forall>i \<in> set is. p \<le> i \<and> i < 2 ^ zswap_tree_height"
    and "\<forall>j < 2 ^ zswap_tree_height. mt_cell t j = (if j < p \<and> j \<notin> R then Hidden else mt_cell t0 j)" "mt_digest C t = mt_digest C t0"
    and "\<forall>j. p \<le> j \<longrightarrow> (j \<in> R \<longleftrightarrow> j \<in> set is)"
  shows "\<exists>t' p'. try_fold (\<lambda>(tree, p) i. obind (if i > 0 then mt_collapse C tree p (i - 1) else Ok tree) (\<lambda>tree.
        Ok (tree, if i < u64_max then i + 1 else p))) (t, p) is = Ok (t', p') \<and>
    mt_wf t' \<and> mt_height t' = zswap_tree_height \<and> mt_digest C t' = mt_digest C t0 \<and> p \<le> p' \<and> p' = (if is = [] then p else last is + 1) \<and>
    (\<forall>j < 2 ^ zswap_tree_height. mt_cell t' j = (if j < p' \<and> j \<notin> R then Hidden else mt_cell t0 j)) \<and> (\<forall>j. p' \<le> j \<longrightarrow> j \<notin> R)"
  using assms
proof (induction "is" arbitrary: t p)
  case (Cons i "is")
  have i: "p \<le> i" "i < 2 ^ zswap_tree_height" "i \<in> R" "i < u64_max" and least: "\<And>j. p \<le> j \<Longrightarrow> j < i \<Longrightarrow> j \<notin> R"
    using Cons.prems by (auto simp: zswap_tree_height_def u64_max_def)
  obtain t1 where t1: "(if i > 0 then mt_collapse C t p (i - 1) else Ok t) = Ok t1" "mt_wf t1" "mt_height t1 = zswap_tree_height"
      "mt_digest C t1 = mt_digest C t0" "\<forall>j < 2 ^ zswap_tree_height. mt_cell t1 j = (if p \<le> j \<and> j < i then Hidden else mt_cell t j)"
  proof (cases "i > 0")
    case True
    have "admissible_range (mt_height t) p (i - 1)" using i True Cons.prems(2) less_imp_diff_less [OF i(2)] by (simp add: admissible_range_def)
    then obtain t1 where "mt_collapse C t p (i - 1) = Ok t1" "collapse_post C t (\<lambda>j. p \<le> j \<and> j < i) t1"
      using mt_collapse_ok [OF Cons.prems(1), of p "i - 1" C] True by (auto simp: le_less_Suc_eq less_Suc_eq_le [symmetric])
    then show ?thesis using that [of t1] True Cons.prems(2,6) by (auto simp: collapse_post_def)
  qed (use that [of t] Cons.prems i in auto)
  have "\<forall>j < 2 ^ zswap_tree_height. mt_cell t1 j = (if j < i + 1 \<and> j \<notin> R then Hidden else mt_cell t0 j)"
    using t1(5) Cons.prems(5) i least by (auto simp: less_Suc_eq)
  then show ?case using Cons.IH [of t1 "i + 1"] t1 Cons.prems i by (auto simp: Suc_le_eq)
qed auto

lemma cell_entries_sorted:
  "sorted_wrt (<) xs \<Longrightarrow> sorted_wrt (<) (map fst (filter P (concat (map (\<lambda>i. cell_entry i (c i)) xs))))"
proof (induction xs)
  case (Cons x xs)
  have fst: "(a, y) \<in> set (cell_entry i d) \<Longrightarrow> a = i" for a y i d by (cases d) auto
  have "length (cell_entry x (c x)) \<le> 1" by (cases "c x") auto
  then have "sorted_wrt (<) (map fst (filter P (cell_entry x (c x))))" by (cases "cell_entry x (c x)") auto
  moreover have "a < b" if "a \<in> fst ` set (filter P (cell_entry x (c x)))" "b \<in> fst ` set (filter P (concat (map (\<lambda>i. cell_entry i (c i)) xs)))" for a b
    using that Cons.prems by (auto dest!: fst)
  ultimately show ?case using Cons by (simp add: sorted_wrt_append)
qed simp

lemma retained:
  assumes "mt_wf (coin_coms st)" "mt_height (coin_coms st) = zswap_tree_height"
  shows "sorted_wrt (<) (zswap_retained flt st)"
    and "i \<in> set (zswap_retained flt st) \<longleftrightarrow> i < 2 ^ zswap_tree_height \<and> (\<exists>x a. mt_cell (coin_coms st) i = Filled x (Some a) \<and> a \<in> set flt)"
proof -
  have "(2 :: nat) ^ zswap_tree_height \<le> Suc u64_max" by (simp add: zswap_tree_height_def u64_max_def)
  then have iter: "mt_iter_aux (coin_coms st) = cells_in_range (mt_cell (coin_coms st)) (2 ^ zswap_tree_height) (Unbounded, Unbounded)"
    using leaves_in_range_spec [OF assms(1)] assms(2) by (simp add: mt_iter_aux_def mt_leaves_def)
  show "sorted_wrt (<) (zswap_retained flt st)"
    unfolding zswap_retained_def iter cells_in_range_def by (intro cell_entries_sorted sorted_wrt_filter) simp
  have "i \<in> set (zswap_retained flt st) \<longleftrightarrow> (\<exists>x a. (i, x, Some a) \<in> set (mt_iter_aux (coin_coms st)) \<and> a \<in> set flt)"
    unfolding zswap_retained_def by (force split: option.splits)
  then show "i \<in> set (zswap_retained flt st) \<longleftrightarrow> i < 2 ^ zswap_tree_height \<and> (\<exists>x a. mt_cell (coin_coms st) i = Filled x (Some a) \<and> a \<in> set flt)"
    unfolding iter cells_in_range_mem by auto
qed

text \<open>
  \<open>filter\<close> keeps the root, and the positions that stay readable are those of the coins of the given contracts:
  everything else that was written is collapsed. This needs a free position in the tree: on a full tree whose last
  coin is retained, the last call collapses that coin too.
\<close>

lemma zswap_filter_correct:
  assumes "zs_rep C st cs" "length cs < 2 ^ zswap_tree_height"
  shows "\<exists>t. zswap_filter C st flt = Ok t \<and> mt_root C (mt_rehash C t) = mt_root C (mt_rehash C (coin_coms st)) \<and>
    (\<forall>i < 2 ^ zswap_tree_height. mt_index t i = (if i \<in> set (zswap_retained flt st) then mt_index (coin_coms st) i else None))"
proof -
  let ?t = "coin_coms st" and ?is = "zswap_retained flt st"
  have h: "mt_wf ?t" "mt_height ?t = zswap_tree_height" "first_free st = length cs"
    and vac: "\<And>i. i < 2 ^ zswap_tree_height \<Longrightarrow> length cs \<le> i \<Longrightarrow> mt_cell ?t i = Vacant"
    using assms(1) by (auto simp: zs_rep_def mt_inv_wf)
  note ret = retained [OF h(1,2), where flt = flt]
  have used: "i < length cs" if "i \<in> set ?is" for i using that ret(2) [of i] vac [of i] by (cases "i < length cs") auto
  obtain t1 p where t1: "try_fold (\<lambda>(tree, p) i. obind (if i > 0 then mt_collapse C tree p (i - 1) else Ok tree) (\<lambda>tree.
        Ok (tree, if i < u64_max then i + 1 else p))) (?t, 0) ?is = Ok (t1, p)" "mt_wf t1" "mt_height t1 = zswap_tree_height"
      "mt_digest C t1 = mt_digest C ?t" "p = (if ?is = [] then 0 else last ?is + 1)"
      "\<forall>j < 2 ^ zswap_tree_height. mt_cell t1 j = (if j < p \<and> j \<notin> set ?is then Hidden else mt_cell ?t j)" "\<And>j. p \<le> j \<Longrightarrow> j \<notin> set ?is"
    using filter_gaps [OF h(1,2) ret(1), of 0 "set ?is" ?t C] ret(2) by auto
  have p: "p \<le> length cs" using t1(5) used last_in_set [of ?is] by (auto simp: Suc_le_eq)
  show ?thesis
  proof (cases "first_free st > 0")
    case True
    then have "admissible_range (mt_height t1) p (length cs - 1)" using p assms(2) h(3) t1(3) by (auto simp: admissible_range_def)
    then obtain t2 where t2: "mt_collapse C t1 p (length cs - 1) = Ok t2" "collapse_post C t1 (\<lambda>j. p \<le> j \<and> j \<le> length cs - 1) t2"
      using mt_collapse_ok [OF t1(2)] by blast
    have "mt_index t2 i = (if i \<in> set ?is then mt_index ?t i else None)" if "i < 2 ^ zswap_tree_height" for i
      using that t2(2) t1(3,6,7) vac [of i] used [of i] by (auto simp: collapse_post_def mt_index_cell)
    then show ?thesis using True t1(1,4) t2 h(3) by (auto simp: zswap_filter_def collapse_post_def)
  next
    case False
    then have "cs = []" "p = 0" "?is = []" using h(3) p used t1(5) by (auto split: if_splits)
    then show ?thesis using False t1 vac by (auto simp: zswap_filter_def mt_index_cell)
  qed
qed

section \<open>A history\<close>

text \<open>One coin is created, a block is closed, and the coin is spent against the root of that block.\<close>

definition mint :: "(digest_term, int, nat, nat) offer" where
  "mint = \<lparr>offer_inputs = [], offer_outputs = [Output 9 5 None None 0], offer_transient = [], offer_deltas = []\<rparr>"

definition mint_path :: "(nat, digest_term) merkle_path" where
  "mint_path = \<lparr>mp_leaf = 9, mp_path = replicate zswap_tree_height \<lparr>pe_sibling = DEmpty, pe_goes_left = True\<rparr>\<rparr>"

definition spend :: "(digest_term, int, nat) zswap_input" where
  "spend = Input 1 5 None (merkle_path_root term_crypto (\<lambda>x. x) mint_path) 0"

lemma vacant_digest: "(\<And>i. i < 2 ^ n \<Longrightarrow> c i = Vacant) \<Longrightarrow> cells_digest C n c = fr_default C"
  by (cases n) auto

lemma mint_digest: "zswap_digest term_crypto (all_coins [mint]) = merkle_path_root term_crypto (\<lambda>x. x) mint_path"
proof -
  have coins: "all_coins [mint] = [(9, None)]" by (simp add: mint_def created_def)
  have "cells_digest term_crypto n (coin_cells [(9, None)]) = ((\<lambda>d. DPair d DEmpty) ^^ n) (DLeaf 9)" for n
  proof (induction n)
    case (Suc n)
    have "cells_digest term_crypto n (\<lambda>i. coin_cells [(9, None)] (i + 2 ^ n)) = DEmpty"
      by (subst vacant_digest) (auto simp: coin_cells_def)
    moreover have "\<exists>i < 2 ^ Suc n. coin_cells [(9, None)] i \<noteq> Vacant" by (intro exI [of _ 0]) (simp add: coin_cells_def)
    ultimately show ?case using Suc by auto
  qed (simp add: coin_cells_def)
  moreover have "fold (\<lambda>e acc. if pe_goes_left e then transient_hash term_crypto acc (pe_sibling e) else transient_hash term_crypto (pe_sibling e) acc)
      (replicate n \<lparr>pe_sibling = DEmpty, pe_goes_left = True\<rparr>) d = ((\<lambda>d. DPair d DEmpty) ^^ n) d" for n d
    by (induction n arbitrary: d) (simp_all add: funpow_Suc_right del: funpow.simps(2))
  ultimately show ?thesis unfolding coins by (simp add: merkle_path_root_def mint_path_def)
qed

lemma mint_history:
  "\<exists>st1 m st2. zswap_try_apply term_crypto zswap_default mint None = Ok (st1, m) \<and> zswap_post_block_update term_crypto st1 100 = Ok st2 \<and>
    zswap_reach term_crypto 100 st2 [mint] \<and> zswap_reach term_crypto 0 st1 [mint] \<and>
    mt_root term_crypto (coin_coms st2) = Some (in_merkle_tree_root spend) \<and> nullifiers st2 = fempty \<and>
    tf_contains (past_roots st2) (in_merkle_tree_root spend)"
proof -
  have app: "applicable zswap_default [] mint"
    by (simp add: applicable_def mint_def spent_def created_def zswap_tree_height_def)
  have reach: "zswap_reach term_crypto 0 zswap_default ([] :: (digest_term, int, nat, nat) offer list)" by (rule zswap_reach.genesis)
  obtain st1 m where st1: "zswap_try_apply term_crypto zswap_default mint None = Ok (st1, m)" "coins_added term_crypto [] zswap_default (created mint) (spent mint) st1"
    using try_apply_spec [OF zs_rep_default, of mint term_crypto] app by auto
  have r1: "zswap_reach term_crypto 0 st1 [mint]" using zswap_reach.offer [OF reach st1(1)] by simp
  then obtain f where f: "zs_rep term_crypto st1 (all_coins [mint])" "roots_rep st1 (0 - 3600) 0 f"
    using zswap_reach_good [OF r1] by (auto simp: zswap_good_def)
  obtain st2 where st2: "zswap_post_block_update term_crypto st1 100 = Ok st2" "nullifiers st2 = nullifiers st1"
      "mt_root term_crypto (coin_coms st2) = Some (zswap_digest term_crypto (all_coins [mint]))"
    using post_block_rep [OF f hour_few, of 100] by (auto simp: u64_max_def)
  have "zswap_reach term_crypto 100 st2 [mint]" using zswap_reach.block [OF r1 _ _ st2(1)] by (simp add: u64_max_def)
  moreover have "nullifiers st1 = fempty" using st1(2) by (simp add: coins_added_def mint_def spent_def zswap_default_def)
  moreover have root: "mt_root term_crypto (coin_coms st2) = Some (in_merkle_tree_root spend)"
    using st2(3) unfolding mint_digest by (simp add: spend_def)
  moreover have "tf_contains (past_roots st2) (in_merkle_tree_root spend)"
    using root_after_block [OF r1 _ _ st2(1) zswap_later.now root] by (simp add: u64_max_def)
  ultimately show ?thesis using st1(1) st2(1,2) r1 by auto
qed

theorem no_double_spend_witness:
  "\<exists>st. zswap_reach term_crypto 100 st [mint] \<and> first_free st = 1 \<and> zswap_try_apply term_crypto st mint None \<noteq> Panic"
proof -
  obtain st where "zswap_reach term_crypto 100 st [mint]" using mint_history by blast
  then show ?thesis using no_double_spend [of term_crypto 100 st "[mint]" mint] by (auto simp: mint_def created_def)
qed

theorem offer_applies_exactly_witness:
  "\<exists>st1 m st2. zswap_try_apply term_crypto zswap_default mint None = Ok (st1, m) \<and> fmlookup m 9 = Some 0 \<and>
    zswap_post_block_update term_crypto st1 100 = Ok st2 \<and> mt_root term_crypto (coin_coms st2) = Some (in_merkle_tree_root spend)"
proof -
  have reach: "zswap_reach term_crypto 0 zswap_default ([] :: (digest_term, int, nat, nat) offer list)" by (rule zswap_reach.genesis)
  have "applicable zswap_default (all_coins ([] :: (digest_term, int, nat, nat) offer list)) mint"
    by (simp add: applicable_def mint_def spent_def created_def zswap_tree_height_def)
  then show ?thesis using offer_applies_exactly [OF reach, of 100 mint] mint_digest
    by (auto simp: u64_max_def indexed_def created_def mint_def spend_def)
qed


theorem recent_root_usable_witness:
  "\<exists>st1 m st2. zswap_try_apply term_crypto zswap_default mint None = Ok (st1, m) \<and> zswap_post_block_update term_crypto st1 100 = Ok st2 \<and>
    apply_input st2 spend None = Ok (st2\<lparr>nullifiers := {|1|}\<rparr>)"
proof -
  obtain st1 m st2 where st: "zswap_try_apply term_crypto zswap_default mint None = Ok (st1, m)"
      "zswap_post_block_update term_crypto st1 100 = Ok st2" "zswap_reach term_crypto 0 st1 [mint]"
      "mt_root term_crypto (coin_coms st2) = Some (in_merkle_tree_root spend)" "nullifiers st2 = fempty"
    using mint_history by blast
  then show ?thesis using recent_root_usable [OF st(3) _ _ st(2) zswap_later.now st(4)] by (auto simp: u64_max_def spend_def)
qed

end
