(* ===== verification/Serialize_Scale.thy ===== *)
theory Serialize_Scale
  imports Fab_Serialize
begin

text \<open>
  The \<open>serialize\<close> crate: compact integers (\<open>ScaleBigInt\<close> in \<open>util.rs\<close>), booleans, options, vectors and tagged values
  (\<open>serializable.rs\<close>, \<open>deserializable.rs\<close>).

  A \<open>ScaleBigInt\<close> is the number its 67 little-endian bytes stand for. Parts that are or-ed together occupy
  disjoint bits and are added. Writing to memory does not fail, so a serializer gives the bytes. A deserializer
  takes the recursion depth that is left, as in \<open>Fab_Serialize\<close>; the \<open>codec\<close> contract is interpreted for
  compact integers, vectors and options.
\<close>

section \<open>Compact integers\<close>

definition scale_max_bytes :: nat where "scale_max_bytes = 67"

abbreviation byte_at :: "nat \<Rightarrow> nat \<Rightarrow> nat" where
  "byte_at n i \<equiv> n div 256 ^ i mod 256"

fun occupied :: "nat \<Rightarrow> nat" where
  "occupied n = (if n = 0 then 0 else Suc (occupied (n div 256)))"

declare occupied.simps [simp del]

definition scale_size :: "nat \<Rightarrow> nat" where
  "scale_size n =
     (let occ = occupied n; can_squeeze = byte_at n (occ - 1) < 64 in
      if occ = 0 \<or> occ = 1 \<and> can_squeeze then 1
      else if occ = 1 \<or> occ = 2 \<and> can_squeeze then 2
      else if occ = 2 \<or> occ = 3 \<or> occ = 4 \<and> can_squeeze then 4
      else occ + 1)"

definition scale_serialize :: "nat \<Rightarrow> nat list" where
  "scale_serialize n =
     (let top2bits = (\<lambda>b. b div 64); bot6bits = (\<lambda>b. b mod 64 * 4) in
      if scale_size n = 1 then [bot6bits (byte_at n 0)]
      else if scale_size n = 2 then
        [bot6bits (byte_at n 0) + 1, top2bits (byte_at n 0) + bot6bits (byte_at n 1)]
      else if scale_size n = 4 then
        [bot6bits (byte_at n 0) + 2, top2bits (byte_at n 0) + bot6bits (byte_at n 1),
         top2bits (byte_at n 1) + bot6bits (byte_at n 2), top2bits (byte_at n 2) + bot6bits (byte_at n 3)]
      else ((scale_size n - 5) * 4 + 3) # to_le (scale_size n - 1) n)"

definition scale_deserialize :: "nat reader" where
  "scale_deserialize bs = obind (read_byte bs) (\<lambda>(b0, bs).
     let top6bits = (\<lambda>b. b div 4); bot2bits = (\<lambda>b. b mod 4 * 64) in
     if b0 mod 4 = 0 then Ok (top6bits b0, bs)
     else if b0 mod 4 = 1 then
       obind (read_byte bs) (\<lambda>(b1, bs).
         if b1 = 0 then Err InvalidData
         else Ok (le_val [top6bits b0 + bot2bits b1, top6bits b1], bs))
     else if b0 mod 4 = 2 then
       obind (read_byte bs) (\<lambda>(b1, bs). obind (read_byte bs) (\<lambda>(b2, bs). obind (read_byte bs) (\<lambda>(b3, bs).
         if b2 = 0 \<and> b3 = 0 then Err InvalidData
         else Ok (le_val [top6bits b0 + bot2bits b1, top6bits b1 + bot2bits b2, top6bits b2 + bot2bits b3, top6bits b3], bs))))
     else
       (let n = top6bits b0 + 4 in
        obind (read_exact_to_vec n bs) (\<lambda>(res, bs).
          if res ! (n - 1) = 0 \<or> n = 4 \<and> res ! 3 < 64 then Err InvalidData
          else Ok (le_val res, bs))))"

text \<open>\<open>u32\<close>, \<open>u64\<close> and \<open>u128\<close>, given by their greatest value.\<close>

definition uint_deserialize :: "nat \<Rightarrow> nat reader" where
  "uint_deserialize mx bs = obind (scale_deserialize bs) (\<lambda>(n, bs). if n > mx then Err InvalidData else Ok (n, bs))"

section \<open>Lemmas on compact integers\<close>

lemma occupied_bounds: "0 < n \<Longrightarrow> 256 ^ (occupied n - 1) \<le> n \<and> n < 256 ^ occupied n \<and> 0 < occupied n"
proof (induction n rule: occupied.induct)
  case (1 n)
  show ?case
  proof (cases "n div 256 = 0")
    case True
    then have "occupied n = 1" using 1 by (subst occupied.simps) (simp add: occupied.simps [of 0])
    then show ?thesis using True 1 by simp
  next
    case False
    then have "256 ^ (occupied (n div 256) - 1) \<le> n div 256 \<and> n div 256 < 256 ^ occupied (n div 256) \<and>
      0 < occupied (n div 256)" using 1 by simp
    moreover have "occupied n = Suc (occupied (n div 256))" using "1.prems" by (subst occupied.simps) simp
    moreover obtain k where "occupied (n div 256) = Suc k" using calculation by (metis gr0_conv_Suc)
    ultimately show ?thesis by (simp add: div_less_iff_less_mult less_eq_div_iff_mult_less_eq mult.commute)
  qed
qed

lemma occupied_le_iff: "occupied n \<le> k \<longleftrightarrow> n < 256 ^ k"
proof (cases "n = 0")
  case False
  then have b: "256 ^ (occupied n - 1) \<le> n" "n < 256 ^ occupied n" "0 < occupied n" using occupied_bounds by auto
  show ?thesis
  proof
    assume "occupied n \<le> k"
    then have "(256::nat) ^ occupied n \<le> 256 ^ k" by (intro power_increasing) auto
    then show "n < 256 ^ k" using b by linarith
  next
    assume "n < 256 ^ k"
    then have "(256::nat) ^ (occupied n - 1) < 256 ^ k" using b by linarith
    then show "occupied n \<le> k" using b by simp
  qed
qed (simp add: occupied.simps)

lemma occupied_small:
  "occupied n = 0 \<longleftrightarrow> n = 0" "occupied n \<le> 1 \<longleftrightarrow> n < 256" "occupied n \<le> 2 \<longleftrightarrow> n < 65536"
  "occupied n \<le> 3 \<longleftrightarrow> n < 16777216" "occupied n \<le> 4 \<longleftrightarrow> n < 4294967296"
  using occupied_le_iff [of n 0] occupied_le_iff [of n 1] occupied_le_iff [of n 2] occupied_le_iff [of n 3]
    occupied_le_iff [of n 4] by auto

lemma scale_size_cases:
  "scale_size n = (if n < 64 then 1 else if n < 16384 then 2 else if n < 1073741824 then 4 else occupied n + 1)"
proof -
  consider "occupied n = 0" | "occupied n = 1" | "occupied n = 2" | "occupied n = 3" | "occupied n = 4" | "4 < occupied n"
    by linarith
  then show ?thesis
  proof cases
    case 3
    then have "65536 > n" "n \<ge> 256" using occupied_small [of n] by auto
    then show ?thesis using 3 by (auto simp: scale_size_def Let_def)
  next
    case 4
    then have "16777216 > n" "n \<ge> 65536" using occupied_small [of n] by auto
    then show ?thesis using 4 by (auto simp: scale_size_def Let_def)
  next
    case 5
    then have "4294967296 > n" "n \<ge> 16777216" using occupied_small [of n] by auto
    moreover have "n div 16777216 < 256" "n div 16777216 < 64 \<longleftrightarrow> n < 1073741824"
      using calculation by (auto simp: div_less_iff_less_mult)
    moreover have "byte_at n 3 = n div 16777216 mod 256" by simp
    ultimately show ?thesis using 5 by (simp add: scale_size_def Let_def del: power_numeral_even power_numeral_odd)
  qed (use occupied_small [of n] in \<open>auto simp: scale_size_def Let_def\<close>)
qed

text \<open>The short forms are the little-endian bytes of four times the number plus the marker.\<close>

lemma shift_step: "n div 64 mod 256 = n mod 256 div 64 + n div 256 mod 64 * (4::nat)"
  using mod_mult2_eq [of "n div 64" 4 64] mod_mult2_eq [of n 64 4] div_mult2_eq [of n 64 4] by simp

lemma to_le_short:
  "to_le 1 n = [n mod 256]"
  "to_le 2 n = [n mod 256, n div 256 mod 256]"
  "to_le 4 n = [n mod 256, n div 256 mod 256, n div 256 div 256 mod 256, n div 256 div 256 div 256 mod 256]"
proof -
  show "to_le 1 n = [n mod 256]" by simp
  have "to_le (Suc (Suc 0)) n = [n mod 256, n div 256 mod 256]" by simp
  then show "to_le 2 n = [n mod 256, n div 256 mod 256]" by (simp only: Suc_1 One_nat_def [symmetric])
  have "to_le (Suc (Suc (Suc (Suc 0)))) n =
    [n mod 256, n div 256 mod 256, n div 256 div 256 mod 256, n div 256 div 256 div 256 mod 256]"
    by (simp only: to_le.simps)
  moreover have "(4::nat) = Suc (Suc (Suc (Suc 0)))" by simp
  ultimately show "to_le 4 n =
    [n mod 256, n div 256 mod 256, n div 256 div 256 mod 256, n div 256 div 256 div 256 mod 256]" by (simp only:)
qed

lemma marked:
  assumes "m < (4::nat)"
  shows "(4 * n + m) mod 256 = n mod 256 mod 64 * 4 + m" "(4 * n + m) div 256 = n div 64"
proof -
  have "(4 * n + m) div 4 = n" "(4 * n + m) mod 4 = m" using assms by auto
  moreover have "n mod 256 mod 64 = n mod 64" by (simp add: mod_mod_cancel)
  ultimately show "(4 * n + m) mod 256 = n mod 256 mod 64 * 4 + m" "(4 * n + m) div 256 = n div 64"
    using mod_mult2_eq [of "4 * n + m" 4 64] div_mult2_eq [of "4 * n + m" 4 64] by simp_all
qed

lemma shifts:
  "n div 64 mod 256 = n mod 256 div 64 + n div 256 mod 256 mod 64 * (4::nat)"
  "n div 64 div 256 mod 256 = n div 256 mod 256 div 64 + n div 65536 mod 256 mod 64 * (4::nat)"
  "n div 64 div 256 div 256 mod 256 = n div 65536 mod 256 div 64 + n div 16777216 mod 256 mod 64 * (4::nat)"
proof -
  have c: "a mod 256 mod 64 = a mod 64" for a :: nat by (simp add: mod_mod_cancel)
  have "n div 64 div 256 = n div 256 div 64" "n div 256 div 256 = n div 65536" "n div 65536 div 256 = n div 16777216"
    "n div 64 div 256 div 256 = n div 65536 div 64" by (simp_all flip: div_mult2_eq)
  then show "n div 64 mod 256 = n mod 256 div 64 + n div 256 mod 256 mod 64 * (4::nat)"
    "n div 64 div 256 mod 256 = n div 256 mod 256 div 64 + n div 65536 mod 256 mod 64 * (4::nat)"
    "n div 64 div 256 div 256 mod 256 = n div 65536 mod 256 div 64 + n div 16777216 mod 256 mod 64 * (4::nat)"
    using shift_step [of n] shift_step [of "n div 256"] shift_step [of "n div 65536"] by (simp_all only: c)
qed

lemma byte_at_powers:
  "byte_at n 0 = n mod 256" "byte_at n 1 = n div 256 mod 256"
  "byte_at n 2 = n div 65536 mod 256" "byte_at n 3 = n div 16777216 mod 256"
  by simp_all

lemma scale_serialize_short:
  "n < 64 \<Longrightarrow> scale_serialize n = to_le 1 (4 * n + 0)"
  "64 \<le> n \<Longrightarrow> n < 16384 \<Longrightarrow> scale_serialize n = to_le 2 (4 * n + 1)"
  "16384 \<le> n \<Longrightarrow> n < 1073741824 \<Longrightarrow> scale_serialize n = to_le 4 (4 * n + 2)"
  "1073741824 \<le> n \<Longrightarrow> scale_serialize n = ((occupied n - 4) * 4 + 3) # to_le (occupied n) n"
proof -
  assume n: "1073741824 \<le> n"
  then have "4 \<le> occupied n" using occupied_small(4) [of n] by linarith
  then have "scale_size n = occupied n + 1" "scale_size n \<noteq> 1" "scale_size n \<noteq> 2" "scale_size n \<noteq> 4"
    using n by (simp_all add: scale_size_cases)
  then show "scale_serialize n = ((occupied n - 4) * 4 + 3) # to_le (occupied n) n"
    by (simp add: scale_serialize_def)
next
  assume "n < 64"
  then have "scale_size n = 1" by (simp add: scale_size_cases)
  then have "scale_serialize n = [n mod 256 mod 64 * 4]" by (simp add: scale_serialize_def)
  then show "scale_serialize n = to_le 1 (4 * n + 0)" using marked(1) [of 0 n] by (simp only: to_le_short add_0_right)
next
  assume "64 \<le> n" "n < 16384"
  then have "scale_size n = 2" by (simp add: scale_size_cases)
  then have "scale_serialize n = [n mod 256 mod 64 * 4 + 1, n mod 256 div 64 + n div 256 mod 256 mod 64 * 4]"
    unfolding scale_serialize_def byte_at_powers Let_def by simp
  then show "scale_serialize n = to_le 2 (4 * n + 1)"
    using marked [of 1 n] shifts(1) [of n] by (simp only: to_le_short)
next
  assume "16384 \<le> n" "n < 1073741824"
  then have "scale_size n = 4" by (simp add: scale_size_cases)
  then have "scale_serialize n = [n mod 256 mod 64 * 4 + 2, n mod 256 div 64 + n div 256 mod 256 mod 64 * 4,
      n div 256 mod 256 div 64 + n div 65536 mod 256 mod 64 * 4, n div 65536 mod 256 div 64 + n div 16777216 mod 256 mod 64 * 4]"
    unfolding scale_serialize_def byte_at_powers Let_def by simp
  then show "scale_serialize n = to_le 4 (4 * n + 2)"
    using marked [of 2 n] shifts [of n] by (simp only: to_le_short)
qed

lemma quarter: "\<exists>q m. b = 4 * q + m \<and> m < (4::nat)"
  by (intro exI [of _ "b div 4"] exI [of _ "b mod 4"]) simp

lemma quarters:
  "le_val [b0 div 4 + b1 mod 4 * 64, b1 div 4] = le_val [b0, b1] div 4"
  "le_val [b0 div 4 + b1 mod 4 * 64, b1 div 4 + b2 mod 4 * 64, b2 div 4 + b3 mod 4 * 64, b3 div 4] =
     le_val [b0, b1, b2, b3] div 4"
proof -
  obtain q0 m0 q1 m1 q2 m2 q3 m3 where b: "b0 = 4 * q0 + m0" "m0 < 4" "b1 = 4 * q1 + m1" "m1 < 4"
    "b2 = 4 * q2 + m2" "m2 < 4" "b3 = 4 * q3 + m3" "m3 < 4" using quarter by metis
  have "(4 * q + m) div 4 = q" "(4 * q + m) mod 4 = m" if "m < 4" for q m :: nat using that by auto
  moreover have "(4 * q + m + 256 * r) div 4 = q + 64 * r" if "m < 4" for q m r :: nat
    using that calculation(1) [of m "q + 64 * r"] by (simp add: algebra_simps)
  ultimately show "le_val [b0 div 4 + b1 mod 4 * 64, b1 div 4] = le_val [b0, b1] div 4"
    "le_val [b0 div 4 + b1 mod 4 * 64, b1 div 4 + b2 mod 4 * 64, b2 div 4 + b3 mod 4 * 64, b3 div 4] =
     le_val [b0, b1, b2, b3] div 4" using b(2,4,6,8) by (simp_all add: b(1,3,5,7) del: div_mult_self1 div_mult_self2)
qed

lemma scale_deserialize_short:
  "b0 mod 4 = 0 \<Longrightarrow> scale_deserialize (b0 # rest) = Ok (b0 div 4, rest)"
  "b0 mod 4 = 1 \<Longrightarrow> scale_deserialize (b0 # b1 # rest) =
     (if b1 = 0 then Err InvalidData else Ok (le_val [b0, b1] div 4, rest))"
  "b0 mod 4 = 2 \<Longrightarrow> scale_deserialize (b0 # b1 # b2 # b3 # rest) =
     (if b2 = 0 \<and> b3 = 0 then Err InvalidData else Ok (le_val [b0, b1, b2, b3] div 4, rest))"
  "b0 mod 4 = 3 \<Longrightarrow> scale_deserialize (b0 # bs) =
     obind (read_exact_to_vec (b0 div 4 + 4) bs) (\<lambda>(res, bs).
       if res ! (3 + b0 div 4) = 0 \<or> b0 div 4 = 0 \<and> res ! 3 < 64 then Err InvalidData else Ok (le_val res, bs))"
  unfolding quarters [symmetric] by (simp_all add: scale_deserialize_def Let_def del: le_val.simps(2))

lemma to_le_nth: "i < k \<Longrightarrow> to_le k n ! i = byte_at n i"
proof (induction k arbitrary: n i)
  case (Suc k)
  then show ?case by (cases i) (simp_all add: div_mult2_eq)
qed simp

lemma top_byte: "0 < n \<Longrightarrow> byte_at n (occupied n - 1) = n div 256 ^ (occupied n - 1) \<and> byte_at n (occupied n - 1) \<noteq> 0"
proof -
  assume "0 < n"
  then obtain k where k: "occupied n = Suc k" "256 ^ k \<le> n" "n < 256 * 256 ^ k" using occupied_bounds [of n] by (cases "occupied n") auto
  then have "n div 256 ^ k < 256" "n div 256 ^ k \<noteq> 0" by (auto simp: div_less_iff_less_mult div_eq_0_iff)
  then show ?thesis using k(1) by simp
qed

lemma top_byte_4: "occupied n = 4 \<Longrightarrow> byte_at n 3 < 64 \<longleftrightarrow> n < 1073741824"
proof -
  assume "occupied n = 4"
  moreover from this have "0 < n" using occupied_small(1) [of n] by linarith
  ultimately have "byte_at n 3 = n div 16777216" using top_byte [of n] by simp
  then show ?thesis by (simp add: div_less_iff_less_mult)
qed

lemma low_bits: "b0 + 256 * r = 4 * n + m \<Longrightarrow> m < 4 \<Longrightarrow> b0 mod 4 = (m::nat)"
  using mod_mult_self2 [of b0 4 "64 * r"] mod_mult_self4 [of n 4 m] by simp

lemma scale_roundtrip: "scale_deserialize (scale_serialize n @ rest) = Ok (n, rest)"
proof -
  have val: "le_val (to_le k (4 * n + m)) = 4 * n + m" if "4 * n + m < 256 ^ k" for k m using le_val_to_le that by simp
  consider "n < 64" | "64 \<le> n" "n < 16384" | "16384 \<le> n" "n < 1073741824" | "1073741824 \<le> n" by linarith
  then show ?thesis
  proof cases
    case 1
    then show ?thesis using val [of 0 1] scale_deserialize_short(1) [of "4 * n" rest]
      by (simp add: scale_serialize_short(1) to_le_short(1))
  next
    case 2
    obtain b0 b1 where b: "to_le 2 (4 * n + 1) = [b0, b1]" by (simp only: to_le_short(2))
    then have v: "b0 + 256 * b1 = 4 * n + 1" "b0 < 256" using val [of 1 2] 2 to_le_bytes [of 2 "4 * n + 1"] by (auto simp: bytes_ok_def)
    then have "b0 mod 4 = 1" "b1 \<noteq> 0" using 2 low_bits [OF v(1)] by auto
    then show ?thesis using scale_deserialize_short(2) [of b0 b1 rest] v b 2
      by (simp add: scale_serialize_short(2))
  next
    case 3
    obtain b0 b1 b2 b3 where b: "to_le 4 (4 * n + 2) = [b0, b1, b2, b3]" by (simp only: to_le_short(3))
    then have v: "b0 + 256 * (b1 + 256 * (b2 + 256 * b3)) = 4 * n + 2" "b0 < 256" "b1 < 256"
      using val [of 2 4] 3 to_le_bytes [of 4 "4 * n + 2"] by (auto simp: bytes_ok_def)
    then have "b0 mod 4 = 2" using low_bits [OF v(1)] by simp
    moreover have "\<not> (b2 = 0 \<and> b3 = 0)" using v 3 by auto
    ultimately show ?thesis using scale_deserialize_short(3) [of b0 b1 b2 b3 rest] v(1) b 3
      by (simp add: scale_serialize_short(3))
  next
    case 4
    then have occ: "4 \<le> occupied n" using occupied_small(4) [of n] by linarith
    have "\<not> (occupied n = 4 \<and> to_le (occupied n) n ! 3 < 64)" using top_byte_4 [of n] 4 by (auto simp: to_le_nth)
    moreover have "to_le (occupied n) n ! (occupied n - 1) \<noteq> 0" using top_byte [of n] 4 occ by (simp add: to_le_nth)
    moreover have "le_val (to_le (occupied n) n) = n" using le_val_to_le occupied_bounds [of n] 4 by simp
    ultimately show ?thesis
      using scale_deserialize_short(4) [of "(occupied n - 4) * 4 + 3" "to_le (occupied n) n @ rest"] occ 4
      by (simp add: scale_serialize_short(4) read_exact_to_vec_def)
  qed
qed

lemma to_le_le_val: "bytes_ok xs \<Longrightarrow> to_le (length xs) (le_val xs) = xs"
  by (induction xs) (auto simp: bytes_ok_def)

lemma le_val_bounds: "bytes_ok xs \<Longrightarrow> le_val xs < 256 ^ length xs"
  by (induction xs) (auto simp: bytes_ok_def)

lemma marked_bytes:
  assumes "bytes_ok (b0 # bs)" "b0 mod 4 = m" "n = le_val (b0 # bs) div 4" "k = Suc (length bs)"
  shows "to_le k (4 * n + m) = b0 # bs"
proof -
  have "le_val (b0 # bs) mod 4 = m" using assms mod_mult_self2 [of b0 4 "64 * le_val bs"] by simp
  then have "4 * (le_val (b0 # bs) div 4) + m = le_val (b0 # bs)" using mult_div_mod_eq [of 4 "le_val (b0 # bs)"] by simp
  then show ?thesis using to_le_le_val [OF assms(1)] assms(3,4) by simp
qed

lemma occupied_le_val:
  assumes "bytes_ok (xs @ [b])" "b \<noteq> 0"
  shows "occupied (le_val (xs @ [b])) = Suc (length xs)"
proof -
  have "256 ^ length xs \<le> le_val (xs @ [b])" using assms(2) by (simp add: le_val_append trans_le_add2)
  then have "\<not> occupied (le_val (xs @ [b])) \<le> length xs" by (simp add: occupied_le_iff)
  moreover have "occupied (le_val (xs @ [b])) \<le> Suc (length xs)"
    using le_val_bounds [OF assms(1)] by (simp add: occupied_le_iff)
  ultimately show ?thesis by simp
qed

lemma scale_canonical:
  assumes "bytes_ok bs" "scale_deserialize bs = Ok (n, rest)"
  shows "bs = scale_serialize n @ rest"
proof -
  obtain b0 r where bs: "bs = b0 # r" using assms(2) by (cases bs) (auto simp: scale_deserialize_def)
  have b0: "b0 < 256" "bytes_ok r" using assms(1) bs by (auto simp: bytes_ok_def)
  have "b0 mod 4 < 4" by simp
  then consider "b0 mod 4 = 0" | "b0 mod 4 = 1" | "b0 mod 4 = 2" | "b0 mod 4 = 3" by linarith
  then show ?thesis
  proof cases
    case 1
    then have n: "n = b0 div 4" "rest = r" using assms(2) scale_deserialize_short(1) [of b0 r] bs by auto
    then have "n < 64" using b0 by auto
    then show ?thesis using marked_bytes [of b0 "[]" 0 n 1] 1 n bs b0 by (simp add: scale_serialize_short(1) bytes_ok_def)
  next
    case 2
    then obtain b1 where r: "r = b1 # rest" "b1 \<noteq> 0" "n = le_val [b0, b1] div 4"
      using assms(2) bs scale_deserialize_short(2) [of b0] by (cases r) (auto simp: scale_deserialize_def split: if_splits)
    then have b1: "b1 < 256" "bytes_ok [b0, b1]" using b0 by (auto simp: bytes_ok_def)
    then have "64 \<le> n" "n < 16384" using r b0(1) by auto
    then show ?thesis using marked_bytes [OF b1(2) 2 r(3), of 2] r(1) bs by (simp add: scale_serialize_short(2) del: to_le.simps)
  next
    case 3
    then obtain b1 b2 b3 where r: "r = b1 # b2 # b3 # rest" "\<not> (b2 = 0 \<and> b3 = 0)" "n = le_val [b0, b1, b2, b3] div 4"
      using assms(2) bs scale_deserialize_short(3) [of b0]
      by (cases r; cases "tl r"; cases "tl (tl r)") (auto simp: scale_deserialize_def split: if_splits)
    then have b1: "b1 < 256" "b2 < 256" "b3 < 256" "bytes_ok [b0, b1, b2, b3]" using b0 by (auto simp: bytes_ok_def)
    then have "16384 \<le> n" "n < 1073741824" using r b0(1) by auto
    then show ?thesis using marked_bytes [OF b1(4) 3 r(3), of 4] r(1) bs by (simp add: scale_serialize_short(3) del: to_le.simps)
  next
    case 4
    define k where "k = b0 div 4"
    from 4 assms(2) bs have k: "k + 4 \<le> length r" "n = le_val (take (k + 4) r)" "rest = drop (k + 4) r"
      "r ! (3 + k) \<noteq> 0" "k = 0 \<longrightarrow> \<not> r ! 3 < 64"
      by (auto simp: scale_deserialize_short(4) read_exact_to_vec_def k_def split: if_splits)
    have split: "take (k + 4) r = take (k + 3) r @ [r ! (k + 3)]" using take_Suc_conv_app_nth [of "k + 3" r] k(1) by (simp add: add.commute)
    have "bytes_ok (take (k + 4) r)" using b0(2) by (auto simp: bytes_ok_def dest: in_set_takeD)
    then have occ: "occupied n = k + 4" using occupied_le_val [of "take (k + 3) r" "r ! (k + 3)"] k split by (simp add: add.commute)
    then have "byte_at n 3 \<ge> 64 \<or> 4 < occupied n"
      using k to_le_nth [of 3 "k + 4" n] to_le_le_val [OF \<open>bytes_ok (take (k + 4) r)\<close>] by (cases "k = 0") auto
    then have "1073741824 \<le> n" using top_byte_4 [of n] occupied_small(5) [of n] occ by (cases "k = 0") auto
    moreover have "to_le (k + 4) n = take (k + 4) r"
      using to_le_le_val [OF \<open>bytes_ok (take (k + 4) r)\<close>] k by simp
    moreover have "k * 4 + 3 = b0" using 4 div_mult_mod_eq [of b0 4] by (simp add: k_def)
    ultimately show ?thesis using k bs occ by (simp add: scale_serialize_short(4))
  qed
qed

lemma scale_length: "length (scale_serialize n) = scale_size n"
proof -
  have "4 \<le> occupied n" if "1073741824 \<le> n" using that occupied_small(4) [of n] by linarith
  then show ?thesis
    using scale_serialize_short [of n] by (auto simp: scale_size_cases not_less)
qed

interpretation scale: codec "\<lambda>n. Ok (scale_serialize n)" scale_deserialize scale_size "\<lambda>_. True"
  by unfold_locales (auto simp: scale_roundtrip scale_length)

interpretation uint: codec "\<lambda>n. Ok (scale_serialize n)" "uint_deserialize mx" scale_size "\<lambda>n. n \<le> mx" for mx
  by unfold_locales (auto simp: uint_deserialize_def scale_roundtrip scale_length)

text \<open>Property C18. Compact integers have exactly one encoding: reading succeeds on a sequence of bytes exactly
  when it starts with what writing the number gives, and leaves the bytes after it. The announced size is the
  number of bytes written. Hence every non-canonical encoding is refused.\<close>

theorem scale_one_encoding:
  assumes "bytes_ok bs"
  shows "(scale_deserialize bs = Ok (n, rest) \<longleftrightarrow> bs = scale_serialize n @ rest) \<and>
    length (scale_serialize n) = scale_size n"
  using assms scale_canonical scale_roundtrip scale_length by blast

theorem scale_one_encoding_witness:
  "(scale_deserialize [2, 0, 1, 0, 7] = Ok (16384, [7]) \<longleftrightarrow> [2, 0, 1, 0, 7] = scale_serialize 16384 @ [7]) \<and>
    scale_deserialize [1, 0] = Err InvalidData"
proof -
  have "bytes_ok [2, 0, 1, 0, 7]" by (simp add: bytes_ok_def)
  from scale_one_encoding [OF this, of 16384 "[7]"] show ?thesis by (simp add: scale_deserialize_def)
qed

section \<open>Vectors, options and tagged values\<close>

definition bool_serialize :: "bool \<Rightarrow> nat list" where
  "bool_serialize b = [if b then 1 else 0]"

definition bool_deserialize :: "bool reader" where
  "bool_deserialize bs = obind (read_byte bs) (\<lambda>(v, bs).
     if v = 0 then Ok (False, bs) else if v = 1 then Ok (True, bs) else Err InvalidData)"

definition vec_serialize :: "('a \<Rightarrow> nat list) \<Rightarrow> 'a list \<Rightarrow> nat list" where
  "vec_serialize f xs = scale_serialize (length xs mod 2 ^ 32) @ concat (map f xs)"

definition vec_serialized_size :: "('a \<Rightarrow> nat) \<Rightarrow> 'a list \<Rightarrow> nat" where
  "vec_serialized_size sz xs = foldl (\<lambda>acc x. acc + sz x) (scale_size (length xs)) xs"

lemma vec_serialize_cong [fundef_cong]:
  "xs = ys \<Longrightarrow> (\<And>x. x \<in> set ys \<Longrightarrow> f x = g x) \<Longrightarrow> vec_serialize f xs = vec_serialize g ys"
  by (simp add: vec_serialize_def cong: map_cong)

lemma vec_serialized_size_cong [fundef_cong]:
  assumes "xs = ys" "\<And>x. x \<in> set ys \<Longrightarrow> f x = g x"
  shows "vec_serialized_size f xs = vec_serialized_size g ys"
  using assms unfolding vec_serialized_size_def by (intro foldl_cong) auto

fun vec_deserialize :: "(nat \<Rightarrow> 'a reader) \<Rightarrow> nat \<Rightarrow> 'a list reader" where
  "vec_deserialize dec 0 bs = Err InvalidData"
| "vec_deserialize dec (Suc depth) bs =
     obind (uint_deserialize u32_max bs) (\<lambda>(len, bs). read_many (dec depth) len bs)"

fun option_serialize :: "('a \<Rightarrow> nat list) \<Rightarrow> 'a option \<Rightarrow> nat list" where
  "option_serialize f None = [0]"
| "option_serialize f (Some v) = 1 # f v"

fun option_serialized_size :: "('a \<Rightarrow> nat) \<Rightarrow> 'a option \<Rightarrow> nat" where
  "option_serialized_size sz None = 1"
| "option_serialized_size sz (Some v) = 1 + sz v"

fun option_deserialize :: "(nat \<Rightarrow> 'a reader) \<Rightarrow> nat \<Rightarrow> 'a option reader" where
  "option_deserialize dec 0 bs = Err InvalidData"
| "option_deserialize dec (Suc depth) bs = obind (read_byte bs) (\<lambda>(some, bs).
     if some = 0 then Ok (None, bs)
     else if some = 1 then obind (dec depth bs) (\<lambda>(v, bs). Ok (Some v, bs))
     else Err InvalidData)"

text \<open>\<open>GLOBAL_TAG\<close> and the tagged form at the top level of a stream.\<close>

definition global_tag :: "nat list" where "global_tag = map of_char ''midnight:''"

definition tagged_serialize :: "nat list \<Rightarrow> ('a \<Rightarrow> nat list) \<Rightarrow> 'a \<Rightarrow> nat list" where
  "tagged_serialize tag f v = global_tag @ tag @ [of_char (CHR '':'')] @ f v"

definition tagged_serialized_size :: "nat list \<Rightarrow> ('a \<Rightarrow> nat) \<Rightarrow> 'a \<Rightarrow> nat" where
  "tagged_serialized_size tag sz v = length tag + length global_tag + 1 + sz v"

definition tagged_deserialize_inner :: "nat list \<Rightarrow> 'a reader \<Rightarrow> bool \<Rightarrow> 'a reader" where
  "tagged_deserialize_inner tag dec ensure_consumed bs =
     (let expected = global_tag @ tag @ [of_char (CHR '':'')];
          read_tag = take (length expected) bs in
      if read_tag \<noteq> expected then Err InvalidData
      else obind (dec (drop (length expected) bs)) (\<lambda>(v, bs).
        if \<not> ensure_consumed then Ok (v, bs)
        else if length bs = 0 then Ok (v, bs)
        else Err InvalidData))"

lemma write_all_Ok: "write_all (\<lambda>x. Ok (f x)) xs = Ok (concat (map f xs))"
proof -
  have "collect_results (map (\<lambda>x. Ok (f x)) xs) = (Ok (map f xs) :: (io_error, _) outcome)" using collect_results_Ok [of "map f xs"] by (simp add: comp_def)
  then show ?thesis by (simp add: write_all_def)
qed

lemma foldl_add_sum: "foldl (\<lambda>acc x. acc + g x) a xs = a + sum_list (map g xs :: nat list)"
  by (induction xs arbitrary: a) auto

text \<open>The contract carries over to vectors, options and tagged values.\<close>

lemma vec_codec:
  assumes "codec (\<lambda>x. Ok (f x)) (dec d) sz valid"
  shows "codec (\<lambda>xs. Ok (vec_serialize f xs)) (vec_deserialize dec (Suc d)) (vec_serialized_size sz)
    (\<lambda>xs. list_all valid xs \<and> length xs < 2 ^ 32)"
proof
  fix xs bs rest assume xs: "list_all valid xs \<and> length xs < 2 ^ 32" and "Ok (vec_serialize f xs) = Ok bs"
  then have bs: "bs = scale_serialize (length xs) @ concat (map f xs)" by (simp add: vec_serialize_def)
  have "uint_deserialize u32_max (scale_serialize (length xs) @ r) = Ok (length xs, r)" for r
    using uint.enc_dec [of "length xs" u32_max _ r] xs by (simp add: u32_max_def)
  then show "vec_deserialize dec (Suc d) (bs @ rest) = Ok (xs, rest)"
    using codec.many_enc_dec [OF assms _ write_all_Ok] xs bs by simp
  show "length bs = vec_serialized_size sz xs"
    using codec.many_enc_size [OF assms _ write_all_Ok] xs bs by (simp add: vec_serialized_size_def foldl_add_sum scale_length)
qed

lemma option_codec:
  assumes "codec (\<lambda>x. Ok (f x)) (dec d) sz valid"
  shows "codec (\<lambda>x. Ok (option_serialize f x)) (option_deserialize dec (Suc d)) (option_serialized_size sz) (pred_option valid)"
proof
  fix x bs rest assume "pred_option valid x" and "Ok (option_serialize f x) = Ok bs"
  then show "option_deserialize dec (Suc d) (bs @ rest) = Ok (x, rest)" "length bs = option_serialized_size sz x"
    using codec.enc_dec [OF assms] codec.enc_size [OF assms] by (cases x; auto)+
qed

text \<open>A tagged value is read back; a stream with another tag, or with bytes after the value, is refused.\<close>

lemma tagged_codec:
  assumes "codec (\<lambda>x. Ok (f x)) dec sz valid" and "valid v"
  shows "tagged_deserialize_inner tag dec True (tagged_serialize tag f v) = Ok (v, [])"
    and "tagged_deserialize_inner tag dec False (tagged_serialize tag f v @ rest) = Ok (v, rest)"
    and "rest \<noteq> [] \<Longrightarrow> tagged_deserialize_inner tag dec True (tagged_serialize tag f v @ rest) = Err InvalidData"
    and "length (tagged_serialize tag f v) = tagged_serialized_size tag sz v"
  using codec.enc_dec [OF assms, of "f v"] codec.enc_dec [OF assms, of "f v" "[]"] codec.enc_size [OF assms, of "f v"]
  by (auto simp: tagged_deserialize_inner_def tagged_serialize_def tagged_serialized_size_def Let_def)

lemma tagged_wrong_tag:
  assumes "length tag = length tag'" "tag \<noteq> tag'"
  shows "tagged_deserialize_inner tag dec b (tagged_serialize tag' f v @ rest) = Err InvalidData"
  using assms by (simp add: tagged_deserialize_inner_def tagged_serialize_def Let_def)

end
