(* ===== verification/Delta_Tracking.thy ===== *)
theory Delta_Tracking
  imports Serialize_Scale Cost_Model "HOL-Library.Finite_Map" "HOL-Library.List_Lexorder"
begin

text \<open>
  \<open>storage/src/delta_tracking\<close>: which nodes of the storage graph a contract state is charged for. A reference
  counted set of keys (\<open>RcMap\<close>) is brought from one set of roots to the next: the keys that become reachable are
  added and paid for as writes, the keys that become unreachable are collected and counted as deletes.

  \<^item> The store is a finite map from hashes to nodes; a missing node is the \<open>expect\<close> on loading it, a panic.
    Keys and \<open>refs\<close> are those of \<open>storage-core/src/arena.rs\<close>. Small nodes are inlined in their parents
    (\<open>Direct\<close>); two of them are equal in the code when their hashes are, here when their contents are.
  \<^item> A \<open>BTreeSet\<close> of keys is a list without repetitions. Where the order of a set decides which keys are
    collected before the step limit, in \<open>rc_0\<close>, the list is kept in the order of the trie: that of the
    serialized keys. A stack has its top at the head of the list.
  \<^item> Counts are \<open>u64\<close> in the code and unbounded here: a count is the number of references from charged nodes, which is far
    below \<open>2 ^ 64\<close> for any store that exists.
  \<^item> That a \<open>ChildRef\<close> keeps its node alive in the backend is not modelled.
\<close>

section \<open>Keys and nodes\<close>

datatype arena_key = Ref "nat list" | Direct "nat list" "arena_key list"

record storage_node =
  nd_data :: "nat list"
  nd_children :: "arena_key list"

type_synonym arena = "(nat list, storage_node) fmap"

text \<open>\<open>ArenaKey::refs\<close>: the loop over a stack visits the children of an inlined node from the last to the first.\<close>

fun refs :: "arena_key \<Rightarrow> nat list list" where
  "refs (Ref h) = [h]"
| "refs (Direct _ cs) = concat (map refs (rev cs))"

fun key_serialize :: "arena_key \<Rightarrow> nat list" where
  "key_serialize (Ref h) = 0 # h"
| "key_serialize (Direct d cs) = 1 # vec_serialize (\<lambda>b. [b]) d @ vec_serialize key_serialize cs"

fun key_serialized_size :: "arena_key \<Rightarrow> nat" where
  "key_serialized_size (Ref h) = 1 + 32"
| "key_serialized_size (Direct d cs) =
     1 + vec_serialized_size (\<lambda>_. 1) d + vec_serialized_size key_serialized_size cs"

text \<open>\<open>OnDiskObject::size\<close>.\<close>

definition node_size :: "storage_node \<Rightarrow> nat" where
  "node_size n = length (nd_data n) + 4 + length (nd_children n) * 32"

text \<open>The references of a node, loaded from the store unless it is inlined.\<close>

fun child_refs :: "arena \<Rightarrow> arena_key \<Rightarrow> ('e, arena_key list) outcome" where
  "child_refs A (Ref h) = (case fmlookup A h of
     None \<Rightarrow> Panic
   | Some n \<Rightarrow> Ok (map Ref (concat (map refs (nd_children n)))))"
| "child_refs A (Direct d cs) = Ok (map Ref (refs (Direct d cs)))"

section \<open>Reference counted sets of keys\<close>

record rcmap =
  rc_ge_1 :: "(nat list, nat) fmap"
  rc_0 :: "arena_key list"

definition rcmap_default :: rcmap where
  "rcmap_default = \<lparr>rc_ge_1 = fmempty, rc_0 = []\<rparr>"

definition rc_0_insert :: "arena_key \<Rightarrow> arena_key list \<Rightarrow> arena_key list" where
  "rc_0_insert k ks = (if k \<in> set ks then ks else insort_key key_serialize k ks)"

fun get_rc :: "rcmap \<Rightarrow> arena_key \<Rightarrow> nat option" where
  "get_rc m (Ref h) = (case fmlookup (rc_ge_1 m) h of
     Some n \<Rightarrow> Some n
   | None \<Rightarrow> if Ref h \<in> set (rc_0 m) then Some 0 else None)"
| "get_rc m (Direct d cs) = (if Direct d cs \<in> set (rc_0 m) then Some 0 else None)"

definition rc_contains :: "rcmap \<Rightarrow> arena_key \<Rightarrow> bool" where
  "rc_contains m k \<longleftrightarrow> get_rc m k \<noteq> None"

definition ins_root :: "rcmap \<Rightarrow> arena_key \<Rightarrow> rcmap" where
  "ins_root m k = m\<lparr>rc_0 := rc_0_insert k (rc_0 m)\<rparr>"

definition rm_root :: "rcmap \<Rightarrow> arena_key \<Rightarrow> rcmap" where
  "rm_root m k = m\<lparr>rc_0 := removeAll k (rc_0 m)\<rparr>"

definition modify_rc :: "rcmap \<Rightarrow> nat list \<Rightarrow> nat \<Rightarrow> rcmap" where
  "modify_rc m h updated =
     (let curr = (case fmlookup (rc_ge_1 m) h of Some n \<Rightarrow> n | None \<Rightarrow> 0) in
      if curr = 0 \<and> updated = 0 then m\<lparr>rc_0 := rc_0_insert (Ref h) (rc_0 m)\<rparr>
      else if curr = 0 then m\<lparr>rc_ge_1 := fmupd h updated (rc_ge_1 m), rc_0 := removeAll (Ref h) (rc_0 m)\<rparr>
      else if updated \<noteq> 0 then m\<lparr>rc_ge_1 := fmupd h updated (rc_ge_1 m)\<rparr>
      else m\<lparr>rc_ge_1 := fmdrop h (rc_ge_1 m), rc_0 := rc_0_insert (Ref h) (rc_0 m)\<rparr>)"

definition get_unreachable_keys_not_in :: "rcmap \<Rightarrow> arena_key list \<Rightarrow> arena_key list" where
  "get_unreachable_keys_not_in m roots = filter (\<lambda>k. k \<notin> set roots) (rc_0 m)"

definition remove_unreachable_key :: "rcmap \<Rightarrow> arena_key \<Rightarrow> rcmap option" where
  "remove_unreachable_key m k =
     (if k \<in> set (rc_0 m) then Some (m\<lparr>rc_0 := removeAll k (rc_0 m)\<rparr>) else None)"

section \<open>The keys to write\<close>

fun is_ref :: "arena_key \<Rightarrow> bool" where
  "is_ref (Ref _) = True"
| "is_ref _ = False"

text \<open>What is left to visit: the nodes of the store, and the inlined nodes on the stack.\<close>

definition unvisited :: "arena \<Rightarrow> arena_key list \<Rightarrow> arena_key list \<Rightarrow> nat" where
  "unvisited A queue added =
     card ((Ref ` fset (fmdom A) \<union> {k \<in> set queue. \<not> is_ref k}) - set added)"

lemma child_refs_ref: "child_refs A k = Ok cs \<Longrightarrow> k' \<in> set cs \<Longrightarrow> is_ref k'"
  by (cases k) (auto split: option.splits)

lemma child_refs_loaded: "child_refs A (Ref h) = Ok cs \<Longrightarrow> h |\<in>| fmdom A"
  by (auto split: option.splits intro: fmdomI)

lemma unvisited_decreases:
  assumes "k \<notin> set added" "child_refs A k = Ok cs"
  shows "unvisited A (rev cs @ queue) (k # added) < unvisited A (k # queue) added"
proof -
  let ?new = "(Ref ` fset (fmdom A) \<union> {k' \<in> set (rev cs @ queue). \<not> is_ref k'}) - set (k # added)"
  let ?old = "(Ref ` fset (fmdom A) \<union> {k' \<in> set (k # queue). \<not> is_ref k'}) - set added"
  have "k \<in> ?old" using assms child_refs_loaded by (cases k) auto
  moreover have "?new \<subseteq> ?old - {k}" using child_refs_ref [OF assms(2)] by auto
  ultimately have "?new \<subset> ?old" by blast
  then show ?thesis unfolding unvisited_def by (intro psubset_card_mono) auto
qed

lemma unvisited_skip:
  "unvisited A queue added < unvisited A (k # queue) added \<or> unvisited A queue added = unvisited A (k # queue) added"
  unfolding unvisited_def le_less [symmetric] by (intro card_mono) auto

function get_writes_loop :: "arena \<Rightarrow> rcmap \<Rightarrow> arena_key list \<Rightarrow> arena_key list \<Rightarrow> ('e, arena_key list) outcome" where
  "get_writes_loop A rc [] added = Ok added"
| "get_writes_loop A rc (k # queue) added =
     (if \<not> rc_contains rc k \<and> k \<notin> set added
      then obind (child_refs A k) (\<lambda>cs. get_writes_loop A rc (rev cs @ queue) (k # added))
      else get_writes_loop A rc queue added)"
  by pat_completeness auto
termination
  by (relation "measures [\<lambda>(A, rc, queue, added). unvisited A queue added, \<lambda>(A, rc, queue, added). length queue]")
    (simp_all add: unvisited_decreases unvisited_skip)

definition get_writes :: "arena \<Rightarrow> rcmap \<Rightarrow> arena_key list \<Rightarrow> ('e, arena_key list) outcome" where
  "get_writes A rc roots = get_writes_loop A rc (rev roots) []"

section \<open>Updating the counts\<close>

text \<open>\<open>*map.entry(k).or_default() += 1\<close> on a \<open>BTreeMap\<close>, a list of pairs with distinct keys.\<close>

fun bump :: "('k \<times> nat) list \<Rightarrow> 'k \<Rightarrow> ('k \<times> nat) list" where
  "bump [] k = [(k, 1)]"
| "bump ((k', n) # m) k = (if k = k' then (k', n + 1) # m else (k', n) # bump m k)"

definition count_of :: "('k \<times> nat) list \<Rightarrow> 'k \<Rightarrow> nat" where
  "count_of m k = (case map_of m k of Some n \<Rightarrow> n | None \<Rightarrow> 0)"

definition count_refs :: "arena \<Rightarrow> arena_key list \<Rightarrow> ('e, (arena_key \<times> nat) list) outcome" where
  "count_refs A keys = try_fold (\<lambda>inc k. obind (child_refs A k) (\<lambda>cs. Ok (foldl bump inc cs))) (map (\<lambda>k. (k, 0)) keys) keys"

fun apply_inc :: "rcmap \<Rightarrow> arena_key \<times> nat \<Rightarrow> rcmap" where
  "apply_inc m (Ref h, by) = (let old_rc = (case get_rc m (Ref h) of Some n \<Rightarrow> n | None \<Rightarrow> 0) in modify_rc m h (old_rc + by))"
| "apply_inc m (Direct d cs, by) = ins_root m (Direct d cs)"

definition update_rcmap :: "arena \<Rightarrow> rcmap \<Rightarrow> arena_key list \<Rightarrow> ('e, rcmap) outcome" where
  "update_rcmap A m keys_added = obind (count_refs A keys_added) (\<lambda>inc. Ok (foldl apply_inc m inc))"

section \<open>Collecting the keys that are no longer reachable\<close>

text \<open>The map is not changed while keys are collected, so that the cached counts (\<open>rc_cache\<close>) are those of the
  map. \<open>subs\<close> is \<open>update_queue\<close>.\<close>

definition rc_or_0 :: "rcmap \<Rightarrow> arena_key \<Rightarrow> nat" where
  "rc_or_0 m k = (case get_rc m k of Some n \<Rightarrow> n | None \<Rightarrow> 0)"

definition gc_child :: "rcmap \<Rightarrow> arena_key list \<Rightarrow> (arena_key \<times> nat) list \<times> arena_key list \<Rightarrow> arena_key \<Rightarrow>
    (arena_key \<times> nat) list \<times> arena_key list" where
  "gc_child m roots = (\<lambda>(subs, queue) child.
     let subs = bump subs child in
     (subs, if count_of subs child \<ge> rc_or_0 m child \<and> child \<notin> set roots then child # queue else queue))"

text \<open>The loop makes as many steps as the step limit allows.\<close>

fun gc_loop :: "arena \<Rightarrow> rcmap \<Rightarrow> arena_key list \<Rightarrow> nat \<Rightarrow> arena_key list \<Rightarrow> arena_key list \<Rightarrow> (arena_key \<times> nat) list \<Rightarrow>
    arena_key list \<Rightarrow> ('e, (arena_key \<times> nat) list \<times> arena_key list) outcome" where
  "gc_loop A m roots 0 storage_queue queue subs removed = Ok (subs, removed)"
| "gc_loop A m roots (Suc steps) (k # storage_queue) queue subs removed =
     obind (child_refs A k) (\<lambda>cs. let (subs, queue) = foldl (gc_child m roots) (subs, queue) cs in
       gc_loop A m roots steps storage_queue queue subs (List.insert k removed))"
| "gc_loop A m roots (Suc steps) [] (k # queue) subs removed =
     obind (child_refs A k) (\<lambda>cs. let (subs, queue) = foldl (gc_child m roots) (subs, queue) cs in
       gc_loop A m roots steps [] queue subs (List.insert k removed))"
| "gc_loop A m roots (Suc steps) [] [] subs removed = Ok (subs, removed)"

fun apply_sub :: "rcmap \<Rightarrow> rcmap \<Rightarrow> arena_key \<times> nat \<Rightarrow> rcmap" where
  "apply_sub orig m (Ref h, u) = modify_rc m h (rc_or_0 orig (Ref h) - u)"
| "apply_sub orig m (Direct d cs, u) = rm_root m (Direct d cs)"

definition gc_rcmap :: "arena \<Rightarrow> rcmap \<Rightarrow> arena_key list \<Rightarrow> nat \<Rightarrow> ('e, rcmap \<times> arena_key list) outcome" where
  "gc_rcmap A m roots step_limit =
     obind (gc_loop A m roots step_limit (get_unreachable_keys_not_in m roots) [] [] []) (\<lambda>(subs, removed).
     obind (try_fold (\<lambda>m k. case remove_unreachable_key m k of Some m \<Rightarrow> Ok m | None \<Rightarrow> Panic)
       (foldl (apply_sub m) m subs) removed) (\<lambda>m. Ok (m, removed)))"

section \<open>Costs\<close>

record write_delete_results =
  wd_bytes_written :: nat
  wd_bytes_deleted :: nat
  wd_nodes_written :: nat
  wd_nodes_deleted :: nat
  wd_processing_cost :: running_cost
  wd_charged_keys :: rcmap

fun key_bytes :: "arena \<Rightarrow> arena_key \<Rightarrow> ('e, nat) outcome" where
  "key_bytes A (Ref h) = (case fmlookup A h of None \<Rightarrow> Panic | Some n \<Rightarrow> Ok (node_size n + 32 + 4))"
| "key_bytes A (Direct d cs) = Ok (key_serialized_size (Direct d cs) * 2)"

definition compute_bytes_from_keys :: "arena \<Rightarrow> arena_key list \<Rightarrow> ('e, nat) outcome" where
  "compute_bytes_from_keys A keys = try_fold (\<lambda>acc k. obind (key_bytes A k) (\<lambda>n. Ok ((acc + n) mod 2 ^ 64))) 0 keys"

definition write_delete_results_new :: "arena \<Rightarrow> arena_key list \<Rightarrow> arena_key list \<Rightarrow> rcmap \<Rightarrow>
    (nat \<Rightarrow> nat \<Rightarrow> running_cost) \<Rightarrow> ('e, write_delete_results) outcome" where
  "write_delete_results_new A keys_added keys_removed m cpu_cost =
     (let nodes_written = length keys_added; nodes_deleted = length keys_removed in
      obind (compute_bytes_from_keys A keys_added) (\<lambda>bytes_written.
      obind (compute_bytes_from_keys A keys_removed) (\<lambda>bytes_deleted.
        Ok \<lparr>wd_bytes_written = bytes_written, wd_bytes_deleted = bytes_deleted, wd_nodes_written = nodes_written,
            wd_nodes_deleted = nodes_deleted, wd_processing_cost = cpu_cost nodes_written nodes_deleted,
            wd_charged_keys = m\<rparr>)))"

definition wd_running_cost :: "write_delete_results \<Rightarrow> running_cost" where
  "wd_running_cost r = rc_add
     \<lparr>rc_read_time = 0, rc_compute_time = 0, rc_bytes_written = wd_bytes_written r, rc_bytes_deleted = wd_bytes_deleted r\<rparr>
     (wd_processing_cost r)"

definition initial_write_delete_costs :: "arena \<Rightarrow> arena_key list \<Rightarrow> (nat \<Rightarrow> nat \<Rightarrow> running_cost) \<Rightarrow>
    ('e, write_delete_results) outcome" where
  "initial_write_delete_costs A r0 cpu_cost =
     obind (get_writes A rcmap_default r0) (\<lambda>reachable.
     obind (update_rcmap A rcmap_default reachable) (\<lambda>k0.
       write_delete_results_new A reachable [] k0 cpu_cost))"

definition incremental_write_delete_costs :: "arena \<Rightarrow> rcmap \<Rightarrow> arena_key list \<Rightarrow> (nat \<Rightarrow> nat \<Rightarrow> running_cost) \<Rightarrow>
    (running_cost \<Rightarrow> nat) \<Rightarrow> ('e, write_delete_results) outcome" where
  "incremental_write_delete_costs A k0 r1 cpu_cost gc_limit =
     obind (get_writes A k0 r1) (\<lambda>keys_added.
     let added_cost = cpu_cost (length keys_added) 0 in
     obind (update_rcmap A k0 keys_added) (\<lambda>k.
     obind (gc_rcmap A k r1 (gc_limit added_cost)) (\<lambda>(k1, keys_removed).
       write_delete_results_new A keys_added keys_removed k1 cpu_cost)))"

end
