(* ===== verification/Delta_Laws.thy ===== *)
theory Delta_Laws
  imports Delta_Tracking
begin

text \<open>
  What delta tracking keeps: the charged keys are closed under references and every count is the number of
  references from charged keys (\<open>rc_ok\<close>). Against the graph of references, \<open>get_writes\<close> finds the keys that are
  reachable and not charged yet, \<open>update_rcmap\<close> charges them, and \<open>gc_rcmap\<close> releases keys without references
  outside the new roots: all that are not reachable, unless the step limit stops it.
\<close>

section \<open>The map of counts\<close>

definition rc_wf :: "rcmap \<Rightarrow> bool" where
  "rc_wf m \<longleftrightarrow> distinct (rc_0 m) \<and> (\<forall>h n. fmlookup (rc_ge_1 m) h = Some n \<longrightarrow> 0 < n \<and> Ref h \<notin> set (rc_0 m))"

definition charged :: "rcmap \<Rightarrow> arena_key set" where
  "charged m = {k. get_rc m k \<noteq> None}"

lemma set_rc_0_insert [simp]: "set (rc_0_insert k ks) = insert k (set ks)"
  by (auto simp: rc_0_insert_def set_insort_key)

lemma distinct_rc_0_insert [simp]: "distinct ks \<Longrightarrow> distinct (rc_0_insert k ks)"
proof -
  have "distinct (insort_key key_serialize k ks)" if "distinct ks" "k \<notin> set ks"
    using that by (induction ks) (auto simp: set_insort_key)
  then show "distinct ks \<Longrightarrow> distinct (rc_0_insert k ks)" by (simp add: rc_0_insert_def)
qed

lemma distinct_removeAll' [simp]: "distinct ks \<Longrightarrow> distinct (removeAll k ks)"
  by (simp add: distinct_removeAll)

lemma rc_wf_default [simp]: "rc_wf rcmap_default" "get_rc rcmap_default k = None"
  by (simp add: rc_wf_def rcmap_default_def, cases k) (simp_all add: rcmap_default_def)

lemma modify_rc_wf: "rc_wf m \<Longrightarrow> rc_wf (modify_rc m h n)"
  by (auto simp: rc_wf_def modify_rc_def Let_def split: if_splits option.splits)

lemma rc_wfD: "rc_wf m \<Longrightarrow> fmlookup (rc_ge_1 m) h = Some n \<Longrightarrow> 0 < n \<and> Ref h \<notin> set (rc_0 m)"
  by (simp add: rc_wf_def)

lemma get_modify_rc: "rc_wf m \<Longrightarrow> get_rc (modify_rc m h n) k = (if k = Ref h then Some n else get_rc m k)"
proof (cases k)
  case (Ref h')
  assume "rc_wf m"
  then show ?thesis using rc_wfD [of m h] Ref
    by (cases "h' = h"; cases "fmlookup (rc_ge_1 m) h"; cases "n = 0") (simp_all add: modify_rc_def)
next
  case (Direct d cs)
  then show ?thesis by (cases "fmlookup (rc_ge_1 m) h") (simp_all add: modify_rc_def Let_def)
qed

lemma ins_root_wf: "rc_wf m \<Longrightarrow> rc_wf (ins_root m (Direct d cs))"
  by (auto simp: rc_wf_def ins_root_def)

lemma get_ins_root: "get_rc (ins_root m (Direct d cs)) k = (if k = Direct d cs then Some 0 else get_rc m k)"
  by (cases k) (auto simp: ins_root_def split: option.splits)

lemma rc_0_count: "rc_wf m \<Longrightarrow> k \<in> set (rc_0 m) \<longleftrightarrow> get_rc m k = Some 0"
proof (cases k)
  case (Ref h)
  assume "rc_wf m"
  then show ?thesis using rc_wfD [of m h] Ref by (cases "fmlookup (rc_ge_1 m) h") auto
qed simp

lemma get_rc_drop: "k' \<noteq> k \<Longrightarrow> get_rc (m\<lparr>rc_0 := removeAll k (rc_0 m)\<rparr>) k' = get_rc m k'"
  by (cases k') (simp_all split: option.split)

lemma remove_key:
  assumes "rc_wf m" "get_rc m k = Some 0"
  shows "\<exists>m'. remove_unreachable_key m k = Some m' \<and> rc_wf m' \<and> (\<forall>k'. get_rc m' k' = (if k' = k then None else get_rc m k'))"
proof -
  have "k \<in> set (rc_0 m)" using assms rc_0_count by blast
  moreover have "rc_wf (m\<lparr>rc_0 := removeAll k (rc_0 m)\<rparr>)" using assms(1) by (auto simp: rc_wf_def)
  moreover have "get_rc (m\<lparr>rc_0 := removeAll k (rc_0 m)\<rparr>) k = None"
  proof (cases k)
    case (Ref h)
    then show ?thesis using assms rc_wfD [of m h] by (cases "fmlookup (rc_ge_1 m) h") auto
  qed simp
  ultimately show ?thesis
    by (intro exI [of _ "m\<lparr>rc_0 := removeAll k (rc_0 m)\<rparr>"]) (simp add: remove_unreachable_key_def get_rc_drop)
qed

lemma finite_charged: "finite (charged m)"
proof -
  have "charged m \<subseteq> Ref ` fset (fmdom (rc_ge_1 m)) \<union> set (rc_0 m)"
  proof
    fix k assume "k \<in> charged m"
    then show "k \<in> Ref ` fset (fmdom (rc_ge_1 m)) \<union> set (rc_0 m)" unfolding charged_def
      by (cases k) (auto split: option.splits if_splits intro: fmdomI)
  qed
  then show ?thesis by (rule finite_subset) simp
qed

section \<open>Counts of references\<close>

definition kids :: "arena \<Rightarrow> arena_key \<Rightarrow> arena_key list" where
  "kids A k = (case (child_refs A k :: (unit, arena_key list) outcome) of Ok cs \<Rightarrow> cs | _ \<Rightarrow> [])"

definition loaded :: "arena \<Rightarrow> arena_key \<Rightarrow> bool" where
  "loaded A k \<longleftrightarrow> (\<forall>h. k = Ref h \<longrightarrow> fmlookup A h \<noteq> None)"

lemma child_refs_kids: "loaded A k \<Longrightarrow> child_refs A k = Ok (kids A k)"
  by (cases k) (auto simp: loaded_def kids_def split: option.splits)

lemma kids_ref: "k' \<in> set (kids A k) \<Longrightarrow> is_ref k'"
  by (auto simp: kids_def intro: child_refs_ref [OF sym] split: outcome.splits)

definition indeg :: "arena \<Rightarrow> arena_key set \<Rightarrow> arena_key \<Rightarrow> nat" where
  "indeg A S k = (\<Sum>x \<in> S. count_list (kids A x) k)"

lemma indeg_direct: "\<not> is_ref k \<Longrightarrow> indeg A S k = 0"
  using kids_ref by (fastforce simp: indeg_def count_list_0_iff intro: sum.neutral)

lemma indeg_zero: "finite S \<Longrightarrow> indeg A S k = 0 \<longleftrightarrow> (\<forall>x \<in> S. k \<notin> set (kids A x))"
  by (simp add: indeg_def count_list_0_iff)

lemma indeg_union: "finite S \<Longrightarrow> finite T \<Longrightarrow> S \<inter> T = {} \<Longrightarrow> indeg A (S \<union> T) k = indeg A S k + indeg A T k"
  by (simp add: indeg_def sum.union_disjoint)

lemma count_of_bump: "count_of (bump m c) k = count_of m k + (if k = c then 1 else 0)"
  by (induction m c rule: bump.induct) (auto simp: count_of_def)

lemma bump_keys: "fst ` set (bump m c) = insert c (fst ` set m)"
  by (induction m c rule: bump.induct) (auto simp: image_iff)

lemma bump_distinct: "distinct (map fst m) \<Longrightarrow> distinct (map fst (bump m c))"
  by (induction m c rule: bump.induct) (simp_all add: bump_keys)

lemma bump_all:
  "count_of (foldl bump m cs) k = count_of m k + count_list cs k"
  "fst ` set (foldl bump m cs) = set cs \<union> fst ` set m"
  "distinct (map fst m) \<Longrightarrow> distinct (map fst (foldl bump m cs))"
  by (induction cs arbitrary: m) (auto simp: count_of_bump bump_keys bump_distinct)

lemma count_refs_loop:
  assumes "list_all (loaded A) ks" "distinct ks" "distinct (map fst inc0)"
  shows "\<exists>inc. try_fold (\<lambda>inc k. obind (child_refs A k) (\<lambda>cs. Ok (foldl bump inc cs))) inc0 ks = (Ok inc :: ('e, _) outcome) \<and>
    distinct (map fst inc) \<and> fst ` set inc = fst ` set inc0 \<union> (\<Union>k \<in> set ks. set (kids A k)) \<and>
    (\<forall>k. count_of inc k = count_of inc0 k + indeg A (set ks) k)"
  using assms
proof (induction ks arbitrary: inc0)
  case (Cons x ks)
  let ?inc = "foldl bump inc0 (kids A x)"
  have "distinct (map fst ?inc)" using Cons.prems by (simp add: bump_all)
  then have "\<exists>inc. try_fold (\<lambda>inc k. obind (child_refs A k) (\<lambda>cs. Ok (foldl bump inc cs))) ?inc ks = (Ok inc :: ('e, _) outcome) \<and>
    distinct (map fst inc) \<and> fst ` set inc = fst ` set ?inc \<union> (\<Union>k \<in> set ks. set (kids A k)) \<and>
    (\<forall>k. count_of inc k = count_of ?inc k + indeg A (set ks) k)" using Cons.prems by (intro Cons.IH) auto
  moreover have "indeg A (insert x (set ks)) k = count_list (kids A x) k + indeg A (set ks) k" for k
    using Cons.prems by (simp add: indeg_def)
  ultimately show ?case using Cons.prems by (simp add: child_refs_kids bump_all Un_assoc Un_left_commute add.assoc)
qed (simp add: indeg_def)

lemma count_refs_spec:
  assumes "list_all (loaded A) ks" "distinct ks"
  shows "\<exists>inc. count_refs A ks = (Ok inc :: ('e, _) outcome) \<and> distinct (map fst inc) \<and>
    fst ` set inc = set ks \<union> (\<Union>k \<in> set ks. set (kids A k)) \<and> (\<forall>k. count_of inc k = indeg A (set ks) k)"
proof -
  have "distinct (map fst (map (\<lambda>k. (k, 0::nat)) ks))" "fst ` set (map (\<lambda>k. (k, 0::nat)) ks) = set ks"
    using assms(2) by (simp_all add: comp_def image_image)
  moreover have "count_of (map (\<lambda>k. (k, 0)) ks) k = 0" for k
    by (induction ks) (auto simp: count_of_def)
  ultimately show ?thesis using count_refs_loop [OF assms, of "map (\<lambda>k. (k, 0)) ks"] by (simp add: count_refs_def)
qed

section \<open>The invariant\<close>

definition rc_ok :: "arena \<Rightarrow> rcmap \<Rightarrow> bool" where
  "rc_ok A m \<longleftrightarrow> rc_wf m \<and> (\<forall>k \<in> charged m. loaded A k \<and> set (kids A k) \<subseteq> charged m \<and>
     get_rc m k = Some (indeg A (charged m) k))"

lemma charged_default [simp]: "charged rcmap_default = {}"
  by (simp add: charged_def)

lemma rc_ok_default: "rc_ok A rcmap_default"
  by (simp add: rc_ok_def)

lemma rc_okD:
  assumes "rc_ok A m"
  shows "rc_wf m" "k \<in> charged m \<Longrightarrow> loaded A k" "k \<in> charged m \<Longrightarrow> k' \<in> set (kids A k) \<Longrightarrow> k' \<in> charged m"
    "k \<in> charged m \<Longrightarrow> get_rc m k = Some (indeg A (charged m) k)"
  using assms unfolding rc_ok_def by blast+

lemma rc_or_0_ok:
  assumes "rc_ok A m"
  shows "rc_or_0 m k = (if k \<in> charged m then indeg A (charged m) k else 0)"
proof (cases "k \<in> charged m")
  case True
  then show ?thesis using rc_okD(4) [OF assms True] by (simp add: rc_or_0_def)
next
  case False
  then show ?thesis by (simp add: rc_or_0_def charged_def)
qed

lemma apply_inc_spec:
  assumes "rc_wf m" "is_ref k \<or> by = 0 \<and> get_rc m k = None"
  shows "rc_wf (apply_inc m (k, by)) \<and>
    (\<forall>k'. get_rc (apply_inc m (k, by)) k' = (if k' = k then Some (rc_or_0 m k + by) else get_rc m k'))"
  using assms by (cases k) (simp_all add: modify_rc_wf get_modify_rc ins_root_wf get_ins_root rc_or_0_def)

lemma apply_incs_spec:
  assumes "rc_wf m" "distinct (map fst inc)" "\<forall>k b. (k, b) \<in> set inc \<longrightarrow> is_ref k \<or> b = 0 \<and> get_rc m k = None"
  shows "rc_wf (foldl apply_inc m inc) \<and>
    (\<forall>k. get_rc (foldl apply_inc m inc) k = (if k \<in> fst ` set inc then Some (rc_or_0 m k + count_of inc k) else get_rc m k))"
  using assms
proof (induction inc arbitrary: m)
  case (Cons x inc)
  obtain k by' where x: "x = (k, by')" by (cases x)
  have s: "rc_wf (apply_inc m x)" "\<forall>k'. get_rc (apply_inc m x) k' = (if k' = k then Some (rc_or_0 m k + by') else get_rc m k')"
    using apply_inc_spec [of m k by'] Cons.prems x by auto
  have "k \<notin> fst ` set inc" using Cons.prems x by simp
  then have "k' \<noteq> k" if "(k', b) \<in> set inc" for k' b using that by (auto simp: rev_image_eqI)
  then have "\<forall>k' b. (k', b) \<in> set inc \<longrightarrow> is_ref k' \<or> b = 0 \<and> get_rc (apply_inc m x) k' = None"
    using Cons.prems(3) s(2) by (metis list.set_intros(2))
  then have IH: "rc_wf (foldl apply_inc (apply_inc m x) inc)"
    "get_rc (foldl apply_inc (apply_inc m x) inc) k' =
      (if k' \<in> fst ` set inc then Some (rc_or_0 (apply_inc m x) k' + count_of inc k') else get_rc (apply_inc m x) k')" for k'
    using Cons.IH [OF s(1)] Cons.prems(2) by simp_all
  have "rc_or_0 (apply_inc m x) k' = rc_or_0 m k'" if "k' \<noteq> k" for k' using s(2) that by (simp add: rc_or_0_def)
  moreover have "count_of (x # inc) k' = (if k' = k then by' else count_of inc k')" for k' by (simp add: x count_of_def)
  ultimately show ?case using IH s(2) \<open>k \<notin> fst ` set inc\<close> x by auto
qed simp

text \<open>Adding the keys of \<open>ks\<close>, none of them charged, whose references are charged or among them.\<close>

lemma update_rcmap_spec:
  assumes ok: "rc_ok A m" and ks: "distinct ks" "set ks \<inter> charged m = {}" "list_all (loaded A) ks"
    "\<forall>k \<in> set ks. set (kids A k) \<subseteq> set ks \<union> charged m"
  shows "\<exists>m'. update_rcmap A m ks = (Ok m' :: ('e, _) outcome) \<and> rc_ok A m' \<and> charged m' = charged m \<union> set ks"
proof -
  obtain inc where inc: "count_refs A ks = (Ok inc :: ('e, _) outcome)" "distinct (map fst inc)"
    "fst ` set inc = set ks \<union> (\<Union>k \<in> set ks. set (kids A k))" "\<forall>k. count_of inc k = indeg A (set ks) k"
    using count_refs_spec [OF ks(3,1)] by (elim exE conjE)
  have "is_ref k \<or> by = 0 \<and> get_rc m k = None" if "(k, by) \<in> set inc" for k "by"
  proof (cases "is_ref k")
    case False
    then have "k \<in> set ks" using inc(3) that kids_ref by (force simp: image_iff)
    moreover have "count_of inc k = by" using that inc(2) by (simp add: count_of_def)
    ultimately show ?thesis using False inc(4) ks(2) indeg_direct by (auto simp: charged_def)
  qed simp
  then have "rc_wf (foldl apply_inc m inc)" and get: "get_rc (foldl apply_inc m inc) k =
      (if k \<in> fst ` set inc then Some (rc_or_0 m k + count_of inc k) else get_rc m k)" for k
    using apply_incs_spec [of m inc] rc_okD(1) [OF ok] inc(2) by auto
  have ch: "charged (foldl apply_inc m inc) = charged m \<union> set ks"
    using inc(3) ks(4) unfolding charged_def by (auto simp: get)
  have deg: "indeg A (charged m \<union> set ks) k = indeg A (charged m) k + indeg A (set ks) k" for k
    using ks(2) finite_charged by (intro indeg_union) auto
  have count: "get_rc (foldl apply_inc m inc) k = Some (indeg A (charged m \<union> set ks) k)" if "k \<in> charged m \<union> set ks" for k
  proof (cases "k \<in> charged m")
    case True
    then have "get_rc m k = Some (indeg A (charged m) k)" by (rule rc_okD(4) [OF ok])
    moreover have "indeg A (set ks) k = 0" if "k \<notin> fst ` set inc"
      using that inc(3) by (simp add: indeg_zero)
    ultimately show ?thesis using deg inc(4) by (simp add: get rc_or_0_def)
  next
    case False
    then have "k \<notin> set (kids A x)" if "x \<in> charged m" for x using rc_okD(3) [OF ok that] by blast
    then have "indeg A (charged m) k = 0" using finite_charged by (simp add: indeg_zero)
    moreover have "k \<in> fst ` set inc" "rc_or_0 m k = 0" using False that inc(3) rc_or_0_ok [OF ok, of k] by auto
    ultimately show ?thesis using deg inc(4) by (simp add: get)
  qed
  have "rc_ok A (foldl apply_inc m inc)"
    unfolding rc_ok_def ch using \<open>rc_wf _\<close> count rc_okD(2,3) [OF ok] ks(3,4) by (auto simp: list_all_iff)
  then show ?thesis using ch inc(1) by (simp add: update_rcmap_def)
qed

section \<open>Reachable keys\<close>

definition edges :: "arena \<Rightarrow> (arena_key \<times> arena_key) set" where
  "edges A = {(x, y). y \<in> set (kids A x)}"

definition reach :: "arena \<Rightarrow> arena_key list \<Rightarrow> arena_key set" where
  "reach A roots = (edges A)\<^sup>* `` set roots"

lemma reach_root: "k \<in> set roots \<Longrightarrow> k \<in> reach A roots"
  by (auto simp: reach_def)

lemma reach_step: "k \<in> reach A roots \<Longrightarrow> k' \<in> set (kids A k) \<Longrightarrow> k' \<in> reach A roots"
  by (auto simp: reach_def edges_def intro: rtrancl_into_rtrancl)

lemma reach_closed:
  assumes "set roots \<subseteq> S" "\<And>k k'. k \<in> S \<Longrightarrow> k' \<in> set (kids A k) \<Longrightarrow> k' \<in> S"
  shows "reach A roots \<subseteq> S"
proof -
  have "y \<in> S" if "(x, y) \<in> (edges A)\<^sup>*" "x \<in> S" for x y
    using that by (induction rule: rtrancl_induct) (auto simp: edges_def assms(2))
  then show ?thesis using assms(1) by (auto simp: reach_def)
qed

lemma contains_charged: "rc_contains m k \<longleftrightarrow> k \<in> charged m"
  by (simp add: rc_contains_def charged_def)

lemma get_writes_loop_spec:
  assumes "set queue \<union> set added \<subseteq> reach A roots" "\<forall>k \<in> reach A roots. loaded A k"
    "distinct added" "set added \<inter> charged m = {}"
  shows "\<exists>res. get_writes_loop A m queue added = (Ok res :: ('e, _) outcome) \<and> distinct res \<and> set res \<inter> charged m = {} \<and>
    set added \<subseteq> set res \<and> set res \<subseteq> reach A roots \<and> set queue \<subseteq> set res \<union> charged m \<and>
    (\<forall>k \<in> set res - set added. set (kids A k) \<subseteq> set res \<union> charged m)"
  using assms
proof (induction A m queue added rule: get_writes_loop.induct [where ?'a = 'e])
  case (2 A m k queue added)
  show ?case
  proof (cases "\<not> rc_contains m k \<and> k \<notin> set added")
    case True
    then have k: "k \<notin> charged m" "k \<notin> set added" by (auto simp: contains_charged)
    have "k \<in> reach A roots" using "2.prems"(1) by simp
    then have kids: "child_refs A k = (Ok (kids A k) :: ('e, _) outcome)" "set (kids A k) \<subseteq> reach A roots"
      using "2.prems"(2) child_refs_kids reach_step by blast+
    have "\<exists>res. get_writes_loop A m (rev (kids A k) @ queue) (k # added) = (Ok res :: ('e, _) outcome) \<and> distinct res \<and>
      set res \<inter> charged m = {} \<and> set (k # added) \<subseteq> set res \<and> set res \<subseteq> reach A roots \<and>
      set (rev (kids A k) @ queue) \<subseteq> set res \<union> charged m \<and>
      (\<forall>k' \<in> set res - set (k # added). set (kids A k') \<subseteq> set res \<union> charged m)"
      using "2.prems" k kids(2) \<open>k \<in> reach A roots\<close> by (intro "2.IH"(1) [OF True kids(1)]) auto
    then obtain res where res: "get_writes_loop A m (rev (kids A k) @ queue) (k # added) = (Ok res :: ('e, _) outcome)"
      "distinct res" "set res \<inter> charged m = {}" "set (k # added) \<subseteq> set res" "set res \<subseteq> reach A roots"
      "set (rev (kids A k) @ queue) \<subseteq> set res \<union> charged m"
      "\<forall>k' \<in> set res - set (k # added). set (kids A k') \<subseteq> set res \<union> charged m" by (elim exE conjE)
    have "get_writes_loop A m (k # queue) added = (Ok res :: ('e, _) outcome)" using True kids(1) res(1) by simp
    moreover have "set (kids A k') \<subseteq> set res \<union> charged m" if "k' \<in> set res - set added" for k'
      using that res(6,7) by (cases "k' = k") auto
    ultimately show ?thesis using res by auto
  next
    case False
    then have "k \<in> charged m \<or> k \<in> set added" by (auto simp: contains_charged)
    moreover have "\<exists>res. get_writes_loop A m queue added = (Ok res :: ('e, _) outcome) \<and> distinct res \<and>
      set res \<inter> charged m = {} \<and> set added \<subseteq> set res \<and> set res \<subseteq> reach A roots \<and> set queue \<subseteq> set res \<union> charged m \<and>
      (\<forall>k \<in> set res - set added. set (kids A k) \<subseteq> set res \<union> charged m)"
      using "2.prems" by (intro "2.IH"(2) [OF False]) auto
    ultimately show ?thesis using False by auto
  qed
qed simp

text \<open>The keys to write are the reachable keys that are not charged yet.\<close>

lemma get_writes_spec:
  assumes "rc_ok A m" "\<forall>k \<in> reach A roots. loaded A k"
  shows "\<exists>ks. get_writes A m roots = (Ok ks :: ('e, _) outcome) \<and> distinct ks \<and> set ks = reach A roots - charged m"
proof -
  have "set (rev roots) \<union> set [] \<subseteq> reach A roots" using reach_root by auto
  from get_writes_loop_spec [OF this assms(2), where ?'e = 'e, of m]
  obtain ks where ks: "get_writes_loop A m (rev roots) [] = (Ok ks :: ('e, _) outcome)" "distinct ks" "set ks \<inter> charged m = {}"
    "set ks \<subseteq> reach A roots" "set (rev roots) \<subseteq> set ks \<union> charged m" "\<forall>k \<in> set ks. set (kids A k) \<subseteq> set ks \<union> charged m"
    by auto
  have "reach A roots \<subseteq> set ks \<union> charged m"
    using ks(5,6) rc_okD(3) [OF assms(1)] by (intro reach_closed) auto
  then show ?thesis using ks by (auto simp: get_writes_def)
qed

section \<open>Garbage collection\<close>

text \<open>The references of one collected key: each child is pushed when its last reference goes.\<close>

lemma gc_children:
  assumes "\<forall>x. count_of subs x + count_list cs x \<le> rc_or_0 m x"
  shows "\<exists>new. foldl (gc_child m roots) (subs, queue) cs = (foldl bump subs cs, new @ queue) \<and> distinct new \<and>
    set new = {x \<in> set cs. x \<notin> set roots \<and> count_of subs x + count_list cs x = rc_or_0 m x}"
  using assms
proof (induction cs rule: rev_induct)
  case (snoc c cs)
  have le: "count_of subs x + count_list cs x \<le> rc_or_0 m x" for x using snoc.prems [rule_format, of x] by (simp split: if_splits)
  from snoc.IH le obtain new where new: "foldl (gc_child m roots) (subs, queue) cs = (foldl bump subs cs, new @ queue)"
    "distinct new" "set new = {x \<in> set cs. x \<notin> set roots \<and> count_of subs x + count_list cs x = rc_or_0 m x}" by auto
  have lt: "count_of subs c + count_list cs c < rc_or_0 m c" using snoc.prems [rule_format, of c] by simp
  let ?push = "count_of subs c + count_list cs c + 1 = rc_or_0 m c \<and> c \<notin> set roots"
  have "foldl (gc_child m roots) (subs, queue) (cs @ [c]) =
    (foldl bump subs (cs @ [c]), (if ?push then c # new else new) @ queue)"
    using new(1) lt by (auto simp: gc_child_def count_of_bump bump_all Let_def)
  moreover have "c \<notin> set new" using lt new(3) by auto
  moreover have "set (if ?push then c # new else new) =
    {x \<in> set (cs @ [c]). x \<notin> set roots \<and> count_of subs x + count_list (cs @ [c]) x = rc_or_0 m x}"
    using new(3) lt by (auto split: if_splits)
  ultimately show ?case using new(2) by (intro exI [of _ "if ?push then c # new else new"]) auto
qed simp

definition gc_inv :: "arena \<Rightarrow> rcmap \<Rightarrow> arena_key list \<Rightarrow> arena_key list \<Rightarrow> (arena_key \<times> nat) list \<Rightarrow> arena_key list \<Rightarrow> bool" where
  "gc_inv A m roots waiting subs removed \<longleftrightarrow>
     distinct (waiting @ removed) \<and> set (waiting @ removed) \<subseteq> charged m - set roots \<and>
     distinct (map fst subs) \<and> fst ` set subs = (\<Union>k \<in> set removed. set (kids A k)) \<and>
     (\<forall>k. count_of subs k = indeg A (set removed) k) \<and>
     (\<forall>k \<in> charged m - set roots. indeg A (charged m) k = indeg A (set removed) k \<longleftrightarrow> k \<in> set (waiting @ removed))"

lemma indeg_mono: "finite T \<Longrightarrow> S \<subseteq> T \<Longrightarrow> indeg A S k \<le> indeg A T k"
  unfolding indeg_def by (rule sum_mono2) auto

lemma indeg_insert: "finite S \<Longrightarrow> x \<notin> S \<Longrightarrow> indeg A (insert x S) k = count_list (kids A x) k + indeg A S k"
  by (simp add: indeg_def)

lemma gc_step:
  assumes ok: "rc_ok A m" and inv: "gc_inv A m roots (k # ws) subs removed"
  shows "\<exists>new. foldl (gc_child m roots) (subs, queue) (kids A k) = (foldl bump subs (kids A k), new @ queue) \<and>
    gc_inv A m roots (new @ ws) (foldl bump subs (kids A k)) (k # removed)"
proof -
  note i = inv [unfolded gc_inv_def]
  have k: "k \<in> charged m" "k \<notin> set removed" "k \<notin> set ws" "k \<notin> set roots" using i by auto
  have deg: "indeg A (insert k (set removed)) x = count_list (kids A k) x + indeg A (set removed) x" for x
    using k(2) by (simp add: indeg_insert)
  have sub: "indeg A (insert k (set removed)) x \<le> indeg A (charged m) x" for x
    using i k finite_charged by (intro indeg_mono) auto
  have le: "indeg A (insert k (set removed)) x \<le> rc_or_0 m x" for x
  proof (cases "x \<in> charged m")
    case False
    then have "indeg A (charged m) x = 0" using rc_okD(3) [OF ok] finite_charged by (auto simp: indeg_zero)
    then show ?thesis using sub [of x] by simp
  qed (simp add: rc_or_0_ok [OF ok] sub)
  then have "\<forall>x. count_of subs x + count_list (kids A k) x \<le> rc_or_0 m x" using i deg by (simp add: add.commute)
  from gc_children [OF this, of roots queue] obtain new where
    new: "foldl (gc_child m roots) (subs, queue) (kids A k) = (foldl bump subs (kids A k), new @ queue)" "distinct new"
    "set new = {x \<in> set (kids A k). x \<notin> set roots \<and> count_of subs x + count_list (kids A k) x = rc_or_0 m x}" by blast
  have new_deg: "x \<in> charged m" "indeg A (insert k (set removed)) x = indeg A (charged m) x" if "x \<in> set new" for x
    using that new(3) rc_okD(3) [OF ok k(1)] rc_or_0_ok [OF ok, of x] i deg [of x] by auto
  have fresh: "x \<notin> set (k # ws @ removed)" if x: "x \<in> set new" for x
  proof
    assume "x \<in> set (k # ws @ removed)"
    then have "indeg A (charged m) x = indeg A (set removed) x" using i by auto
    moreover have "0 < count_list (kids A k) x" using x new(3) by (simp add: count_list_0_iff zero_less_iff_neq_zero)
    ultimately show False using deg [of x] sub [of x] by simp
  qed
  have char: "indeg A (charged m) x = indeg A (insert k (set removed)) x \<longleftrightarrow> x \<in> set ((new @ ws) @ k # removed)"
    if x: "x \<in> charged m - set roots" for x
  proof
    assume eq: "indeg A (charged m) x = indeg A (insert k (set removed)) x"
    show "x \<in> set ((new @ ws) @ k # removed)"
    proof (cases "x \<in> set (kids A k)")
      case True
      then show ?thesis using x eq new(3) rc_or_0_ok [OF ok, of x] i deg [of x] by auto
    next
      case False
      then have "indeg A (charged m) x = indeg A (set removed) x" using eq deg [of x] by (simp add: count_list_0_iff)
      then show ?thesis using i x by auto
    qed
  next
    assume "x \<in> set ((new @ ws) @ k # removed)"
    then consider "x \<in> set new" | "x \<in> set (k # ws @ removed)" by auto
    then show "indeg A (charged m) x = indeg A (insert k (set removed)) x"
    proof cases
      case 2
      then have "indeg A (charged m) x = indeg A (set removed) x" using i x by auto
      then show ?thesis using sub [of x] deg [of x] by simp
    qed (simp add: new_deg)
  qed
  have "gc_inv A m roots (new @ ws) (foldl bump subs (kids A k)) (k # removed)"
    unfolding gc_inv_def using i k new(2,3) fresh new_deg(1) char by (auto simp: bump_all deg)
  then show ?thesis using new(1) by blast
qed

lemma gc_inv_swap: "gc_inv A m roots (new @ ws @ vs) subs removed \<Longrightarrow> gc_inv A m roots (ws @ new @ vs) subs removed"
proof -
  have "distinct ((new @ ws @ vs) @ removed) = distinct ((ws @ new @ vs) @ removed)"
    "set ((new @ ws @ vs) @ removed) = set ((ws @ new @ vs) @ removed)" by auto
  then show "gc_inv A m roots (new @ ws @ vs) subs removed \<Longrightarrow> gc_inv A m roots (ws @ new @ vs) subs removed"
    unfolding gc_inv_def by metis
qed

lemma gc_loop_spec:
  assumes "rc_ok A m" "gc_inv A m roots (storage @ queue) subs removed"
  shows "\<exists>subs' removed' ws. gc_loop A m roots steps storage queue subs removed = (Ok (subs', removed') :: ('e, _) outcome) \<and>
    gc_inv A m roots ws subs' removed' \<and> (ws = [] \<or> length removed' = length removed + steps)"
  using assms
proof (induction steps arbitrary: storage queue subs removed)
  case (Suc steps)
  have step: "\<exists>new. foldl (gc_child m roots) (subs, queue') (kids A k) = (foldl bump subs (kids A k), new @ queue') \<and>
      gc_inv A m roots (storage' @ new @ queue') (foldl bump subs (kids A k)) (k # removed) \<and>
      child_refs A k = (Ok (kids A k) :: ('e, _) outcome)"
    if ws: "storage @ queue = k # storage' @ queue'" for k storage' queue'
  proof -
    have inv: "gc_inv A m roots (k # storage' @ queue') subs removed" using Suc.prems(2) ws by simp
    then have "k \<in> charged m" by (simp add: gc_inv_def)
    then have "child_refs A k = (Ok (kids A k) :: ('e, _) outcome)" using rc_okD(2) [OF Suc.prems(1)] child_refs_kids by blast
    then show ?thesis using gc_step [OF Suc.prems(1) inv, of queue'] gc_inv_swap by blast
  qed
  consider k storage' where "storage = k # storage'" | k queue' where "storage = []" "queue = k # queue'" | "storage = []" "queue = []"
    by (cases storage; cases queue) auto
  then show ?case
  proof cases
    case (1 k storage')
    then obtain new where "foldl (gc_child m roots) (subs, queue) (kids A k) = (foldl bump subs (kids A k), new @ queue)"
      "gc_inv A m roots (storage' @ new @ queue) (foldl bump subs (kids A k)) (k # removed)"
      "child_refs A k = (Ok (kids A k) :: ('e, _) outcome)" using step [of k storage' queue] by auto
    moreover have "List.insert k removed = k # removed" using Suc.prems(2) 1 by (auto simp: gc_inv_def)
    ultimately show ?thesis using 1 Suc.IH [OF Suc.prems(1), of storage' "new @ queue" "foldl bump subs (kids A k)" "k # removed"] by simp
  next
    case (2 k queue')
    then obtain new where "foldl (gc_child m roots) (subs, queue') (kids A k) = (foldl bump subs (kids A k), new @ queue')"
      "gc_inv A m roots ([] @ new @ queue') (foldl bump subs (kids A k)) (k # removed)"
      "child_refs A k = (Ok (kids A k) :: ('e, _) outcome)" using step [of k "[]" queue'] by auto
    moreover have "List.insert k removed = k # removed" using Suc.prems(2) 2 by (auto simp: gc_inv_def)
    ultimately show ?thesis using 2 Suc.IH [OF Suc.prems(1), of "[]" "new @ queue'" "foldl bump subs (kids A k)" "k # removed"] by simp
  next
    case 3
    then show ?thesis using Suc.prems(2) by auto
  qed
qed auto

lemma gc_inv_start: "rc_ok A m \<Longrightarrow> gc_inv A m roots (get_unreachable_keys_not_in m roots) [] []"
proof -
  assume ok: "rc_ok A m"
  have "k \<in> set (rc_0 m) \<longleftrightarrow> k \<in> charged m \<and> indeg A (charged m) k = 0" for k
    using rc_0_count [OF rc_okD(1) [OF ok], of k] rc_okD(4) [OF ok, of k] by (auto simp: charged_def)
  moreover have "distinct (rc_0 m)" using rc_okD(1) [OF ok] by (simp add: rc_wf_def)
  ultimately show ?thesis by (auto simp: gc_inv_def get_unreachable_keys_not_in_def indeg_def count_of_def)
qed

lemma apply_subs_spec:
  assumes "rc_wf m" "distinct (map fst subs)" "\<forall>k \<in> fst ` set subs. is_ref k"
  shows "rc_wf (foldl (apply_sub orig) m subs) \<and>
    (\<forall>k. get_rc (foldl (apply_sub orig) m subs) k =
       (if k \<in> fst ` set subs then Some (rc_or_0 orig k - count_of subs k) else get_rc m k))"
  using assms
proof (induction subs arbitrary: m)
  case (Cons x subs)
  obtain h u where x: "x = (Ref h, u)" using Cons.prems(3) by (cases x; cases "fst x") auto
  then have "rc_wf (apply_sub orig m x)" using Cons.prems(1) by (simp add: modify_rc_wf)
  then have IH: "rc_wf (foldl (apply_sub orig) (apply_sub orig m x) subs)"
    "get_rc (foldl (apply_sub orig) (apply_sub orig m x) subs) k =
      (if k \<in> fst ` set subs then Some (rc_or_0 orig k - count_of subs k) else get_rc (apply_sub orig m x) k)" for k
    using Cons.IH [of "apply_sub orig m x"] Cons.prems by simp_all
  have "count_of (x # subs) k = (if k = Ref h then u else count_of subs k)" for k by (simp add: x count_of_def)
  moreover have "Ref h \<notin> fst ` set subs" using Cons.prems x by simp
  moreover have "get_rc (apply_sub orig m x) k = (if k = Ref h then Some (rc_or_0 orig (Ref h) - u) else get_rc m k)" for k
    by (simp add: x get_modify_rc [OF Cons.prems(1)] del: get_rc.simps)
  ultimately show ?case using IH by (simp add: x del: get_rc.simps apply_sub.simps)
qed simp

lemma remove_keys_spec:
  assumes "rc_wf m" "distinct ks" "\<forall>k \<in> set ks. get_rc m k = Some 0"
  shows "\<exists>m'. try_fold (\<lambda>m k. case remove_unreachable_key m k of Some m \<Rightarrow> Ok m | None \<Rightarrow> Panic) m ks = (Ok m' :: ('e, _) outcome) \<and>
    rc_wf m' \<and> (\<forall>k. get_rc m' k = (if k \<in> set ks then None else get_rc m k))"
  using assms
proof (induction ks arbitrary: m)
  case (Cons k ks)
  then obtain m1 where m1: "remove_unreachable_key m k = Some m1" "rc_wf m1" "\<forall>k'. get_rc m1 k' = (if k' = k then None else get_rc m k')"
    using remove_key [of m k] by auto
  then have "\<exists>m'. try_fold (\<lambda>m k. case remove_unreachable_key m k of Some m \<Rightarrow> Ok m | None \<Rightarrow> Panic) m1 ks = (Ok m' :: ('e, _) outcome) \<and>
    rc_wf m' \<and> (\<forall>k. get_rc m' k = (if k \<in> set ks then None else get_rc m1 k))" using Cons.prems by (intro Cons.IH) auto
  then show ?case using m1 by auto
qed simp

lemma gc_release:
  assumes ok: "rc_ok A m" and inv: "gc_inv A m roots ws subs removed"
  shows "\<exists>m'. try_fold (\<lambda>m k. case remove_unreachable_key m k of Some m \<Rightarrow> Ok m | None \<Rightarrow> Panic)
      (foldl (apply_sub m) m subs) removed = (Ok m' :: ('e, _) outcome) \<and>
    rc_ok A m' \<and> charged m' = charged m - set removed"
proof -
  let ?C = "charged m" and ?R = "set removed" and ?m1 = "foldl (apply_sub m) m subs"
  have R: "?R \<subseteq> ?C - set roots" "distinct removed" and keys: "fst ` set subs = (\<Union>k \<in> ?R. set (kids A k))"
    and dist: "distinct (map fst subs)" and cnt: "count_of subs k = indeg A ?R k" for k
    using inv by (auto simp: gc_inv_def)
  have gone: "indeg A ?C k = indeg A ?R k" if "k \<in> ?R" for k using inv R that unfolding gc_inv_def by auto
  have split: "indeg A ?C k = indeg A ?R k + indeg A (?C - ?R) k" for k
    using indeg_union [of ?R "?C - ?R" A k] R finite_charged [of m] by (simp add: Un_absorb1 subset_eq)
  have refs: "\<forall>k \<in> fst ` set subs. is_ref k" "fst ` set subs \<subseteq> ?C"
    using keys kids_ref R rc_okD(3) [OF ok] by auto
  have m1: "rc_wf ?m1" "get_rc ?m1 k = (if k \<in> ?C then Some (indeg A (?C - ?R) k) else None)" for k
  proof -
    have "get_rc ?m1 k = (if k \<in> fst ` set subs then Some (rc_or_0 m k - count_of subs k) else get_rc m k)"
      using apply_subs_spec [OF rc_okD(1) [OF ok] dist refs(1), of m] by blast
    moreover have "indeg A ?R k = 0" if "k \<notin> fst ` set subs" using that keys by (simp add: indeg_zero)
    moreover have "get_rc m k = (if k \<in> ?C then Some (indeg A ?C k) else None)"
      using rc_okD(4) [OF ok, of k] by (auto simp: charged_def)
    ultimately show "get_rc ?m1 k = (if k \<in> ?C then Some (indeg A (?C - ?R) k) else None)"
      using split [of k] cnt [of k] refs(2) rc_or_0_ok [OF ok, of k] by (auto split: if_splits simp del: get_rc.simps)
  qed (use apply_subs_spec [OF rc_okD(1) [OF ok] dist refs(1), of m] in blast)
  have zero: "indeg A (?C - ?R) k = 0" if "k \<in> ?R" for k using gone [OF that] split [of k] by simp
  then have "\<forall>k \<in> ?R. get_rc ?m1 k = Some 0" using m1(2) R by auto
  from remove_keys_spec [OF m1(1) R(2) this, where ?'e = 'e]
  obtain m' where m': "try_fold (\<lambda>m k. case remove_unreachable_key m k of Some m \<Rightarrow> Ok m | None \<Rightarrow> Panic) ?m1 removed = (Ok m' :: ('e, _) outcome)"
    "rc_wf m'" "\<And>k. get_rc m' k = (if k \<in> ?R then None else get_rc ?m1 k)" by blast
  have C: "charged m' = ?C - ?R" using m'(3) m1(2) unfolding charged_def [of m'] by (auto split: if_splits simp del: get_rc.simps)
  moreover have "rc_ok A m'" unfolding rc_ok_def C
  proof (intro conjI ballI)
    fix k assume k: "k \<in> ?C - ?R"
    then show "loaded A k" using rc_okD(2) [OF ok] by blast
    show "set (kids A k) \<subseteq> ?C - ?R"
      using k zero rc_okD(3) [OF ok] finite_charged [of m] by (fastforce simp: indeg_zero)
    show "get_rc m' k = Some (indeg A (?C - ?R) k)" using k m'(3) m1(2) by (simp del: get_rc.simps)
  qed (rule m'(2))
  ultimately show ?thesis using m'(1) by blast
qed

lemma gc_rcmap_spec:
  assumes ok: "rc_ok A m"
  shows "\<exists>m' ws subs removed. gc_rcmap A m roots limit = (Ok (m', removed) :: ('e, _) outcome) \<and> rc_ok A m' \<and>
    charged m' = charged m - set removed \<and> gc_inv A m roots ws subs removed \<and> (ws = [] \<or> length removed = limit)"
proof -
  have "gc_inv A m roots (get_unreachable_keys_not_in m roots @ []) [] []" using gc_inv_start [OF ok] by simp
  from gc_loop_spec [OF ok this, where ?'e = 'e, of limit] obtain subs removed ws
    where l: "gc_loop A m roots limit (get_unreachable_keys_not_in m roots) [] [] [] = (Ok (subs, removed) :: ('e, _) outcome)"
    "gc_inv A m roots ws subs removed" "ws = [] \<or> length removed = limit" by auto
  from gc_release [OF ok l(2), where ?'e = 'e] obtain m' where
    "try_fold (\<lambda>m k. case remove_unreachable_key m k of Some m \<Rightarrow> Ok m | None \<Rightarrow> Panic)
      (foldl (apply_sub m) m subs) removed = (Ok m' :: ('e, _) outcome)"
    "rc_ok A m'" "charged m' = charged m - set removed" by blast
  then show ?thesis using l by (auto simp: gc_rcmap_def)
qed

lemma gc_all:
  assumes ok: "rc_ok A m" and inv: "gc_inv A m roots [] subs removed"
    and rank: "\<And>k k'. k' \<in> set (kids A k) \<Longrightarrow> rank k' < (rank k :: nat)"
    and k: "k \<in> charged m - set removed"
  shows "k \<in> reach A roots"
  using k
proof (induction "(\<Sum>x \<in> charged m. rank x) - rank k" arbitrary: k rule: less_induct)
  case less
  let ?C = "charged m" and ?R = "set removed"
  have fin: "finite ?C" by (rule finite_charged)
  show ?case
  proof (cases "k \<in> set roots")
    case False
    then have "indeg A ?C k \<noteq> indeg A ?R k" using inv less.prems unfolding gc_inv_def by auto
    moreover have "?R \<subseteq> ?C" using inv by (auto simp: gc_inv_def)
    ultimately have "indeg A (?C - ?R) k \<noteq> 0"
      using indeg_union [of ?R "?C - ?R" A k] fin by (auto simp: Un_absorb1)
    then obtain x where x: "x \<in> ?C - ?R" "k \<in> set (kids A x)" using fin by (auto simp: indeg_zero)
    have "rank x \<le> (\<Sum>x \<in> ?C. rank x)" using x fin by (intro member_le_sum) auto
    then have "x \<in> reach A roots" using less.hyps [of x] x rank [OF x(2)] by auto
    then show ?thesis using x(2) by (rule reach_step)
  qed (rule reach_root)
qed

section \<open>The deltas\<close>

lemma compute_bytes_ok:
  assumes "list_all (loaded A) ks"
  shows "\<exists>n. compute_bytes_from_keys A ks = (Ok n :: ('e, nat) outcome)"
proof -
  have step: "\<exists>n. key_bytes A k = (Ok n :: ('e, nat) outcome)" if "loaded A k" for k
    using that by (cases k) (auto simp: loaded_def)
  have "\<exists>n. try_fold (\<lambda>acc k. obind (key_bytes A k) (\<lambda>n. Ok ((acc + n) mod 2 ^ 64))) acc ks = (Ok n :: ('e, nat) outcome)" for acc
    using assms
  proof (induction ks arbitrary: acc)
    case (Cons k ks)
    then obtain n where "key_bytes A k = (Ok n :: ('e, nat) outcome)" using step by auto
    then show ?case using Cons.IH [of "(acc + n) mod 2 ^ 64"] Cons.prems by simp
  qed simp
  then show ?thesis by (simp add: compute_bytes_from_keys_def)
qed

lemma incremental_spec:
  assumes ok: "rc_ok A k0" and load: "\<forall>k \<in> reach A r1. loaded A k"
  shows "\<exists>r ws subs removed m. incremental_write_delete_costs A k0 r1 cpu_cost gc_limit = (Ok r :: ('e, _) outcome) \<and>
    rc_ok A m \<and> charged m = charged k0 \<union> reach A r1 \<and> rc_ok A (wd_charged_keys r) \<and>
    charged (wd_charged_keys r) = charged m - set removed \<and> gc_inv A m r1 ws subs removed \<and>
    wd_nodes_written r = card (reach A r1 - charged k0) \<and> wd_nodes_deleted r = length removed \<and>
    (ws = [] \<or> length removed = gc_limit (cpu_cost (wd_nodes_written r) 0))"
proof -
  obtain ks where ks: "get_writes A k0 r1 = (Ok ks :: ('e, _) outcome)" "distinct ks" "set ks = reach A r1 - charged k0"
    using get_writes_spec [OF ok load, where ?'e = 'e] by blast
  have lks: "list_all (loaded A) ks" using ks load by (simp add: list_all_iff)
  have "\<forall>k \<in> set ks. set (kids A k) \<subseteq> set ks \<union> charged k0" using ks(3) reach_step by blast
  then obtain m where m: "update_rcmap A k0 ks = (Ok m :: ('e, _) outcome)" "rc_ok A m" "charged m = charged k0 \<union> set ks"
    using update_rcmap_spec [OF ok ks(2) _ lks, where ?'e = 'e] ks(3) by blast
  let ?limit = "gc_limit (cpu_cost (length ks) 0)"
  obtain m' ws subs removed where g: "gc_rcmap A m r1 ?limit = (Ok (m', removed) :: ('e, _) outcome)" "rc_ok A m'"
    "charged m' = charged m - set removed" "gc_inv A m r1 ws subs removed" "ws = [] \<or> length removed = ?limit"
    using gc_rcmap_spec [OF m(2), where ?'e = 'e] by blast
  have "set removed \<subseteq> charged m" using g(4) by (auto simp: gc_inv_def)
  then have "list_all (loaded A) removed" using rc_okD(2) [OF m(2)] by (auto simp: list_all_iff)
  then obtain w d where wd: "compute_bytes_from_keys A ks = (Ok w :: ('e, _) outcome)" "compute_bytes_from_keys A removed = (Ok d :: ('e, _) outcome)"
    using compute_bytes_ok [OF lks, where ?'e = 'e] compute_bytes_ok [where ?'e = 'e] by blast
  let ?r = "\<lparr>wd_bytes_written = w, wd_bytes_deleted = d, wd_nodes_written = length ks, wd_nodes_deleted = length removed,
    wd_processing_cost = cpu_cost (length ks) (length removed), wd_charged_keys = m'\<rparr>"
  have "incremental_write_delete_costs A k0 r1 cpu_cost gc_limit = (Ok ?r :: ('e, _) outcome)"
    by (simp add: incremental_write_delete_costs_def write_delete_results_new_def Let_def ks(1) m(1) g(1) wd)
  moreover have "length ks = card (reach A r1 - charged k0)" using ks distinct_card by metis
  moreover have "charged m = charged k0 \<union> reach A r1" using m(3) ks(3) by blast
  ultimately show ?thesis using m(2) g(2-5)
    by (intro exI [of _ ?r] exI [of _ ws] exI [of _ subs] exI [of _ removed] exI [of _ m]) simp
qed

lemma incremental_charges:
  assumes ok: "rc_ok A k0" and load: "\<forall>k \<in> reach A r1. loaded A k"
    and acyclic: "\<forall>k. \<forall>k' \<in> set (kids A k). rank k' < (rank k :: nat)"
  shows "\<exists>r. incremental_write_delete_costs A k0 r1 cpu_cost gc_limit = (Ok r :: ('e, write_delete_results) outcome) \<and>
    rc_ok A (wd_charged_keys r) \<and> reach A r1 \<subseteq> charged (wd_charged_keys r) \<and>
    charged (wd_charged_keys r) \<subseteq> charged k0 \<union> reach A r1 \<and>
    wd_nodes_written r = card (reach A r1 - charged k0) \<and>
    (wd_nodes_deleted r < gc_limit (cpu_cost (wd_nodes_written r) 0) \<longrightarrow>
       charged (wd_charged_keys r) = reach A r1 \<and> wd_nodes_deleted r = card (charged k0 - reach A r1))"
proof -
  from incremental_spec [OF ok load, where ?'e = 'e, of cpu_cost gc_limit]
  obtain r ws subs removed m where r: "incremental_write_delete_costs A k0 r1 cpu_cost gc_limit = (Ok r :: ('e, _) outcome)"
    "rc_ok A m" "charged m = charged k0 \<union> reach A r1" "rc_ok A (wd_charged_keys r)"
    "charged (wd_charged_keys r) = charged m - set removed" "gc_inv A m r1 ws subs removed"
    "wd_nodes_written r = card (reach A r1 - charged k0)" "wd_nodes_deleted r = length removed"
    "ws = [] \<or> length removed = gc_limit (cpu_cost (wd_nodes_written r) 0)" by blast
  have rem: "set removed \<subseteq> charged m - set r1" "distinct removed" using r(6) by (auto simp: gc_inv_def)
  have keep: "reach A r1 \<subseteq> charged (wd_charged_keys r)"
    using reach_root rem r(3,5) rc_okD(3) [OF r(4)] by (intro reach_closed) blast+
  have all: "charged (wd_charged_keys r) = reach A r1 \<and> wd_nodes_deleted r = card (charged k0 - reach A r1)"
    if "wd_nodes_deleted r < gc_limit (cpu_cost (wd_nodes_written r) 0)"
  proof -
    have "gc_inv A m r1 [] subs removed" using that r(6,8,9) by auto
    then have "charged (wd_charged_keys r) \<subseteq> reach A r1" using gc_all [OF r(2), of r1 subs removed rank] acyclic r(5) by blast
    then have eq: "charged (wd_charged_keys r) = reach A r1" using keep by blast
    then have "set removed = charged k0 - reach A r1" using r(3,5) rem by blast
    then show ?thesis using eq r(8) distinct_card [OF rem(2)] by simp
  qed
  show ?thesis using r(1,3,4,5,7) keep all by (intro exI [of _ r]) auto
qed

text \<open>
  Property C17. Bringing the charged keys from one state to the next is exact. When the counts are those of the
  charged keys and the nodes of the new roots are in the store, the computation returns; it charges each newly
  reachable node once as a write; afterwards the counts are again right, everything reachable from the new roots is
  charged, and nothing is charged that was not charged before or is reachable now. If fewer nodes were deleted than
  the step limit allows, the charged keys are exactly the reachable ones, and the deletes are the keys given up.
\<close>

theorem incremental_exact:
  assumes ok: "rc_ok A k0" and load: "\<forall>k \<in> reach A r1. loaded A k"
    and acyclic: "\<forall>k. \<forall>k' \<in> set (kids A k). rank k' < (rank k :: nat)"
  shows "\<exists>r. incremental_write_delete_costs A k0 r1 cpu_cost gc_limit = (Ok r :: ('e, write_delete_results) outcome) \<and>
    rc_ok A (wd_charged_keys r) \<and> reach A r1 \<subseteq> charged (wd_charged_keys r) \<and>
    charged (wd_charged_keys r) \<subseteq> charged k0 \<union> reach A r1 \<and>
    wd_nodes_written r = card (reach A r1 - charged k0) \<and>
    (wd_nodes_deleted r < gc_limit (cpu_cost (wd_nodes_written r) 0) \<longrightarrow>
       charged (wd_charged_keys r) = reach A r1 \<and> wd_nodes_deleted r = card (charged k0 - reach A r1))"
  using assms by (rule incremental_charges)

text \<open>
  A store of two parents that share a leaf, charged for the first parent; the state moves to the second parent.
\<close>

definition example_arena :: arena where
  "example_arena = fmap_of_list [([1], \<lparr>nd_data = [7], nd_children = [Ref [2]]\<rparr>), ([2], \<lparr>nd_data = [8], nd_children = []\<rparr>),
     ([3], \<lparr>nd_data = [9], nd_children = [Ref [2]]\<rparr>)]"

definition example_charged :: rcmap where
  "example_charged = \<lparr>rc_ge_1 = fmap_of_list [([2], 1)], rc_0 = [Ref [1]]\<rparr>"

definition example_rank :: "arena_key \<Rightarrow> nat" where
  "example_rank k = (case k of Ref h \<Rightarrow> if h = [2] then 0 else 1 | Direct _ _ \<Rightarrow> 2)"

lemma example_kids: "kids example_arena (Ref h) = (if h \<in> {[1], [3]} then [Ref [2]] else [])"
  by (simp add: kids_def example_arena_def fmlookup_of_list)

lemma example_charged_set: "charged example_charged = {Ref [1], Ref [2]}"
proof -
  have "k \<in> charged example_charged \<longleftrightarrow> k = Ref [1] \<or> k = Ref [2]" for k
    by (cases k) (auto simp: charged_def example_charged_def fmlookup_of_list split: if_splits)
  then show ?thesis by auto
qed

lemma example_rc_ok: "rc_ok example_arena example_charged"
  unfolding rc_ok_def example_charged_set
  by (simp add: indeg_def example_kids rc_wf_def loaded_def)
    (simp add: example_charged_def example_arena_def fmlookup_of_list split: if_splits)

lemma example_rank_less: "\<forall>k. \<forall>k' \<in> set (kids example_arena k). example_rank k' < example_rank k"
proof (intro allI ballI)
  fix k k' assume k: "k' \<in> set (kids example_arena k)"
  obtain h' where "k' = Ref h'" using kids_ref [OF k] by (cases k') auto
  then show "example_rank k' < example_rank k"
    using k by (cases k) (auto simp: example_rank_def example_kids split: if_splits)
qed

lemma example_reach: "reach example_arena [Ref [3]] = {Ref [3], Ref [2]}"
proof
  show "reach example_arena [Ref [3]] \<subseteq> {Ref [3], Ref [2]}" by (rule reach_closed) (auto simp: example_kids)
  show "{Ref [3], Ref [2]} \<subseteq> reach example_arena [Ref [3]]"
    using reach_root [of "Ref [3]" "[Ref [3]]"] reach_step [of "Ref [3]" example_arena "[Ref [3]]" "Ref [2]"] by (simp add: example_kids)
qed

theorem incremental_exact_witness:
  "\<exists>r. incremental_write_delete_costs example_arena example_charged [Ref [3]] (\<lambda>_ _. rc_zero) (\<lambda>_. 5) =
      (Ok r :: (unit, write_delete_results) outcome) \<and>
    wd_nodes_written r = 1 \<and> {Ref [3], Ref [2]} \<subseteq> charged (wd_charged_keys r) \<and>
    (wd_nodes_deleted r < 5 \<longrightarrow> charged (wd_charged_keys r) = {Ref [3], Ref [2]} \<and> wd_nodes_deleted r = 1)"
proof -
  have d: "{Ref [3], Ref [2]} - {Ref [1], Ref [2]} = {Ref [3]}" "{Ref [1], Ref [2]} - {Ref [3], Ref [2]} = {Ref [1 :: nat]}" by auto
  have "\<forall>k \<in> reach example_arena [Ref [3]]. loaded example_arena k"
    unfolding example_reach by (simp add: loaded_def example_arena_def fmlookup_of_list)
  from incremental_exact [OF example_rc_ok this example_rank_less, where ?'e = unit, of "\<lambda>_ _. rc_zero" "\<lambda>_. 5"]
  show ?thesis unfolding example_reach example_charged_set d by (elim ex_forward) simp
qed

end
