(* ===== verification/Runtime_Context.thy ===== *)
theory Runtime_Context
  imports Onchain_Safety Delta_Laws Zswap_Ledger
begin

text \<open>
  \<open>onchain-runtime/src/context.rs\<close>, \<open>transcript.rs\<close>, \<open>error.rs\<close> and \<open>ChargedState\<close> of \<open>onchain-state/src/state.rs\<close>: running a
  transcript against a contract state. The state, the effects and the call context become a stack of three values;
  the program of the transcript runs on it; the effects are read back and the storage delta is charged.

  \<^item> Hash outputs are numbers as in \<open>Zswap_Offer\<close>; their 32 bytes are written in little-endian order.
    The conversions of token types, addresses and hash outputs are those of \<open>coin-structure\<close> (\<open>coin.rs\<close>, \<open>fab.rs\<close>).
  \<^item> \<open>runtime_env\<close> adds to the machine's parameters the store when a state has been allocated in it (\<open>re_arena\<close>) and the
    key of the state there (\<open>re_child\<close>), the order in which a hash map is iterated, which depends on the hash function
    (\<open>re_entries\<close>), and the byte form of field elements.
  \<^item> Sets and maps that are built entry by entry are built in the order of their keys; the keys are distinct, so
    the order has no influence.
\<close>

section \<open>Token types and addresses\<close>

datatype token_kind = Unshielded hash_output | Shielded hash_output | Dust

datatype public_address = ContractAddr contract_address | UserAddr hash_output

fun token_kind_key :: "token_kind \<Rightarrow> nat \<times> nat" where
  "token_kind_key (Unshielded h) = (0, h)"
| "token_kind_key (Shielded h) = (1, h)"
| "token_kind_key Dust = (2, 0)"

fun public_address_key :: "public_address \<Rightarrow> nat \<times> nat" where
  "public_address_key (ContractAddr h) = (0, h)"
| "public_address_key (UserAddr h) = (1, h)"

lemma token_kind_key_inj: "token_kind_key x = token_kind_key y \<Longrightarrow> x = y"
  by (cases x; cases y) auto

lemma public_address_key_inj: "public_address_key x = public_address_key y \<Longrightarrow> x = y"
  by (cases x; cases y) auto

instantiation token_kind :: linorder
begin

definition less_eq_token_kind :: "token_kind \<Rightarrow> token_kind \<Rightarrow> bool" where
  "less_eq_token_kind x y = (token_kind_key x \<le> token_kind_key y)"
definition less_token_kind :: "token_kind \<Rightarrow> token_kind \<Rightarrow> bool" where
  "less_token_kind x y = (token_kind_key x < token_kind_key y)"

instance
  by standard (auto simp: less_eq_token_kind_def less_token_kind_def intro: token_kind_key_inj)

end

instantiation public_address :: linorder
begin

definition less_eq_public_address :: "public_address \<Rightarrow> public_address \<Rightarrow> bool" where
  "less_eq_public_address x y = (public_address_key x \<le> public_address_key y)"
definition less_public_address :: "public_address \<Rightarrow> public_address \<Rightarrow> bool" where
  "less_public_address x y = (public_address_key x < public_address_key y)"

instance
  by standard (auto simp: less_eq_public_address_def less_public_address_def intro: public_address_key_inj)

end

text \<open>\<open>via_hash_output!\<close>: the types that wrap a hash output.\<close>

definition atom_of_output :: "hash_output \<Rightarrow> value_atom" where
  "atom_of_output h = va_normalize (to_le 32 h)"

definition output_of_atom :: "string \<Rightarrow> value_atom \<Rightarrow> (invalid_builtin_decode, hash_output) outcome" where
  "output_of_atom ty v = (if length v \<le> 32 then Ok (le_val (v @ replicate (32 - length v) 0)) else Err (InvalidBuiltinDecode ty))"

definition output_of_value :: "string \<Rightarrow> fab_value \<Rightarrow> (invalid_builtin_decode, hash_output) outcome" where
  "output_of_value ty = prim_of_value ty (output_of_atom ty)"

definition unit_of_atom :: "value_atom \<Rightarrow> (invalid_builtin_decode, unit) outcome" where
  "unit_of_atom v = (if v = [] then Ok () else Err (InvalidBuiltinDecode ''()''))"

definition unit_of_value :: "fab_value \<Rightarrow> (invalid_builtin_decode, unit) outcome" where
  "unit_of_value v = (if v = [] then Ok () else Err (InvalidBuiltinDecode ''()''))"

fun token_kind_value :: "token_kind \<Rightarrow> fab_value" where
  "token_kind_value (Unshielded tt) = [atom_of_u128 1, atom_of_output tt, []]"
| "token_kind_value (Shielded tt) = [atom_of_u128 0, [], atom_of_output tt]"
| "token_kind_value Dust = [atom_of_u128 2, [], []]"

definition token_kind_of_value :: "fab_value \<Rightarrow> (invalid_builtin_decode, token_kind) outcome" where
  "token_kind_of_value v =
     (if length v = 3 then obind (uint_of_atom u8_max ''u8'' (v ! 0)) (\<lambda>variant.
        if variant = 0 then obind (unit_of_atom (v ! 1)) (\<lambda>_. obind (output_of_atom ''ShieldedTokenType'' (v ! 2)) (\<lambda>h. Ok (Shielded h)))
        else if variant = 1 then obind (unit_of_atom (v ! 2)) (\<lambda>_. obind (output_of_atom ''UnshieldedTokenType'' (v ! 1)) (\<lambda>h. Ok (Unshielded h)))
        else if variant = 2 then obind (unit_of_atom (v ! 1)) (\<lambda>_. obind (unit_of_atom (v ! 2)) (\<lambda>_. Ok Dust))
        else Err (InvalidBuiltinDecode ''TokenType''))
      else Err (InvalidBuiltinDecode ''TokenType''))"

fun public_address_value :: "public_address \<Rightarrow> fab_value" where
  "public_address_value (ContractAddr a) = [atom_of_bool True, atom_of_output a, []]"
| "public_address_value (UserAddr a) = [atom_of_bool False, [], atom_of_output a]"

definition public_address_of_value :: "fab_value \<Rightarrow> (invalid_builtin_decode, public_address) outcome" where
  "public_address_of_value v =
     (if length v = 3 then obind (bool_of_atom (v ! 0)) (\<lambda>is_left.
        if is_left then obind (unit_of_atom (v ! 2)) (\<lambda>_. obind (output_of_atom ''ContractAddress'' (v ! 1)) (\<lambda>h. Ok (ContractAddr h)))
        else obind (unit_of_atom (v ! 1)) (\<lambda>_. obind (output_of_atom ''UserAddress'' (v ! 2)) (\<lambda>h. Ok (UserAddr h))))
      else Err (InvalidBuiltinDecode ''PublicAddress''))"

definition bytes_alignment :: "nat list \<Rightarrow> alignment" where
  "bytes_alignment ns = map (\<lambda>n. Atom (Bytes n)) ns"

definition av_of_output :: "hash_output \<Rightarrow> aligned_value" where
  "av_of_output h = aligned_of 32 (atom_of_output h)"

definition av_of_u128 :: "nat \<Rightarrow> aligned_value" where
  "av_of_u128 n = aligned_of 16 (atom_of_u128 n)"

definition av_of_u32 :: "nat \<Rightarrow> aligned_value" where
  "av_of_u32 n = aligned_of 4 (atom_of_u128 n)"

definition av_of_token_kind :: "token_kind \<Rightarrow> aligned_value" where
  "av_of_token_kind t = \<lparr>av_value = token_kind_value t, av_alignment = bytes_alignment [1, 32, 32]\<rparr>"

definition av_of_public_address :: "public_address \<Rightarrow> aligned_value" where
  "av_of_public_address a = \<lparr>av_value = public_address_value a, av_alignment = bytes_alignment [1, 32, 32]\<rparr>"

section \<open>Effects\<close>

record 'f runtime_env = "'f vm_env" +
  re_arena :: "'f state_value \<Rightarrow> arena"
  re_child :: "'f state_value \<Rightarrow> arena_key"
  re_entries :: "(aligned_value, 'f state_value) fmap \<Rightarrow> (aligned_value \<times> 'f state_value) list"
  re_fr_bytes :: "'f \<Rightarrow> nat list"
  re_fr_from_bytes :: "nat list \<Rightarrow> 'f option"

definition fr_bytes :: nat where "fr_bytes = 32"

definition atom_of_fr :: "'f runtime_env \<Rightarrow> 'f \<Rightarrow> value_atom" where
  "atom_of_fr E x = va_normalize (re_fr_bytes E x)"

definition fr_of_atom :: "'f runtime_env \<Rightarrow> value_atom \<Rightarrow> (invalid_builtin_decode, 'f) outcome" where
  "fr_of_atom E v = (if length v \<le> fr_bytes then ok_or (re_fr_from_bytes E v) (InvalidBuiltinDecode ''Fr'') else Err (InvalidBuiltinDecode ''Fr''))"

type_synonym 'f claimed_call = "nat \<times> contract_address \<times> hash_output \<times> 'f"
type_synonym claimed_spend = "token_kind \<times> public_address"

definition claimed_call_value :: "'f runtime_env \<Rightarrow> 'f claimed_call \<Rightarrow> fab_value" where
  "claimed_call_value E = (\<lambda>(seq, addr, ep, comm). [atom_of_u128 seq, atom_of_output addr, atom_of_output ep, atom_of_fr E comm])"

definition claimed_call_of_value :: "'f runtime_env \<Rightarrow> fab_value \<Rightarrow> (invalid_builtin_decode, 'f claimed_call) outcome" where
  "claimed_call_of_value E v =
     (if length v = 4 then
        obind (uint_of_atom u64_max ''u64'' (v ! 0)) (\<lambda>seq. obind (output_of_atom ''ContractAddress'' (v ! 1)) (\<lambda>addr.
        obind (output_of_atom ''HashOutput'' (v ! 2)) (\<lambda>ep.
        obind (fr_of_atom E (v ! 3)) (\<lambda>comm. Ok (seq, addr, ep, comm)))))
      else Err (InvalidBuiltinDecode ''ClaimedContractCallsValue''))"

definition claimed_spend_value :: "claimed_spend \<Rightarrow> fab_value" where
  "claimed_spend_value = (\<lambda>(tt, addr). value_concat [token_kind_value tt, public_address_value addr])"

definition claimed_spend_of_value :: "fab_value \<Rightarrow> (invalid_builtin_decode, claimed_spend) outcome" where
  "claimed_spend_of_value v =
     (if length v = 6 then
        obind (token_kind_of_value (take 3 v)) (\<lambda>tt. obind (public_address_of_value (drop 3 v)) (\<lambda>addr. Ok (tt, addr)))
      else Err (InvalidBuiltinDecode ''ClaimedUnshieldedSpendsKey''))"

definition av_of_claimed_call :: "'f runtime_env \<Rightarrow> 'f claimed_call \<Rightarrow> aligned_value" where
  "av_of_claimed_call E c = \<lparr>av_value = claimed_call_value E c, av_alignment = bytes_alignment [8, 32, 32] @ [Atom Field]\<rparr>"

definition av_of_claimed_spend :: "claimed_spend \<Rightarrow> aligned_value" where
  "av_of_claimed_spend k = \<lparr>av_value = claimed_spend_value k, av_alignment = bytes_alignment [1, 32, 32, 1, 32, 32]\<rparr>"

record 'f effects =
  claimed_nullifiers :: "hash_output fset"
  claimed_shielded_receives :: "hash_output fset"
  claimed_shielded_spends :: "hash_output fset"
  claimed_contract_calls :: "'f claimed_call fset"
  shielded_mints :: "(hash_output, nat) fmap"
  unshielded_mints :: "(hash_output, nat) fmap"
  unshielded_inputs :: "(token_kind, nat) fmap"
  unshielded_outputs :: "(token_kind, nat) fmap"
  claimed_unshielded_spends :: "(claimed_spend, nat) fmap"

definition effects_default :: "'f effects" where
  "effects_default = \<lparr>claimed_nullifiers = fempty, claimed_shielded_receives = fempty, claimed_shielded_spends = fempty,
     claimed_contract_calls = fempty, shielded_mints = fmempty, unshielded_mints = fmempty, unshielded_inputs = fmempty,
     unshielded_outputs = fmempty, claimed_unshielded_spends = fmempty\<rparr>"

datatype 'f transcript_rejected =
    Execution "'f vm_error"
  | Decode invalid_builtin_decode
  | FinalStackWrongLength
  | WeakStateReturned
  | EffectDecodeError

definition set_value :: "('k :: linorder \<Rightarrow> aligned_value) \<Rightarrow> 'k fset \<Rightarrow> 'f state_value" where
  "set_value key s = Map (fmap_of_list (map (\<lambda>k. (key k, Null)) (sorted_list_of_fset s)))"

definition map_value :: "('k :: linorder \<Rightarrow> aligned_value) \<Rightarrow> ('v \<Rightarrow> aligned_value) \<Rightarrow> ('k, 'v) fmap \<Rightarrow> 'f state_value" where
  "map_value key val m = Map (fmap_of_list (map (\<lambda>(k, v). (key k, Cell (val v))) (sorted_list_of_fmap m)))"

definition vm_of_effects :: "'f :: linorder runtime_env \<Rightarrow> 'f effects \<Rightarrow> 'f vm_value" where
  "vm_of_effects E eff = vnew Weak (Array [
     set_value av_of_output (claimed_nullifiers eff),
     set_value av_of_output (claimed_shielded_receives eff),
     set_value av_of_output (claimed_shielded_spends eff),
     set_value (av_of_claimed_call E) (claimed_contract_calls eff),
     map_value av_of_output av_of_u64 (shielded_mints eff),
     map_value av_of_output av_of_u64 (unshielded_mints eff),
     map_value av_of_token_kind av_of_u128 (unshielded_inputs eff),
     map_value av_of_token_kind av_of_u128 (unshielded_outputs eff),
     map_value av_of_claimed_spend av_of_u128 (claimed_unshielded_spends eff)])"

text \<open>\<open>map_from\<close>: the value of an entry is decoded before its key, an empty cell stands for the default, and a later
  entry with the same decoded key replaces an earlier one.\<close>

definition map_entry :: "(fab_value \<Rightarrow> (invalid_builtin_decode, 'k) outcome) \<Rightarrow> (fab_value \<Rightarrow> (invalid_builtin_decode, 'v) outcome) \<Rightarrow>
    'v \<Rightarrow> aligned_value \<times> 'f state_value \<Rightarrow> ('f transcript_rejected, 'k \<times> 'v) outcome" where
  "map_entry key val dflt = (\<lambda>(k, st).
     obind (case st of
         Cell v \<Rightarrow> omap_err Decode (val (av_value v))
       | Null \<Rightarrow> Ok dflt
       | _ \<Rightarrow> Err EffectDecodeError) (\<lambda>v.
     obind (omap_err Decode (key (av_value k))) (\<lambda>k. Ok (k, v))))"

definition map_from :: "'f runtime_env \<Rightarrow> (fab_value \<Rightarrow> (invalid_builtin_decode, 'k) outcome) \<Rightarrow> (fab_value \<Rightarrow> (invalid_builtin_decode, 'v) outcome) \<Rightarrow>
    'v \<Rightarrow> 'f state_value \<Rightarrow> ('f transcript_rejected, ('k, 'v) fmap) outcome" where
  "map_from E key val dflt st = (case st of
     Map m \<Rightarrow> obind (collect_results (map (map_entry key val dflt) (re_entries E m))) (\<lambda>kvs.
       Ok (foldl (\<lambda>m (k, v). fmupd k v m) fmempty kvs))
   | _ \<Rightarrow> Err EffectDecodeError)"

definition set_from :: "'f runtime_env \<Rightarrow> (fab_value \<Rightarrow> (invalid_builtin_decode, 'k) outcome) \<Rightarrow> 'f state_value \<Rightarrow>
    ('f transcript_rejected, 'k fset) outcome" where
  "set_from E key st = obind (map_from E key unit_of_value () st) (\<lambda>m. Ok (fmdom m))"

definition effects_of_vm :: "'f runtime_env \<Rightarrow> 'f vm_value \<Rightarrow> ('f transcript_rejected, 'f effects) outcome" where
  "effects_of_vm E val = (case vv_value val of
     Array [a0, a1, a2, a3, a4, a5, a6, a7, a8] \<Rightarrow>
       obind (set_from E (output_of_value ''Nullifier'') a0) (\<lambda>n.
       obind (set_from E (output_of_value ''Commitment'') a1) (\<lambda>r.
       obind (set_from E (output_of_value ''Commitment'') a2) (\<lambda>s.
       obind (set_from E (claimed_call_of_value E) a3) (\<lambda>c.
       obind (map_from E (output_of_value ''HashOutput'') u64_of_value 0 a4) (\<lambda>sm.
       obind (map_from E (output_of_value ''HashOutput'') u64_of_value 0 a5) (\<lambda>um.
       obind (map_from E token_kind_of_value (prim_of_value ''u128'' u128_of_atom) 0 a6) (\<lambda>ui.
       obind (map_from E token_kind_of_value (prim_of_value ''u128'' u128_of_atom) 0 a7) (\<lambda>uo.
       obind (map_from E claimed_spend_of_value (prim_of_value ''u128'' u128_of_atom) 0 a8) (\<lambda>us.
         Ok \<lparr>claimed_nullifiers = n, claimed_shielded_receives = r, claimed_shielded_spends = s, claimed_contract_calls = c,
            shielded_mints = sm, unshielded_mints = um, unshielded_inputs = ui, unshielded_outputs = uo,
            claimed_unshielded_spends = us\<rparr>)))))))))
   | _ \<Rightarrow> Err EffectDecodeError)"

section \<open>Charged states\<close>

record 'f charged_state =
  cs_state :: "'f state_value"
  cs_charged_keys :: rcmap

definition charged_state_new :: "'f runtime_env \<Rightarrow> 'f state_value \<Rightarrow> ('e, 'f charged_state) outcome" where
  "charged_state_new E st =
     obind (initial_write_delete_costs (re_arena E st) [re_child E st] (\<lambda>_ _. rc_zero)) (\<lambda>results.
       Ok \<lparr>cs_state = st, cs_charged_keys = wd_charged_keys results\<rparr>)"

definition charged_state_update :: "'f runtime_env \<Rightarrow> 'f charged_state \<Rightarrow> 'f state_value \<Rightarrow> (nat \<Rightarrow> nat \<Rightarrow> running_cost) \<Rightarrow>
    (running_cost \<Rightarrow> nat) \<Rightarrow> ('e, 'f charged_state \<times> running_cost) outcome" where
  "charged_state_update E cs new_state cpu_cost gc_limit =
     obind (incremental_write_delete_costs (re_arena E new_state) (cs_charged_keys cs) [re_child E new_state] cpu_cost gc_limit) (\<lambda>results.
       Ok (\<lparr>cs_state = new_state, cs_charged_keys = wd_charged_keys results\<rparr>, wd_running_cost results))"

section \<open>Contexts\<close>

record block_context =
  bc_tblock :: timestamp
  bc_tblock_err :: nat
  bc_parent_block_hash :: hash_output
  bc_last_block_time :: timestamp

record call_context =
  cc_own_address :: contract_address
  cc_tblock :: timestamp
  cc_tblock_err :: nat
  cc_parent_block_hash :: hash_output
  cc_caller :: "public_address option"
  cc_balance :: "(token_kind, nat) fmap"
  cc_com_indices :: "(hash_output, nat) fmap"
  cc_last_block_time :: timestamp

definition call_context_default :: call_context where
  "call_context_default = \<lparr>cc_own_address = 0, cc_tblock = 0, cc_tblock_err = 0, cc_parent_block_hash = 0, cc_caller = None,
     cc_balance = fmempty, cc_com_indices = fmempty, cc_last_block_time = 0\<rparr>"

record 'f query_context =
  qc_state :: "'f charged_state"
  qc_effects :: "'f effects"
  qc_address :: contract_address
  qc_call_context :: call_context

definition vm_of_context :: "'f query_context \<Rightarrow> 'f vm_value" where
  "vm_of_context q = (let c = qc_call_context q in vnew Weak (Array [
     Cell (av_of_output (qc_address q)),
     map_value av_of_output av_of_u64 (cc_com_indices c),
     Cell (av_of_u64 (cc_tblock c)),
     Cell (av_of_u32 (cc_tblock_err c)),
     Cell (av_of_output (cc_parent_block_hash c)),
     map_value av_of_token_kind av_of_u128 (cc_balance c),
     (case cc_caller c of Some x \<Rightarrow> Cell (av_of_public_address x) | None \<Rightarrow> Null),
     Cell (av_of_u64 (cc_last_block_time c))]))"

definition query_context_new :: "'f charged_state \<Rightarrow> contract_address \<Rightarrow> 'f query_context" where
  "query_context_new st addr = \<lparr>qc_state = st, qc_effects = effects_default, qc_address = addr, qc_call_context = call_context_default\<rparr>"

definition to_vm_stack :: "'f :: linorder runtime_env \<Rightarrow> 'f query_context \<Rightarrow> 'f vm_value list" where
  "to_vm_stack E q = [vm_of_context q, vm_of_effects E (qc_effects q), vnew Strong (cs_state (qc_state q))]"

section \<open>Queries\<close>

record ('f, 'ev) query_results =
  qr_context :: "'f query_context"
  qr_events :: "'ev list"
  qr_gas_cost :: running_cost

text \<open>The derived order of \<open>RunningCost\<close>: the fields in the order of their declaration.\<close>

definition rc_greater :: "running_cost \<Rightarrow> running_cost \<Rightarrow> bool" where
  "rc_greater a b = ((rc_read_time a, rc_compute_time a, rc_bytes_written a, rc_bytes_deleted a) >
     (rc_read_time b, rc_compute_time b, rc_bytes_written b, rc_bytes_deleted b))"

definition delta_cost :: "cost_model \<Rightarrow> nat \<Rightarrow> nat \<Rightarrow> running_cost" where
  "delta_cost cm writes deletes = rc_compute (foldl cd_add (cm_gc_rcmap_constant cm)
     [cd_mul (cm_gc_rcmap_coeff_keys_removed_size cm) deletes,
      cm_update_rcmap_constant cm, cd_mul (cm_update_rcmap_coeff_keys_added_size cm) writes,
      cm_get_writes_constant cm, cd_mul (cm_get_writes_coeff_keys_added_size cm) writes])"

definition delta_gc_limit :: "cost_model \<Rightarrow> running_cost \<Rightarrow> nat" where
  "delta_gc_limit cm budget =
     fp_into_atomic_units (fp_from_u64_div (rc_compute_time budget) (cm_gc_rcmap_coeff_keys_removed_size cm)) 1 mod 2 ^ 64"

definition query :: "'f :: linorder runtime_env \<Rightarrow> ('f, 'r, 'ev) result_mode \<Rightarrow> 'f query_context \<Rightarrow> ('f, 'r) op list \<Rightarrow> running_cost option \<Rightarrow>
    ('f transcript_rejected, ('f, 'ev) query_results) outcome" where
  "query E mode self ops gas_limit =
     obind (omap_err Execution (run_program (vm_env.truncate E\<lparr>ve_limit := gas_limit\<rparr>) mode (to_vm_stack E self) ops)) (\<lambda>res.
     case vr_stack res of
       [_, eff, st] \<Rightarrow>
         if vv_strength st = Weak then Err WeakStateReturned
         else obind (effects_of_vm E eff) (\<lambda>eff.
           obind (charged_state_update E (qc_state self) (vv_value st) (delta_cost (ve_cost E)) (delta_gc_limit (ve_cost E))) (\<lambda>(cs, state_cost).
             let gas_cost = rc_add (vr_gas_cost res) state_cost in
             if (case gas_limit of Some limit \<Rightarrow> rc_greater gas_cost limit | None \<Rightarrow> False) then Err (Execution OutOfGas)
             else Ok \<lparr>qr_context = self\<lparr>qc_effects := eff, qc_state := cs\<rparr>, qr_events = vr_events res, qr_gas_cost = gas_cost\<rparr>))
     | _ \<Rightarrow> Err FinalStackWrongLength)"

record 'f transcript =
  tr_gas :: running_cost
  tr_effects :: "'f effects"
  tr_program :: "('f, aligned_value) op list"
  tr_version :: "(nat \<times> nat) option"

definition run_transcript :: "'f :: linorder runtime_env \<Rightarrow> 'f query_context \<Rightarrow> 'f transcript \<Rightarrow>
    ('f transcript_rejected, ('f, 'f state_value) query_results) outcome" where
  "run_transcript E self t = query E result_mode_verify self (tr_program t) (Some (tr_gas t))"

end
