(* ===== verification/Runtime_Laws.thy ===== *)
theory Runtime_Laws
  imports Onchain_Gas Runtime_Context
begin

text \<open>
  Running transcripts: effects survive the way through the stack of the machine, queries on well-formed states do
  not panic and keep the charged keys right, and what the gas limit of a query bounds.
\<close>

section \<open>Conversions\<close>

lemma output_of_atom_of_output: "h < 2 ^ 256 \<Longrightarrow> output_of_atom ty (atom_of_output h) = Ok h"
proof -
  assume "h < 2 ^ 256"
  then have "le_val (to_le 32 h) = h" by (intro le_val_to_le) simp
  moreover have "length (va_normalize (to_le 32 h)) \<le> 32" using va_normalize_length [of "to_le 32 h"] by simp
  ultimately show ?thesis by (simp add: output_of_atom_def atom_of_output_def)
qed

lemma uint_of_atom_of_u128: "n \<le> mx \<Longrightarrow> mx \<le> u128_max \<Longrightarrow> uint_of_atom mx ty (atom_of_u128 n) = Ok n"
  by (simp add: uint_of_atom_def u128_of_atom_of_u128)

lemma u8_le_u128: "u8_max \<le> u128_max" "u64_max \<le> u128_max"
  by (simp_all add: u8_max_def u64_max_def u128_max_def)

fun token_kind_ok :: "token_kind \<Rightarrow> bool" where
  "token_kind_ok (Unshielded h) = (h < 2 ^ 256)"
| "token_kind_ok (Shielded h) = (h < 2 ^ 256)"
| "token_kind_ok Dust = True"

fun public_address_ok :: "public_address \<Rightarrow> bool" where
  "public_address_ok (ContractAddr h) = (h < 2 ^ 256)"
| "public_address_ok (UserAddr h) = (h < 2 ^ 256)"

lemma token_kind_roundtrip: "token_kind_ok t \<Longrightarrow> token_kind_of_value (token_kind_value t) = Ok t"
  using uint_of_atom_of_u128 [of 0 u8_max "''u8''"] uint_of_atom_of_u128 [of 1 u8_max "''u8''"] uint_of_atom_of_u128 [of 2 u8_max "''u8''"]
  by (cases t) (simp_all add: token_kind_of_value_def unit_of_atom_def output_of_atom_of_output u8_max_def u128_max_def)

lemma public_address_roundtrip: "public_address_ok a \<Longrightarrow> public_address_of_value (public_address_value a) = Ok a"
  by (cases a) (simp_all add: public_address_of_value_def unit_of_atom_def output_of_atom_of_output bool_roundtrip)

lemma claimed_spend_roundtrip:
  "token_kind_ok t \<Longrightarrow> public_address_ok a \<Longrightarrow> claimed_spend_of_value (claimed_spend_value (t, a)) = Ok (t, a)"
proof -
  have "length (token_kind_value t) = 3" "length (public_address_value a) = 3" by (cases t; simp) (cases a; simp)
  then show "token_kind_ok t \<Longrightarrow> public_address_ok a \<Longrightarrow> claimed_spend_of_value (claimed_spend_value (t, a)) = Ok (t, a)"
    by (simp add: claimed_spend_of_value_def claimed_spend_value_def value_concat_def token_kind_roundtrip public_address_roundtrip)
qed

section \<open>Effects\<close>

text \<open>What the code relies on: an iteration of a hash map yields its entries, and a field element is read back from
  its bytes without trailing zeros.\<close>

definition runtime_ok :: "'f runtime_env \<Rightarrow> bool" where
  "runtime_ok E \<longleftrightarrow> (\<forall>m. set (re_entries E m) = {(k, v). fmlookup m k = Some v})"

definition fr_ok :: "'f runtime_env \<Rightarrow> 'f \<Rightarrow> bool" where
  "fr_ok E x \<longleftrightarrow> length (re_fr_bytes E x) \<le> fr_bytes \<and> re_fr_from_bytes E (va_normalize (re_fr_bytes E x)) = Some x"

definition effects_ok :: "'f runtime_env \<Rightarrow> 'f effects \<Rightarrow> bool" where
  "effects_ok E e \<longleftrightarrow>
     (\<forall>h \<in> fset (claimed_nullifiers e) \<union> fset (claimed_shielded_receives e) \<union> fset (claimed_shielded_spends e). h < 2 ^ 256) \<and>
     (\<forall>(seq, addr, ep, x) \<in> fset (claimed_contract_calls e). seq \<le> u64_max \<and> addr < 2 ^ 256 \<and> ep < 2 ^ 256 \<and> fr_ok E x) \<and>
     fmpred (\<lambda>h n. h < 2 ^ 256 \<and> n \<le> u64_max) (shielded_mints e) \<and> fmpred (\<lambda>h n. h < 2 ^ 256 \<and> n \<le> u64_max) (unshielded_mints e) \<and>
     fmpred (\<lambda>t n. token_kind_ok t \<and> n \<le> u128_max) (unshielded_inputs e) \<and>
     fmpred (\<lambda>t n. token_kind_ok t \<and> n \<le> u128_max) (unshielded_outputs e) \<and>
     fmpred (\<lambda>(t, a) n. token_kind_ok t \<and> public_address_ok a \<and> n \<le> u128_max) (claimed_unshielded_spends e)"

lemma claimed_call_roundtrip:
  "fr_ok E x \<Longrightarrow> seq \<le> u64_max \<Longrightarrow> addr < 2 ^ 256 \<Longrightarrow> ep < 2 ^ 256 \<Longrightarrow>
    claimed_call_of_value E (claimed_call_value E (seq, addr, ep, x)) = Ok (seq, addr, ep, x)"
proof -
  assume E: "fr_ok E x" and b: "seq \<le> u64_max" "addr < 2 ^ 256" "ep < 2 ^ 256"
  have "length (atom_of_fr E x) \<le> fr_bytes" "re_fr_from_bytes E (atom_of_fr E x) = Some x"
    using E va_normalize_length [of "re_fr_bytes E x"] unfolding fr_ok_def atom_of_fr_def by (blast intro: order_trans)+
  then show ?thesis
    using b uint_of_atom_of_u128 [of seq u64_max] u8_le_u128
    by (simp add: claimed_call_of_value_def claimed_call_value_def fr_of_atom_def output_of_atom_of_output)
qed

lemma collect_map:
  "(\<And>x. x \<in> set xs \<Longrightarrow> \<exists>y. f x = Ok y \<and> P x y) \<Longrightarrow>
    \<exists>ys. collect_results (map f xs) = Ok ys \<and> list_all2 P xs ys"
proof (induction xs)
  case (Cons x xs)
  then obtain y ys where "f x = Ok y" "P x y" "collect_results (map f xs) = Ok ys" "list_all2 P xs ys" by (meson list.set_intros)
  then show ?case by auto
qed simp

lemma list_all2_left: "list_all2 P xs ys \<Longrightarrow> x \<in> set xs \<Longrightarrow> \<exists>y \<in> set ys. P x y"
  by (induction rule: list_all2_induct) auto

lemma list_all2_right: "list_all2 P xs ys \<Longrightarrow> y \<in> set ys \<Longrightarrow> \<exists>x \<in> set xs. P x y"
  by (induction rule: list_all2_induct) auto

lemma foldl_fmupd:
  assumes "\<forall>(k, v) \<in> set ys. f k = Some v"
  shows "fmlookup (foldl (\<lambda>m (k, v). fmupd k v m) m ys) k = (if k \<in> fst ` set ys then f k else fmlookup m k)"
  using assms by (induction ys arbitrary: m) auto

lemma map_from_list:
  assumes E: "runtime_ok E" and d: "distinct (map fst ps)"
    and dec: "\<And>k v. (k, v) \<in> set ps \<Longrightarrow> map_entry kd vd dflt (key k, mk v) = Ok (k, v)"
  shows "map_from E kd vd dflt (Map (fmap_of_list (map (\<lambda>(k, v). (key k, mk v)) ps))) = Ok (fmap_of_list ps)"
proof -
  let ?m = "fmap_of_list (map (\<lambda>(k, v). (key k, mk v)) ps)"
  have ent: "x \<in> set (re_entries E ?m) \<longleftrightarrow> fmlookup ?m (fst x) = Some (snd x)" for x
    using E by (cases x) (auto simp: runtime_ok_def)
  have keydec: "kd (av_value (key k)) = Ok k" if "(k, v) \<in> set ps" for k v
    using dec [OF that] by (auto simp: map_entry_def outcome_simps)
  have ex: "\<exists>y. map_entry kd vd dflt x = Ok y \<and> y \<in> set ps \<and> fst x = key (fst y)" if "x \<in> set (re_entries E ?m)" for x
  proof -
    have "(fst x, snd x) \<in> set (map (\<lambda>(k, v). (key k, mk v)) ps)"
      using that ent [of x] by (auto simp: fmlookup_of_list dest: map_of_SomeD)
    then obtain k v where "(k, v) \<in> set ps" "x = (key k, mk v)" by (cases x) auto
    then show ?thesis using dec [of k v] by auto
  qed
  from collect_map [where xs = "re_entries E ?m" and f = "map_entry kd vd dflt" and P = "\<lambda>x y. y \<in> set ps \<and> fst x = key (fst y)", OF ex]
  obtain ys where ys: "collect_results (map (map_entry kd vd dflt) (re_entries E ?m)) = Ok ys"
    "list_all2 (\<lambda>x y. y \<in> set ps \<and> fst x = key (fst y)) (re_entries E ?m) ys" by blast
  have sub: "\<forall>(k, v) \<in> set ys. map_of ps k = Some v"
    using list_all2_right [OF ys(2)] d by (fastforce simp: map_of_eq_Some_iff)
  have "fst ` set ys = fst ` set ps"
  proof
    show "fst ` set ps \<subseteq> fst ` set ys"
    proof
      fix k assume "k \<in> fst ` set ps"
      then obtain v where kv: "(k, v) \<in> set ps" by auto
      then have "key k \<in> fst ` set (map (\<lambda>(k, v). (key k, mk v)) ps)" by force
      then obtain st where st: "fmlookup ?m (key k) = Some st" unfolding fmlookup_of_list by (metis map_of_eq_None_iff not_None_eq)
      then have "(key k, st) \<in> set (re_entries E ?m)" using ent [of "(key k, st)"] by simp
      from list_all2_left [OF ys(2) this] obtain y where y: "y \<in> set ys" "y \<in> set ps" "key k = key (fst y)"
        unfolding fst_conv by blast
      have "(fst y, snd y) \<in> set ps" using y(2) by simp
      then have "kd (av_value (key (fst y))) = Ok (fst y)" by (rule keydec)
      then have "Ok (fst y) = kd (av_value (key k))" unfolding y(3) by (rule sym)
      then have "fst y = k" unfolding keydec [OF kv] by (rule outcome.inject(1) [THEN iffD1])
      then show "k \<in> fst ` set ys" using y(1) by blast
    qed
    show "fst ` set ys \<subseteq> fst ` set ps" using sub by (auto dest!: map_of_SomeD intro!: rev_image_eqI)
  qed
  then have "foldl (\<lambda>m (k, v). fmupd k v m) fmempty ys = fmap_of_list ps"
    using foldl_fmupd [OF sub, of fmempty] by (intro fmap_ext) (metis fmempty_lookup fmlookup_of_list map_of_eq_None_iff)
  then show ?thesis using ys(1) by (simp add: map_from_def)
qed

lemma distinct_sorted_list_of_fmap: "distinct (map fst (sorted_list_of_fmap m))"
  by (simp add: sorted_list_of_fmap_def comp_def sorted_list_of_fset.rep_eq)

lemma fmap_of_sorted_list: "fmap_of_list (sorted_list_of_fmap m) = m"
  by (rule fmap_ext) (simp add: fmlookup_of_list)

lemma map_from_value:
  assumes E: "runtime_ok E"
    and dec: "fmpred (\<lambda>k v. kd (av_value (key k)) = Ok k \<and> vd (av_value (val v)) = Ok v) m"
  shows "map_from E kd vd dflt (map_value key val m) = Ok m"
proof -
  have "map_entry kd vd dflt (key k, Cell (val v)) = Ok (k, v)" if "(k, v) \<in> set (sorted_list_of_fmap m)" for k v
  proof -
    have "fmlookup m k = Some v" using that map_of_is_SomeI [OF distinct_sorted_list_of_fmap that] by simp
    then show ?thesis using dec by (auto simp: map_entry_def dest: fmpredD)
  qed
  from map_from_list [where mk = "\<lambda>v. Cell (val v)", OF E distinct_sorted_list_of_fmap this] show ?thesis
    by (simp add: map_value_def fmap_of_sorted_list)
qed

lemma set_from_value:
  assumes E: "runtime_ok (E :: 'f runtime_env)" and dec: "\<And>k. k |\<in>| s \<Longrightarrow> kd (av_value (key k)) = Ok k"
  shows "set_from E kd (set_value key s) = Ok s"
proof -
  let ?ps = "map (\<lambda>k. (k, ())) (sorted_list_of_fset s)"
  have d: "distinct (map fst ?ps)" by (simp add: comp_def sorted_list_of_fset.rep_eq)
  have e: "map_entry kd unit_of_value () (key k, Null) = Ok (k, u)" if "(k, u) \<in> set ?ps" for k u
    using that dec by (auto simp: map_entry_def)
  have dom: "fmdom (fmap_of_list ?ps) = s" by (simp add: comp_def)
  have "(set_value key s :: 'f state_value) = Map (fmap_of_list (map (\<lambda>(k, u). (key k, Null)) ?ps))" by (simp add: set_value_def comp_def)
  then have "map_from E kd unit_of_value () (set_value key s) = Ok (fmap_of_list ?ps)"
    using map_from_list [where mk = "\<lambda>_. Null", OF E d e] by simp
  then show ?thesis unfolding set_from_def by (simp only: obind.simps dom)
qed

lemma effects_decode:
  assumes "runtime_ok E" and "effects_ok E e"
  shows "effects_of_vm E (vm_of_effects E e) = Ok e"
proof -
  note dec = output_of_value_def prim_of_value_def av_of_output_def aligned_of_def output_of_atom_of_output u64_of_value_def
    av_of_u64_def av_of_u128_def av_of_token_kind_def av_of_claimed_spend_def av_of_claimed_call_def
  have sets: "set_from E (output_of_value ty) (set_value av_of_output s) = Ok s" if "\<forall>h \<in> fset s. h < 2 ^ 256" for ty s
    using that by (intro set_from_value [OF assms(1)]) (simp add: dec)
  have calls: "set_from E (claimed_call_of_value E) (set_value (av_of_claimed_call E) (claimed_contract_calls e)) = Ok (claimed_contract_calls e)"
    using assms by (intro set_from_value [OF assms(1)]) (auto simp: dec effects_ok_def intro!: claimed_call_roundtrip)
  have mints: "map_from E (output_of_value ty) u64_of_value 0 (map_value av_of_output av_of_u64 m) = Ok m"
    if "fmpred (\<lambda>h n. h < 2 ^ 256 \<and> n \<le> u64_max) m" for ty m
    using that by (intro map_from_value [OF assms(1)]) (auto simp: dec fmpred_iff uint_of_atom_of_u128 u8_le_u128)
  have tokens: "map_from E token_kind_of_value (prim_of_value ''u128'' u128_of_atom) 0 (map_value av_of_token_kind av_of_u128 m) = Ok m"
    if "fmpred (\<lambda>t n. token_kind_ok t \<and> n \<le> u128_max) m" for m
    using that by (intro map_from_value [OF assms(1)]) (auto simp: dec fmpred_iff token_kind_roundtrip u128_of_atom_of_u128)
  have spends: "map_from E claimed_spend_of_value (prim_of_value ''u128'' u128_of_atom) 0 (map_value av_of_claimed_spend av_of_u128 m) = Ok m"
    if "fmpred (\<lambda>(t, a) n. token_kind_ok t \<and> public_address_ok a \<and> n \<le> u128_max) m" for m
    using that by (intro map_from_value [OF assms(1)]) (auto simp: dec fmpred_iff claimed_spend_roundtrip u128_of_atom_of_u128)
  show ?thesis using assms(2)
    by (simp add: vm_of_effects_def effects_of_vm_def vnew_def effects_ok_def sets calls mints tokens spends)
qed

text \<open>Property C4. Effects survive the way through the machine: read back from the value that stands for them on
  the stack, they are the same, for effects whose hashes and amounts fit their types.\<close>

theorem effects_roundtrip:
  assumes "runtime_ok E" and "effects_ok E e"
  shows "effects_of_vm E (vm_of_effects E e) = Ok e"
  using assms by (rule effects_decode)

section \<open>Values on the stack\<close>

lemma output_cell_ok [simp]: "cell_ok (av_of_output h)"
  using va_normalize_length [of "to_le 32 h"] by (simp add: av_of_output_def atom_of_output_def aligned_of_cell_ok)

lemma u128_cell_ok [simp]: "cell_ok (av_of_u128 n)"
  using va_normalize_length [of "to_le 16 n"] by (simp add: av_of_u128_def atom_of_u128_def aligned_of_cell_ok)

lemma u32_cell_ok [simp]: "n \<le> u32_max \<Longrightarrow> cell_ok (av_of_u32 n)"
  using atom_of_u128_length [of n 4] by (simp add: av_of_u32_def aligned_of_cell_ok atom_of_u128_def u32_max_def)

lemma public_address_cell_ok [simp]: "cell_ok (av_of_public_address a)"
proof -
  have h: "length (atom_of_output h) \<le> 32" "is_in_normal_form (atom_of_output h)" for h
    using va_normalize_length [of "to_le 32 h"] by (simp_all add: atom_of_output_def)
  have b: "length (atom_of_bool b) \<le> 1" "is_in_normal_form (atom_of_bool b)" for b
    using va_normalize_length [of "[if b then 1 else 0]"] by (simp_all add: atom_of_bool_def)
  have size: "va_serialized_size v \<le> 1032" if "is_in_normal_form v" "length v \<le> 32" for v
    using that by (simp add: va_serialized_size_def va_size_normal_def flagged_int_size_def)
  have bound: "av_serialized_size \<lparr>av_value = [x, y, z], av_alignment = bytes_alignment [1, 32, 32]\<rparr> \<le> cell_bound + 2"
    if "va_serialized_size x \<le> 1032" "va_serialized_size y \<le> 1032" "va_serialized_size z \<le> 1032" for x y z
    using that by (simp add: av_serialized_size_def value_serialized_size_def alignment_serialized_size_def alignment_size_with_def
        bytes_alignment_def cell_bound_def flagged_int_size_def)
  have nil: "is_in_normal_form []" by (simp add: is_in_normal_form_def)
  have "av_ok (av_of_public_address a)"
    using h b nil order_trans [OF mod_less_eq_dividend h(1)] order_trans [OF mod_less_eq_dividend b(1)]
    by (cases a) (simp_all add: av_ok_def av_of_public_address_def bytes_alignment_def alignment_fits_def alignment_consume_def)
  moreover have "va_serialized_size (atom_of_output h) \<le> 1032" "va_serialized_size (atom_of_bool b) \<le> 1032" "va_serialized_size [] \<le> 1032" for h b
    using size [OF h(2,1)] size [OF b(2) order_trans [OF b(1)]] size [OF nil] by simp_all
  then have "av_serialized_size (av_of_public_address a) \<le> cell_bound + 2"
    unfolding av_of_public_address_def by (cases a) (simp_all only: public_address_value.simps bound)
  ultimately show ?thesis by (simp add: cell_ok_def)
qed

lemma fmran_of_list: "v \<in> fmran' (fmap_of_list xs) \<Longrightarrow> v \<in> snd ` set xs"
  by (auto simp: fmran'_def fmlookup_ran_iff fmlookup_of_list ran_def dest!: map_of_SomeD intro!: rev_image_eqI)

lemma set_value_ok [simp]: "sv_ok C (set_value key s)"
  by (auto simp: set_value_def dest!: fmran_of_list)

lemma map_value_ok: "(\<And>k v. fmlookup m k = Some v \<Longrightarrow> cell_ok (val v)) \<Longrightarrow> sv_ok C (map_value key val m)"
proof -
  assume ok: "\<And>k v. fmlookup m k = Some v \<Longrightarrow> cell_ok (val v)"
  have "cell_ok (val v)" if "(k, v) \<in> set (sorted_list_of_fmap m)" for k v
    using ok [of k v] map_of_is_SomeI [OF distinct_sorted_list_of_fmap that] by simp
  then show ?thesis by (auto simp: map_value_def dest!: fmran_of_list)
qed

section \<open>Queries\<close>

definition store_ok :: "'f runtime_env \<Rightarrow> 'f charged_state \<Rightarrow> bool" where
  "store_ok E cs \<longleftrightarrow> (\<forall>st. rc_ok (re_arena E st) (cs_charged_keys cs) \<and>
     (\<forall>k \<in> reach (re_arena E st) [re_child E st]. loaded (re_arena E st) k) \<and>
     (\<exists>rank :: arena_key \<Rightarrow> nat. \<forall>k. \<forall>k' \<in> set (kids (re_arena E st) k). rank k' < rank k))"

definition call_context_ok :: "call_context \<Rightarrow> bool" where
  "call_context_ok c \<longleftrightarrow> cc_tblock c \<le> u64_max \<and> cc_tblock_err c \<le> u32_max \<and> cc_last_block_time c \<le> u64_max \<and>
     fmpred (\<lambda>_ n. n \<le> u64_max) (cc_com_indices c)"

definition query_ok :: "'f runtime_env \<Rightarrow> 'f query_context \<Rightarrow> bool" where
  "query_ok E q \<longleftrightarrow> sv_ok (ve_crypto E) (cs_state (qc_state q)) \<and> effects_ok E (qc_effects q) \<and> call_context_ok (qc_call_context q) \<and>
     store_ok E (qc_state q)"

lemma query_stack_ok: "query_ok E q \<Longrightarrow> \<forall>v \<in> set (to_vm_stack E q). sv_ok (ve_crypto E) (vv_value v)"
  by (auto simp: query_ok_def to_vm_stack_def vm_of_context_def vm_of_effects_def effects_ok_def call_context_ok_def Let_def
      intro!: map_value_ok dest: fmpredD split: option.splits)

lemma map_entry_safe: "(\<And>v. kd v \<noteq> Panic) \<Longrightarrow> (\<And>v. vd v \<noteq> Panic) \<Longrightarrow> map_entry kd vd dflt x \<noteq> Panic"
  by (cases x) (auto simp: map_entry_def outcome_simps split: state_value.splits)

lemma collect_results_safe: "(\<And>x. x \<in> set xs \<Longrightarrow> x \<noteq> Panic) \<Longrightarrow> collect_results xs \<noteq> Panic"
proof (induction xs)
  case (Cons x xs)
  then have "x \<noteq> Panic" "collect_results xs \<noteq> Panic" by auto
  then show ?case by (cases x) (auto simp: outcome_simps)
qed simp

lemma map_from_safe:
  assumes "\<And>v. kd v \<noteq> Panic" "\<And>v. vd v \<noteq> Panic"
  shows "map_from E kd vd dflt st \<noteq> Panic"
proof -
  have "collect_results (map (map_entry kd vd dflt) xs) \<noteq> Panic" for xs
    using map_entry_safe [of kd vd dflt, OF assms] by (intro collect_results_safe) auto
  then show ?thesis by (auto simp: map_from_def outcome_simps split: state_value.splits)
qed

lemma decoders_safe:
  "u128_of_atom a \<noteq> Panic" "uint_of_atom mx ty a \<noteq> Panic" "bool_of_atom a \<noteq> Panic" "output_of_atom ty a \<noteq> Panic" "unit_of_atom a \<noteq> Panic"
  "unit_of_value v \<noteq> Panic" "fr_of_atom E a \<noteq> Panic"
  by (simp_all add: u128_of_atom_def uint_of_atom_def bool_of_atom_def output_of_atom_def unit_of_atom_def unit_of_value_def fr_of_atom_def outcome_simps)

lemma value_decoders_safe:
  "output_of_value ty v \<noteq> Panic" "u64_of_value v \<noteq> Panic" "prim_of_value ty u128_of_atom v \<noteq> Panic"
  "token_kind_of_value v \<noteq> Panic" "public_address_of_value v \<noteq> Panic" "claimed_call_of_value E v \<noteq> Panic"
  by (simp_all add: output_of_value_def u64_of_value_def prim_of_value_def token_kind_of_value_def public_address_of_value_def
      claimed_call_of_value_def outcome_simps decoders_safe)

lemma claimed_spend_safe: "claimed_spend_of_value v \<noteq> Panic"
  by (simp add: claimed_spend_of_value_def outcome_simps value_decoders_safe)

lemma effects_of_vm_safe: "effects_of_vm E v \<noteq> Panic"
proof -
  note safe = map_from_safe [OF value_decoders_safe(1) value_decoders_safe(2)] map_from_safe [OF value_decoders_safe(4) value_decoders_safe(3)]
    map_from_safe [OF claimed_spend_safe value_decoders_safe(3)]
  have sets: "set_from E kd st \<noteq> Panic" if "\<And>v. kd v \<noteq> Panic" for kd st
    using map_from_safe [of kd unit_of_value E "()" st, OF that decoders_safe(6)] by (auto simp: set_from_def outcome_simps)
  show ?thesis
    by (simp add: effects_of_vm_def outcome_simps safe sets value_decoders_safe split: state_value.split list.split)
qed

lemma run_program_ok:
  assumes "env_ok E" "mode_ok mode" "\<forall>v \<in> set initial. sv_ok (ve_crypto E) (vv_value v)" "\<forall>op \<in> set program. op_ok (ve_crypto E) op"
  shows "safe (run_program E mode initial program) (\<lambda>r. (\<forall>v \<in> set (vr_stack r). sv_ok (ve_crypto E) (vv_value v)) \<and> within_limit E (vr_gas_cost r))"
proof -
  have "safe (run_program_internal E mode None program (initial_vm initial))
      (\<lambda>s'. vm_inv E (length initial) rc_zero s' \<and> length (vm_stack s') \<le> max (length initial) max_stack_height)"
    using assms by (intro run_program_internal_safe initial_vm_inv) (simp_all add: initial_vm_def)
  then show ?thesis
    by (auto simp: run_program_def run_program_step_limited_def safe_iff outcome_simps vm_inv_def list_all_iff entry_ok_def)
qed

lemma charged_state_update_ok:
  assumes "store_ok E cs"
  shows "\<exists>cs' cost. charged_state_update E cs st cpu gc = (Ok (cs', cost) :: ('e, _) outcome) \<and> cs_state cs' = st \<and>
    rc_ok (re_arena E st) (cs_charged_keys cs') \<and> reach (re_arena E st) [re_child E st] \<subseteq> charged (cs_charged_keys cs')"
proof -
  obtain rank :: "arena_key \<Rightarrow> nat" where "rc_ok (re_arena E st) (cs_charged_keys cs)"
    "\<forall>k \<in> reach (re_arena E st) [re_child E st]. loaded (re_arena E st) k"
    "\<forall>k. \<forall>k' \<in> set (kids (re_arena E st) k). rank k' < rank k"
    using assms unfolding store_ok_def by blast
  from incremental_charges [OF this, where ?'e = 'e, of cpu gc] show ?thesis by (auto simp: charged_state_update_def)
qed

text \<open>
  Property C3. Running a program against a well-formed contract state never panics, in any result mode and with any
  gas limit. When it succeeds, the new state is well formed again, the charged keys have the right counts and cover
  every node of the new state, and the read time is within the limit.
\<close>

theorem query_safe:
  assumes env: "env_ok (vm_env.truncate E)" and mode: "mode_ok mode" and q: "query_ok E q"
    and ops: "\<forall>op \<in> set ops. op_ok (ve_crypto E) op"
  shows "query (E :: 'f :: linorder runtime_env) mode q ops limit \<noteq> Panic \<and>
    (\<forall>r. query E mode q ops limit = Ok r \<longrightarrow>
       (let st = cs_state (qc_state (qr_context r)); keys = cs_charged_keys (qc_state (qr_context r)) in
        sv_ok (ve_crypto E) st \<and> rc_ok (re_arena E st) keys \<and> reach (re_arena E st) [re_child E st] \<subseteq> charged keys \<and>
        (\<forall>l. limit = Some l \<longrightarrow> rc_read_time (qr_gas_cost r) \<le> rc_read_time l)))"
proof -
  let ?V = "vm_env.truncate E\<lparr>ve_limit := limit\<rparr>" and ?upd = "charged_state_update E (qc_state q)"
  have V: "ve_crypto ?V = ve_crypto E" "env_ok ?V" using env by (simp_all add: vm_env.truncate_def env_ok_def)
  have run: "safe (run_program ?V mode (to_vm_stack E q) ops) (\<lambda>r. \<forall>v \<in> set (vr_stack r). sv_ok (ve_crypto E) (vv_value v))"
    using run_program_ok [OF V(2) mode, of "to_vm_stack E q" ops] query_stack_ok [OF q] ops V(1) by (auto simp: safe_iff)
  have upd: "\<exists>cs' cost. ?upd st cpu gc = (Ok (cs', cost) :: ('f transcript_rejected, _) outcome) \<and> cs_state cs' = st \<and>
      rc_ok (re_arena E st) (cs_charged_keys cs') \<and> reach (re_arena E st) [re_child E st] \<subseteq> charged (cs_charged_keys cs')" for st cpu gc
    using q charged_state_update_ok unfolding query_ok_def by blast
  have "safe (query E mode q ops limit) (\<lambda>r.
      let st = cs_state (qc_state (qr_context r)); keys = cs_charged_keys (qc_state (qr_context r)) in
      sv_ok (ve_crypto E) st \<and> rc_ok (re_arena E st) keys \<and> reach (re_arena E st) [re_child E st] \<subseteq> charged keys \<and>
      (\<forall>l. limit = Some l \<longrightarrow> rc_read_time (qr_gas_cost r) \<le> rc_read_time l))" (is "safe _ ?post")
  proof (cases "run_program ?V mode (to_vm_stack E q) ops")
    case (Ok res)
    have sv: "\<forall>v \<in> set (vr_stack res). sv_ok (ve_crypto E) (vv_value v)" using run Ok by (simp add: safe_iff)
    show ?thesis
    proof (cases "\<exists>a eff st. vr_stack res = [a, eff, st]")
      case True
      then obtain a eff st where st: "vr_stack res = [a, eff, st]" by blast
      obtain cs' cost where u: "?upd (vv_value st) (delta_cost (ve_cost E)) (delta_gc_limit (ve_cost E)) = (Ok (cs', cost) :: ('f transcript_rejected, _) outcome)"
        "cs_state cs' = vv_value st" "rc_ok (re_arena E (vv_value st)) (cs_charged_keys cs')"
        "reach (re_arena E (vv_value st)) [re_child E (vv_value st)] \<subseteq> charged (cs_charged_keys cs')"
        using upd by blast
      have "\<not> rc_greater g l \<Longrightarrow> rc_read_time g \<le> rc_read_time l" for g l by (auto simp: rc_greater_def)
      then show ?thesis using Ok st u sv effects_of_vm_safe [of E eff]
        by (auto simp: query_def safe_iff outcome_simps Let_def split: option.splits if_splits)
    next
      case False
      then have "query E mode q ops limit = Err FinalStackWrongLength"
        using Ok by (auto simp: query_def split: list.splits)
      then show ?thesis by (simp add: safe_iff)
    qed
  next
    case (Err e)
    then show ?thesis by (simp add: query_def safe_iff)
  next
    case Panic
    then show ?thesis using run by (simp add: safe_iff)
  qed
  then show ?thesis by (simp add: safe_iff)
qed

section \<open>Examples\<close>

text \<open>States are small and inlined; the store is empty.\<close>

definition five :: "nat state_value" where
  "five = Cell (av_of_u64 5)"

definition example_runtime :: "nat runtime_env" where
  "example_runtime = \<lparr>ve_crypto = byte_crypto, ve_sv_size = (\<lambda>_. 1), ve_log_nodes = (\<lambda>_. Some 64),
     ve_root_value = av_of_bool \<circ> odd, ve_cost = uniform_cost 10, ve_limit = None,
     re_arena = (\<lambda>_. fmempty), re_child = (\<lambda>st. if st = five then Direct [5] [] else Direct [] []),
     re_entries = (\<lambda>m. SOME xs. set xs = {(k, v). fmlookup m k = Some v}),
     re_fr_bytes = to_le 32, re_fr_from_bytes = (\<lambda>bs. Some (le_val bs))\<rparr>"

lemma example_runtime_ok: "runtime_ok example_runtime"
proof -
  have "\<exists>xs. set xs = {(k, v). fmlookup m k = Some v}" for m :: "(aligned_value, nat state_value) fmap"
  proof -
    have "{(k, v). fmlookup m k = Some v} = (\<lambda>k. (k, the (fmlookup m k))) ` fset (fmdom m)" by (force simp: fmlookup_dom_iff)
    then show ?thesis using finite_list [of "{(k, v). fmlookup m k = Some v}"] by simp
  qed
  then show ?thesis unfolding runtime_ok_def example_runtime_def by simp (rule allI, rule someI_ex, blast)
qed

definition example_effects :: "nat effects" where
  "example_effects = effects_default\<lparr>claimed_nullifiers := {|7, 300|}, claimed_contract_calls := {|(1, 4, 9, 77)|},
     shielded_mints := fmap_of_list [(2, 1000)], unshielded_outputs := fmap_of_list [(Unshielded 0, 12), (Dust, 3)],
     claimed_unshielded_spends := fmap_of_list [((Unshielded 0, UserAddr 8), 12)]\<rparr>"

theorem effects_roundtrip_witness:
  "effects_of_vm example_runtime (vm_of_effects example_runtime example_effects) = Ok example_effects"
proof (rule effects_roundtrip [OF example_runtime_ok])
  have "le_val (to_le 32 77) = 77" by (rule le_val_to_le) simp
  then have "fr_ok example_runtime 77" by (simp add: fr_ok_def example_runtime_def fr_bytes_def)
  then show "effects_ok example_runtime example_effects"
    by (simp add: effects_ok_def example_effects_def effects_default_def u64_max_def u128_max_def fmpred_iff fmlookup_of_list)
qed

definition example_query :: "nat query_context" where
  "example_query = query_context_new \<lparr>cs_state = Null, cs_charged_keys = rcmap_default\<rparr> 1"

lemma example_store: "store_ok example_runtime (qc_state example_query)"
proof -
  let ?A = "fmempty :: arena"
  have arena: "re_arena example_runtime st = ?A" for st by (simp add: example_runtime_def)
  have kids: "kids ?A (Direct d []) = []" "kids ?A (Ref h) = []" for d h by (simp_all add: kids_def)
  have "reach ?A [re_child example_runtime st] \<subseteq> {Direct [5] [], Direct [] []}" for st
  proof (rule reach_closed)
    show "set [re_child example_runtime st] \<subseteq> {Direct [5] [], Direct [] []}" by (simp add: example_runtime_def)
  qed (auto simp: kids)
  moreover have "loaded ?A (Direct d [])" for d by (simp add: loaded_def)
  ultimately have all: "\<forall>k \<in> reach ?A [re_child example_runtime st]. loaded ?A k" for st by blast
  have rank: "of_bool (\<not> is_ref k') < (of_bool (\<not> is_ref k) :: nat)" if "k' \<in> set (kids ?A k)" for k k'
    using kids_ref [OF that] kids(2) that by (cases k) auto
  have ok: "rc_ok ?A (cs_charged_keys (qc_state example_query))" by (simp add: example_query_def query_context_new_def rc_ok_default)
  show ?thesis unfolding store_ok_def arena
    by (intro allI conjI ok all exI [of _ "\<lambda>k. of_bool (\<not> is_ref k)"] ballI rank)
qed

lemma example_query_ok: "query_ok example_runtime example_query"
  using example_store
  by (simp add: query_ok_def example_query_def query_context_new_def effects_ok_def effects_default_def call_context_ok_def call_context_default_def)

lemma example_env_ok: "env_ok (vm_env.truncate example_runtime)"
  by (simp add: env_ok_def vm_env.truncate_def example_runtime_def)

theorem query_safe_witness:
  "query example_runtime result_mode_gather example_query [Pop, Push True five] (Some (rc_zero\<lparr>rc_read_time := 1\<rparr>)) \<noteq> Panic"
  using query_safe [OF example_env_ok mode_ok_gather example_query_ok, of "[Pop, Push True five]" "Some (rc_zero\<lparr>rc_read_time := 1\<rparr>)"]
  by (simp add: five_def u64_max_def)

text \<open>
  Property C5. The gas limit of a query bounds no bytes. The machine checks the times only, and the final cost is compared
  with the limit in the derived, lexicographic order of costs, whose first component is the read time. So a query that is
  accepted with a limit and reads for less time than it allows is accepted, with the same result, whatever bounds the limit
  has for the bytes written and deleted.
\<close>

theorem byte_limits_ignored:
  assumes "query E mode self ops (Some L) = Ok r" and "rc_read_time (qr_gas_cost r) < rc_read_time L"
  shows "query E mode self ops (Some (L\<lparr>rc_bytes_written := w, rc_bytes_deleted := d\<rparr>)) = Ok r"
proof -
  let ?L = "L\<lparr>rc_bytes_written := w, rc_bytes_deleted := d\<rparr>" and ?run = "\<lambda>L. run_program (vm_env.truncate E\<lparr>ve_limit := Some L\<rparr>) mode (to_vm_stack E self) ops"
  obtain res where res: "?run L = Ok res" using assms(1) by (cases "?run L") (auto simp: query_def)
  then have same: "?run ?L = Ok res" by (rule run_program_limit_times) simp_all
  have "\<not> rc_greater (qr_gas_cost r) ?L" using assms(2) by (simp add: rc_greater_def)
  moreover obtain ctx eff st v cs cost where "vr_stack res = [ctx, eff, st]" "vv_strength st \<noteq> Weak" "effects_of_vm E eff = Ok v"
      "charged_state_update E (qc_state self) (vv_value st) (delta_cost (ve_cost E)) (delta_gc_limit (ve_cost E)) =
        (Ok (cs, cost) :: ('a transcript_rejected, _) outcome)"
      "r = \<lparr>qr_context = self\<lparr>qc_effects := v, qc_state := cs\<rparr>, qr_events = vr_events res, qr_gas_cost = rc_add (vr_gas_cost res) cost\<rparr>"
    using assms(1) res unfolding query_def by (auto simp: outcome_simps Let_def split: list.splits if_splits)
  ultimately show ?thesis using same by (simp add: query_def)
qed

definition example_limit :: running_cost where
  "example_limit = \<lparr>rc_read_time = 1, rc_compute_time = 1000, rc_bytes_written = 1000, rc_bytes_deleted = 0\<rparr>"

lemma example_decode: "effects_of_vm example_runtime (vm_of_effects example_runtime effects_default) = Ok effects_default"
  by (rule effects_decode [OF example_runtime_ok]) (simp add: effects_ok_def effects_default_def)

lemma example_run: "run_program (vm_env.truncate example_runtime\<lparr>ve_limit := Some example_limit\<rparr>) result_mode_gather
    (to_vm_stack example_runtime example_query) [Pop, Push True five] =
    Ok \<lparr>vr_stack = [vm_of_context example_query, vm_of_effects example_runtime effects_default, vnew Strong five], vr_events = [],
      vr_gas_cost = rc_zero\<lparr>rc_compute_time := 20\<rparr>\<rparr>"
  by (simp add: run_defs to_vm_stack_def example_query_def query_context_new_def vm_env.truncate_def example_runtime_def
      example_limit_def five_def exec_pop_def uniform_cost_def)

lemma example_update: "\<exists>cs cost. charged_state_update example_runtime (qc_state example_query) five (delta_cost (ve_cost example_runtime))
    (delta_gc_limit (ve_cost example_runtime)) = (Ok (cs, cost) :: ('e, _) outcome) \<and>
    rc_read_time cost = 0 \<and> rc_bytes_written cost > 0"
proof -
  let ?k = "Direct [5] []"
  have gc: "gc_loop A m roots n [] [] [] [] = (Ok ([], []) :: ('e, _) outcome)" for A m roots n by (cases n) simp_all
  have size: "key_serialized_size ?k = 4" by code_simp
  have "get_unreachable_keys_not_in (ins_root \<lparr>rc_ge_1 = fmempty, rc_0 = []\<rparr> ?k) [?k] = []"
    by (simp add: get_unreachable_keys_not_in_def ins_root_def rc_0_insert_def)
  then have "\<exists>r. incremental_write_delete_costs (re_arena example_runtime five) rcmap_default [?k] (delta_cost cm) lim =
      (Ok r :: ('e, _) outcome) \<and> wd_bytes_written r > 0 \<and> wd_processing_cost r = delta_cost cm 1 0" for cm lim
    by (simp add: incremental_write_delete_costs_def get_writes_def update_rcmap_def example_runtime_def
        rc_contains_def rcmap_default_def count_refs_def count_of_def gc_rcmap_def gc Let_def
        write_delete_results_new_def compute_bytes_from_keys_def size del: key_serialized_size.simps)
  then obtain r where r: "incremental_write_delete_costs (re_arena example_runtime five) rcmap_default [?k]
      (delta_cost (ve_cost example_runtime)) (delta_gc_limit (ve_cost example_runtime)) = (Ok r :: ('e, _) outcome)"
    "wd_bytes_written r > 0" "wd_processing_cost r = delta_cost (ve_cost example_runtime) 1 0" by blast
  have "re_child example_runtime five = ?k" "cs_charged_keys (qc_state example_query) = rcmap_default"
    by (simp_all add: example_runtime_def example_query_def query_context_new_def)
  moreover have "rc_read_time (delta_cost cm w d) = 0" "rc_bytes_written (delta_cost cm w d) = 0" for cm w d
    by (simp_all add: delta_cost_def rc_compute_def rc_zero_def)
  ultimately show ?thesis using r
    by (simp add: charged_state_update_def wd_running_cost_def rc_add_def cd_add_def sat_add_def u64_max_def)
qed

theorem byte_limits_ignored_witness:
  "\<exists>r. query example_runtime result_mode_gather example_query [Pop, Push True five]
      (Some (example_limit\<lparr>rc_bytes_written := 0, rc_bytes_deleted := 0\<rparr>)) = Ok r \<and> rc_bytes_written (qr_gas_cost r) > 0"
proof -
  obtain cs cost where u: "charged_state_update example_runtime (qc_state example_query) five (delta_cost (ve_cost example_runtime))
      (delta_gc_limit (ve_cost example_runtime)) = (Ok (cs, cost) :: (nat transcript_rejected, _) outcome)"
    "rc_read_time cost = 0" "rc_bytes_written cost > 0" using example_update by blast
  have "qc_effects example_query = effects_default" by (simp add: example_query_def query_context_new_def)
  then obtain r where "query example_runtime result_mode_gather example_query [Pop, Push True five] (Some example_limit) = Ok r"
    "rc_read_time (qr_gas_cost r) < rc_read_time example_limit" "rc_bytes_written (qr_gas_cost r) > 0"
    using u example_run example_decode
    by (auto simp: query_def rc_greater_def rc_add_def rc_zero_def cd_add_def sat_add_def u64_max_def example_limit_def)
  then show ?thesis using byte_limits_ignored by blast
qed

end
