(* ===== verification/Spec2Isabelle.thy ===== *)
theory Spec2Isabelle
  imports Time_Arith Cost_Model Merkle_Update Onchain_Gas Onchain_Modes Onchain_Laws Zswap_History Runtime_Laws
begin

text \<open>
  Verification of the Midnight ledger (the crates under \<open>src/\<close>).

  \<^bold>\<open>The program.\<close> A node keeps a ledger state and applies transactions and block boundaries to it. The state
  is made of persistent maps, sets and arrays over a Merkle Patricia trie (\<open>storage\<close>), Merkle trees of
  commitments (\<open>transient-crypto\<close>), the shielded token state (\<open>zswap\<close>) and contract states that programs of
  a small stack machine update (\<open>onchain-state\<close>, \<open>onchain-vm\<close>). Values travel in a field-aligned binary
  format, and work is priced in several dimensions with fixed-point prices (\<open>base-crypto\<close>).

  \<^bold>\<open>Conventions.\<close> \<open>Prelude\<close> has the outcome of a Rust call (\<open>Ok\<close>, \<open>Err\<close> or \<open>Panic\<close>), the integer types as bounded
  numbers with saturating, checked and wrapping operations, and the lemma collections. Additions whose
  overflow a release build would wrap are written with the wrap-around. Hash functions, curve operations and
  proof verifiers come from other libraries and are parameters of the definitions; where a property needs
  that a hash has no collisions it says so, and its witness has an instance. Fuel is not used: loops are
  structural recursions or have termination proofs.

  \<^bold>\<open>base-crypto.\<close>
  \<^item> \<open>Time_Arith\<close>: \<open>time.rs\<close>, timestamps and durations.
  \<^item> \<open>Cost_Model\<close>: \<open>cost_model.rs\<close>, costs, fixed-point numbers, prices and their adjustment after a block.
    Normalisation accepts exactly the costs within the limits; prices are monotone, have a floor, and
    fees are rounded up.
  \<^item> \<open>Fab_Encoding\<close>, \<open>Fab_Serialize\<close>: \<open>fab/\<close>, values, alignments and their bytes. The locale \<open>codec\<close> is the
    contract of a serializable type; aligned values round trip and flagged integers have one encoding.

  \<^bold>\<open>transient-crypto.\<close>
  \<^item> \<open>Merkle_Tree\<close>: \<open>merkle_tree.rs\<close>, the trees and their operations.
  \<^item> \<open>Merkle_Refinement\<close>: a tree is an array of cells; its root is a function of the leaves, collapsing hides
    leaves without changing roots, and the locale \<open>leaf_array\<close> gives the contract of consecutive insertion.
  \<^item> \<open>Merkle_Paths\<close>: membership paths (sound and complete), the search for a leaf, insertion evidence. Soundness assumes
    no collision of \<open>transient_hash\<close> among the pairs that are hashed, and finds a leaf with the same degraded hash.
  \<^item> \<open>Merkle_Update\<close>: collapsed updates, which carry the digests of a range from one tree to another.
  \<^item> Heights are at most 63, as the ledger's are, so that positions and the shifts by heights stay within \<open>u64\<close>.

  \<^bold>\<open>storage.\<close>
  \<^item> \<open>Mpt\<close>, \<open>Mpt_Laws\<close>: \<open>merkle_patricia_trie.rs\<close>, the trie and that it is a map from paths.
  \<^item> \<open>Mpt_Canonical\<close>, \<open>Mpt_History\<close>: the canonicity check determines a trie from its contents, and insertions
    and removals keep it, for prefix-free keys of at most 255 nibbles (locale \<open>annotation\<close>).
  \<^item> \<open>Mpt_Range\<close>: pruning and the search for a predecessor in the order of paths.
  \<^item> \<open>Storage_Map\<close>: \<open>storage.rs\<close>, maps, hash maps, hash sets and arrays (locale \<open>map_keys\<close>). A hash map is a
    finite map when the hashes of its keys are distinct; the theories above it use finite maps and sets.
  \<^item> \<open>Time_Filter\<close>: the multiset and the time filter map (locale \<open>container\<close>).
  \<^item> \<open>Delta_Tracking\<close>, \<open>Delta_Laws\<close>: \<open>delta_tracking/\<close>, the reference counted set of keys a state is charged for;
    an update charges exactly the nodes that become reachable and releases those that do not stay reachable.

  \<^bold>\<open>serialize.\<close>
  \<^item> \<open>Serialize_Scale\<close>: \<open>util.rs\<close>, \<open>serializable.rs\<close>, \<open>deserializable.rs\<close>, compact integers, which have one encoding each,
    and vectors, options and tagged values as instances of \<open>codec\<close>.

  \<^bold>\<open>onchain-state, onchain-vm.\<close>
  \<^item> \<open>Onchain_State\<close>: \<open>state.rs\<close>, state values. \<open>Onchain_Cost\<close>: \<open>cost_model.rs\<close>. \<open>Onchain_Ops\<close>: \<open>ops.rs\<close>,
    \<open>vm_value.rs\<close>, \<open>result_mode.rs\<close> and the cache. \<open>Onchain_VM\<close>: \<open>vm.rs\<close>, one definition per operation.
  \<^item> \<open>Onchain_Safety\<close>: no panics and bounded results; programs end within as many steps as they are long.
    \<open>Onchain_Gas\<close>: a gas limit only cuts runs short. \<open>Onchain_Modes\<close>: gathering and verifying runs agree.
    \<open>Onchain_Laws\<close>: laws of single operations.

  \<^bold>\<open>onchain-runtime.\<close>
  \<^item> \<open>Runtime_Context\<close>: \<open>context.rs\<close> and \<open>transcript.rs\<close>, with the types of \<open>coin-structure\<close> they use: the context and the
    effects of a contract call as values of the machine, and a query, which runs a program and charges the new state.
  \<^item> \<open>Runtime_Laws\<close>: effects survive the machine, queries never panic and keep states well formed and charged, and the
    gas limit, compared lexicographically, does not bound the bytes written.

  \<^bold>\<open>zswap.\<close>
  \<^item> \<open>Zswap_Offer\<close>: \<open>structure.rs\<close> and \<open>verify.rs\<close>, offers, their normal form, merging and well-formedness.
  \<^item> \<open>Zswap_Ledger\<close>, \<open>Zswap_History\<close>: \<open>ledger.rs\<close>, applying offers and closing blocks; in every reachable state
    nothing is spent twice, offers apply exactly under the stated conditions, what is spent was created,
    and the root of a block stays usable for an hour.

  \<^bold>\<open>Not modelled.\<close> Proving and proof systems (\<open>zkir\<close>, \<open>zkir-v3\<close>, \<open>proof-server\<close>, \<open>prove.rs\<close>), which wrap third-party
  libraries; the content-addressed store and its databases (\<open>storage-core\<close>, apart from keys and sizes of
  nodes), below the values the model works on; derive macros; bindings for other languages; benchmarks, text formats and random generation.
\<close>

end
